(* ===== verification/Ant_Prelude.thy ===== *)
theory Ant_Prelude
  imports Main "HOL-Library.Word"
begin

text \<open>
  Shared vocabulary of the development: the machine integers of the C sources as words, the
  outcome of the allocations the sources test for, and the generic facts on words and lists
  that the component theories use.
\<close>

unbundle bit_operations_syntax

section \<open>Machine integers\<close>

type_synonym byte = "8 word"
type_synonym u16 = "16 word"
type_synonym u32 = "32 word"
type_synonym u64 = "64 word"
type_synonym bytes = "8 word list"

abbreviation B32 :: nat where "B32 \<equiv> 4294967296"

text \<open>
  \<open>SIZE_MAX\<close> of the 64-bit targets. Sizes and indices are natural numbers in the model; the
  places where the sources test a size against the width of \<open>size_t\<close> use this bound.
\<close>

definition SIZE_MAX :: nat where "SIZE_MAX = 18446744073709551615"

definition UINT32_MAX :: nat where "UINT32_MAX = 4294967295"

text \<open>
  The outcome of the memory requests of one call: whether the C heap grants a request of
  \<open>n\<close> bytes, whether the typed pool of the runtime does, and whether the collector accepts
  another temporary root. Every out-of-memory branch of the sources is a branch of the model
  over this record.
\<close>

record mem =
  heap_ok :: "nat \<Rightarrow> bool"
  pool_ok :: "nat \<Rightarrow> bool"
  roots_ok :: bool

definition mem_granted :: mem where
  "mem_granted = \<lparr>heap_ok = (\<lambda>_. True), pool_ok = (\<lambda>_. True), roots_ok = True\<rparr>"

lemma mem_granted_simps [simp]:
  "heap_ok mem_granted n" "pool_ok mem_granted n" "roots_ok mem_granted"
  by (simp_all add: mem_granted_def)

text \<open>
  The errors the sources raise with \<open>js_mkerr\<close> and \<open>js_mkerr_typed\<close>; \<open>undefined_behaviour\<close> stands for
  what the C standard leaves undefined and the sources do not test for: a store outside a buffer,
  a double converted to an integer type that cannot hold it.
\<close>

datatype js_error =
    js_mkerr string
  | js_mkerr_type string
  | js_mkerr_range string
  | js_mkerr_uri string
  | undefined_behaviour

type_synonym 'a outcome = "js_error + 'a"

abbreviation oom :: js_error where "oom \<equiv> js_mkerr ''oom''"

text \<open>What \<open>strlen\<close> and its kin see of a buffer: the bytes before the first zero.\<close>

definition c_string :: "byte list \<Rightarrow> byte list" where
  "c_string s = takeWhile (\<lambda>b. b \<noteq> 0) s"

lemma c_string_id: "0 \<notin> set s \<Longrightarrow> c_string s = s"
  unfolding c_string_def takeWhile_eq_all_conv by auto

section \<open>Words read as natural numbers\<close>

named_theorems unat_ops \<open>natural-number readings of word operations\<close>

lemma unat_lt_B32 [simp]: "unat (x :: u32) < B32"
  using unsigned_less [of x] by simp

lemma unat_le_B32: "unat (x :: u32) \<le> 4294967295"
  using unat_lt_B32 [of x] by linarith

lemma unat_lt_B64 [simp]: "unat (x :: u64) < 18446744073709551616"
  using unsigned_less [of x] by simp

lemma unat_lt_B8 [simp]: "unat (x :: byte) < 256"
  using unsigned_less [of x] by simp

lemma push_bit_or_nat:
  assumes "b < 2 ^ n"
  shows "push_bit n a OR b = a * 2 ^ n + (b::nat)"
proof -
  have "take_bit n b = b" using assms by (simp add: take_bit_nat_eq_self)
  then have "\<not> bit (push_bit n a) m \<or> \<not> bit b m" for m
    by (metis bit_push_bit_iff_nat bit_take_bit_iff linorder_not_le)
  then have "push_bit n a + b = push_bit n a OR b" by (rule disjunctive_add)
  then show ?thesis by (simp add: push_bit_eq_mult)
qed

lemma unat_u32_to_u64 [simp]: "unat (ucast (x :: u32) :: u64) = unat x"
proof -
  have "unat x < 2 ^ 64" using unat_lt_B32 [of x] by (simp del: unat_lt_B32)
  then show ?thesis by (simp add: unsigned_ucast_eq take_bit_nat_eq_self)
qed

lemma unat_u64_to_u32 [unat_ops]: "unat (ucast (x :: u64) :: u32) = unat x mod B32"
  by (simp add: unsigned_ucast_eq take_bit_eq_mod)

lemma unat_shr [unat_ops]: "unat (drop_bit n x) = unat x div 2 ^ n"
  by (subst unat_drop_bit_eq) (rule drop_bit_eq_div)

lemma unat_low [unat_ops]: "unat (take_bit n x) = unat x mod 2 ^ n"
  by (subst unsigned_take_bit_eq) (rule take_bit_eq_mod)

lemma unat_and_mask32 [unat_ops]: "unat ((x :: u64) AND 0xffffffff) = unat x mod B32"
proof -
  have "(x AND mask 32) = take_bit 32 x" by (simp only: take_bit_eq_mask)
  then show ?thesis using unat_low [of 32 x] by (simp add: mask_eq_exp_minus_1)
qed

lemma unat_shl: "unat (push_bit n (x::'a::len word)) = (unat x * 2 ^ n) mod 2 ^ LENGTH('a)"
  by (subst unsigned_push_bit_eq) (simp only: take_bit_eq_mod push_bit_eq_mult)

lemma unat_shl_or:
  assumes "unat a * 2 ^ n < 2 ^ LENGTH('a)" "unat b < 2 ^ n"
  shows "unat (push_bit n a OR b :: 'a::len word) = unat a * 2 ^ n + unat b"
proof -
  have "unat (push_bit n a) = push_bit n (unat a)"
    using assms unat_shl [of n a] push_bit_eq_mult [of n "unat a"] by simp
  then show ?thesis using assms push_bit_or_nat [of "unat b" n "unat a"]
    by (simp only: unsigned_or_eq)
qed

lemma unat_not: "unat (NOT (x::'a::len word)) = 2 ^ LENGTH('a) - 1 - unat x"
proof -
  have "unat (mask LENGTH('a) - x) = unat (mask LENGTH('a) :: 'a word) - unat x"
    by (rule unat_sub) (simp add: mask_eq_exp_minus_1)
  moreover have "NOT x = mask LENGTH('a) - x"
    by (simp add: not_eq_complement mask_eq_exp_minus_1)
  ultimately show ?thesis by (simp add: unsigned_minus_1_eq_mask mask_eq_exp_minus_1)
qed

lemma unat_add_fits [unat_ops]:
  "unat a + unat b < 2 ^ LENGTH('a) \<Longrightarrow> unat (a + b :: 'a::len word) = unat a + unat b"
  by (simp add: unat_word_ariths)

lemma unat_mult_fits [unat_ops]:
  "unat a * unat b < 2 ^ LENGTH('a) \<Longrightarrow> unat (a * b :: 'a::len word) = unat a * unat b"
  by (simp add: unat_word_ariths)

lemma unat_sub_fits [unat_ops]:
  "unat b \<le> unat a \<Longrightarrow> unat (a - b :: 'a::len word) = unat a - unat b"
  by (simp add: unat_sub_if')

end
