(* ===== verification/Bigint_Limbs.thy ===== *)
theory Bigint_Limbs
  imports Ant_Prelude
begin

text \<open>
  Magnitude arithmetic of \<open>src/src/modules/bigint.c\<close>: little-endian arrays of 32-bit limbs with
  64-bit intermediates. A routine that fills a result buffer returns the limbs it wrote together
  with the count it returns to its caller; \<open>lval\<close> reads an array of limbs as a natural number.
\<close>

unbundle bit_operations_syntax

type_synonym limbs = "u32 list"

fun lval :: "limbs \<Rightarrow> nat" where
  "lval [] = 0"
| "lval (x # xs) = unat x + B32 * lval xs"

section \<open>Checked sizes, allocation and growth\<close>

definition checked_add_size :: "nat \<Rightarrow> nat \<Rightarrow> nat option" where
  "checked_add_size a b = (if a > SIZE_MAX - b then None else Some (a + b))"

definition checked_mul_size :: "nat \<Rightarrow> nat \<Rightarrow> nat option" where
  "checked_mul_size a b = (if a \<noteq> 0 \<and> b > SIZE_MAX div a then None else Some (a * b))"

definition limb_alloc :: "mem \<Rightarrow> nat \<Rightarrow> limbs option" where
  "limb_alloc m count =
     (let count = (if count = 0 then 1 else count)
      in if heap_ok m (count * 4) then Some (replicate count 0) else None)"

definition limb_dup :: "mem \<Rightarrow> limbs \<Rightarrow> limbs option" where
  "limb_dup m limbs =
     (case limb_alloc m (length limbs) of
        None \<Rightarrow> None
      | Some copy \<Rightarrow> Some (limbs @ drop (length limbs) copy))"

text \<open>A growable buffer is its first \<open>count\<close> limbs and its capacity.\<close>

definition grow_u32_buffer :: "mem \<Rightarrow> nat \<Rightarrow> nat option" where
  "grow_u32_buffer m cap =
     (if cap = 0 \<or> cap > SIZE_MAX div 2 then None
      else if heap_ok m (cap * 2 * 4) then Some (cap * 2) else None)"

function append_carry_limbs :: "mem \<Rightarrow> limbs \<Rightarrow> nat \<Rightarrow> u64 \<Rightarrow> (limbs \<times> nat) option" where
  "append_carry_limbs m limbs cap carry =
     (if carry = 0 then Some (limbs, cap)
      else case (if length limbs = cap then grow_u32_buffer m cap else Some cap) of
             None \<Rightarrow> None
           | Some cap' \<Rightarrow>
               append_carry_limbs m (limbs @ [ucast carry]) cap' (drop_bit 32 carry))"
  by pat_completeness auto
termination
proof (relation "measure (\<lambda>(m, l, c, carry). unat carry)")
  show "wf (measure (\<lambda>(m::mem, l::limbs, c::nat, carry::u64). unat carry))" by simp
next
  fix m :: mem and limbs :: limbs and cap cap' :: nat and carry :: u64
  assume "carry \<noteq> 0"
  then have "0 < unat carry" by (simp add: unat_gt_0)
  then have "unat carry div 2 ^ 32 < unat carry" by (simp add: div_less_dividend)
  then show "((m, limbs @ [ucast carry], cap', drop_bit 32 carry), m, limbs, cap, carry)
      \<in> measure (\<lambda>(m, l, c, carry). unat carry)"
    by (simp add: unat_shr)
qed

declare append_carry_limbs.simps [simp del]

function bigint_normalize_limbs :: "limbs \<Rightarrow> limbs" where
  "bigint_normalize_limbs limbs =
     (if length limbs > 1 \<and> last limbs = 0 then bigint_normalize_limbs (butlast limbs)
      else limbs)"
  by pat_completeness auto
termination by (relation "measure length") auto

declare bigint_normalize_limbs.simps [simp del]

definition limbs_is_zero :: "limbs \<Rightarrow> bool" where
  "limbs_is_zero limbs \<longleftrightarrow> length limbs = 1 \<and> limbs ! 0 = 0"

section \<open>Comparison, addition, subtraction\<close>

fun cmp_rev :: "limbs \<Rightarrow> limbs \<Rightarrow> int" where
  "cmp_rev (x # xs) (y # ys) =
     (if x \<noteq> y then (if x > y then 1 else -1) else cmp_rev xs ys)"
| "cmp_rev _ _ = 0"

definition bigint_cmp_abs_limbs :: "limbs \<Rightarrow> limbs \<Rightarrow> int" where
  "bigint_cmp_abs_limbs a b =
     (let a = bigint_normalize_limbs a; b = bigint_normalize_limbs b
      in if length a \<noteq> length b then (if length a > length b then 1 else -1)
         else cmp_rev (rev a) (rev b))"

text \<open>
  The loops over two operands read \<open>i < len ? p[i] : 0\<close>: the head of what is left of the
  array, or zero past its end.
\<close>

fun limb_or_0 :: "limbs \<Rightarrow> u32" where
  "limb_or_0 [] = 0"
| "limb_or_0 (x # xs) = x"

function add_abs_loop :: "limbs \<Rightarrow> limbs \<Rightarrow> u64 \<Rightarrow> limbs \<times> u64" where
  "add_abs_loop a b carry =
     (if a = [] \<and> b = [] then ([], carry)
      else let da = ucast (limb_or_0 a) :: u64;
               db = ucast (limb_or_0 b) :: u64;
               sum = da + db + carry;
               (r, c) = add_abs_loop (tl a) (tl b) (drop_bit 32 sum)
           in (ucast sum # r, c))"
  by pat_completeness auto
termination
  by (relation "measure (\<lambda>(a, b, c). length a + length b)") (auto simp: neq_Nil_conv)

declare add_abs_loop.simps [simp del]

definition bigint_add_abs_limbs :: "limbs \<Rightarrow> limbs \<Rightarrow> limbs \<times> nat" where
  "bigint_add_abs_limbs a b =
     (let maxlen = (if length a > length b then length a else length b);
          (r, carry) = add_abs_loop a b 0
      in (r @ [ucast carry], maxlen + (if carry \<noteq> 0 then 1 else 0)))"

fun sub_abs_loop :: "limbs \<Rightarrow> limbs \<Rightarrow> u64 \<Rightarrow> limbs" where
  "sub_abs_loop [] b borrow = []"
| "sub_abs_loop (x # xs) b borrow =
     (let da = ucast x :: u64;
          db = ucast (limb_or_0 b) :: u64;
          subtrahend = db + borrow
      in if da < subtrahend
         then ucast (0x100000000 + da - subtrahend) # sub_abs_loop xs (tl b) 1
         else ucast (da - subtrahend) # sub_abs_loop xs (tl b) 0)"

definition bigint_sub_abs_limbs :: "limbs \<Rightarrow> limbs \<Rightarrow> limbs \<times> nat" where
  "bigint_sub_abs_limbs a b = (sub_abs_loop a b 0, length a)"

text \<open>
  The carry loop stops at the end of the buffer or when the carry is spent; the carry is
  appended only where the capacity allows it.
\<close>

fun add_u32_loop :: "limbs \<Rightarrow> u64 \<Rightarrow> limbs \<times> u64" where
  "add_u32_loop [] carry = ([], carry)"
| "add_u32_loop (x # xs) carry =
     (if carry = 0 then (x # xs, carry)
      else let sum = ucast x + carry; (r, c) = add_u32_loop xs (drop_bit 32 sum)
           in (ucast sum # r, c))"

definition bigint_add_u32_inplace :: "limbs \<Rightarrow> nat \<Rightarrow> u32 \<Rightarrow> limbs" where
  "bigint_add_u32_inplace result capacity value =
     (let (r, carry) = add_u32_loop result (ucast value);
          r' = (if carry \<noteq> 0 \<and> length result < capacity then r @ [ucast carry] else r)
      in bigint_normalize_limbs r')"

section \<open>Multiplication\<close>

text \<open>
  The product is accumulated in a buffer of \<open>alen + blen + 1\<close> limbs, written by index. A write
  past the end of the buffer is \<open>None\<close>, so that the loops returning \<open>Some\<close> means that every
  store was in range; the carry loop \<open>while (carry != 0)\<close> has no bound of its own.
\<close>

fun mul_inner_loop :: "u32 \<Rightarrow> limbs \<Rightarrow> nat \<Rightarrow> limbs \<Rightarrow> u64 \<Rightarrow> (limbs \<times> u64) option" where
  "mul_inner_loop ai [] k result carry = Some (result, carry)"
| "mul_inner_loop ai (bj # bs) k result carry =
     (if k < length result then
        let prod = ucast ai * ucast bj :: u64;
            lo = ucast (result ! k) + (prod AND 0xffffffff) + (carry AND 0xffffffff)
        in mul_inner_loop ai bs (Suc k) (result[k := ucast lo])
             (drop_bit 32 prod + drop_bit 32 carry + drop_bit 32 lo)
      else None)"

function mul_carry_loop :: "nat \<Rightarrow> limbs \<Rightarrow> u64 \<Rightarrow> limbs option" where
  "mul_carry_loop k result carry =
     (if carry = 0 then Some result
      else if k < length result then
        let cur = ucast (result ! k) + (carry AND 0xffffffff)
        in mul_carry_loop (Suc k) (result[k := ucast cur]) (drop_bit 32 carry + drop_bit 32 cur)
      else None)"
  by pat_completeness auto
termination by (relation "measure (\<lambda>(k, r, c). length r - k)") auto

declare mul_carry_loop.simps [simp del]

fun mul_outer_loop :: "limbs \<Rightarrow> limbs \<Rightarrow> nat \<Rightarrow> limbs \<Rightarrow> limbs option" where
  "mul_outer_loop [] b i result = Some result"
| "mul_outer_loop (ai # as) b i result =
     (case mul_inner_loop ai b i result 0 of
        None \<Rightarrow> None
      | Some (result, carry) \<Rightarrow>
          (case mul_carry_loop (i + length b) result carry of
             None \<Rightarrow> None
           | Some result \<Rightarrow> mul_outer_loop as b (Suc i) result))"

definition bigint_mul_abs_limbs :: "limbs \<Rightarrow> limbs \<Rightarrow> (limbs \<times> nat) option" where
  "bigint_mul_abs_limbs a b =
     (if length a = 1 \<and> length b = 1 then
        let product = ucast (a ! 0) * ucast (b ! 0) :: u64;
            lo = ucast product :: u32; hi = ucast (drop_bit 32 product) :: u32
        in Some ([lo, hi], if hi = 0 then 1 else 2)
      else
        let capacity = length a + length b + 1
        in (case mul_outer_loop a b 0 (replicate capacity 0) of
              None \<Rightarrow> None
            | Some result \<Rightarrow> Some (result, capacity)))"

section \<open>Values of limb arrays\<close>

lemma lval_append: "lval (xs @ ys) = lval xs + B32 ^ length xs * lval ys"
  by (induction xs) (simp_all add: algebra_simps)

lemma lval_bound: "lval xs < B32 ^ length xs"
proof (induction xs)
  case (Cons x xs)
  have "unat x + B32 * lval xs < B32 + B32 * lval xs" by simp
  also have "\<dots> = B32 * (lval xs + 1)" by simp
  also have "\<dots> \<le> B32 * B32 ^ length xs"
    using Cons by (intro mult_le_mono2) simp
  finally show ?case by simp
qed simp

lemma lval_replicate_0 [simp]: "lval (replicate n 0) = 0"
  by (induction n) simp_all

lemma lval_eq_0_iff: "lval xs = 0 \<longleftrightarrow> (\<forall>x \<in> set xs. x = 0)"
  by (induction xs) (auto simp: unat_eq_zero)

lemma lval_singleton [simp]: "lval [x] = unat x"
  by simp

lemma lval_inj: "length xs = length ys \<Longrightarrow> lval xs = lval ys \<Longrightarrow> xs = ys"
proof (induction xs ys rule: list_induct2)
  case (Cons x xs y ys)
  from Cons.prems have eq: "unat x + B32 * lval xs = unat y + B32 * lval ys" by simp
  then have "(unat x + B32 * lval xs) mod B32 = (unat y + B32 * lval ys) mod B32" by simp
  then have "unat x = unat y" by simp
  with eq Cons.IH show ?case by (simp add: word_unat_eq_iff)
qed simp

lemma lval_last_pos:
  assumes "xs \<noteq> []" "last xs \<noteq> 0"
  shows "B32 ^ (length xs - 1) \<le> lval xs"
proof -
  obtain ys y where xs: "xs = ys @ [y]" using assms(1) by (metis rev_exhaust)
  with assms(2) have "1 \<le> unat y" by (simp add: Suc_le_eq unat_gt_0)
  then have "B32 ^ length ys * 1 \<le> B32 ^ length ys * unat y" by (rule mult_le_mono2)
  also have "\<dots> \<le> lval xs" by (simp add: xs lval_append)
  finally show ?thesis by (simp add: xs)
qed

section \<open>Normalisation\<close>

definition normalized :: "limbs \<Rightarrow> bool" where
  "normalized xs \<longleftrightarrow> xs \<noteq> [] \<and> (length xs > 1 \<longrightarrow> last xs \<noteq> 0)"

lemma lval_normalize [simp]: "lval (bigint_normalize_limbs xs) = lval xs"
proof (induction xs rule: bigint_normalize_limbs.induct)
  case (1 xs)
  show ?case
  proof (cases "length xs > 1 \<and> last xs = 0")
    case True
    then have "xs = butlast xs @ [0]" by (metis append_butlast_last_id length_0_conv not_one_less_zero)
    then have "lval xs = lval (butlast xs)"
      by (metis lval_append lval_replicate_0 mult_0_right replicate_0 replicate_Suc add_0_right)
    with True 1 show ?thesis by (simp add: bigint_normalize_limbs.simps [of xs])
  next
    case False
    then show ?thesis by (subst bigint_normalize_limbs.simps) auto
  qed
qed

lemma normalized_normalize: "xs \<noteq> [] \<Longrightarrow> normalized (bigint_normalize_limbs xs)"
proof (induction xs rule: bigint_normalize_limbs.induct)
  case (1 xs)
  show ?case
  proof (cases "length xs > 1 \<and> last xs = 0")
    case True
    then have "butlast xs \<noteq> []" by (cases xs) auto
    with True 1 show ?thesis by (simp add: bigint_normalize_limbs.simps [of xs])
  next
    case False
    with "1.prems" show ?thesis
      by (subst bigint_normalize_limbs.simps) (auto simp: normalized_def)
  qed
qed

lemma normalize_id: "normalized xs \<Longrightarrow> bigint_normalize_limbs xs = xs"
  by (subst bigint_normalize_limbs.simps) (auto simp: normalized_def)

lemma length_normalize_le: "length (bigint_normalize_limbs xs) \<le> length xs"
proof (induction xs rule: bigint_normalize_limbs.induct)
  case (1 xs)
  then show ?case by (cases "length xs > 1 \<and> last xs = 0")
      (auto simp: bigint_normalize_limbs.simps [of xs])
qed

lemma normalized_zero_iff: "normalized xs \<Longrightarrow> limbs_is_zero xs \<longleftrightarrow> lval xs = 0"
proof -
  assume n: "normalized xs"
  show ?thesis
  proof (cases "length xs > 1")
    case True
    with n have "0 < lval xs" using lval_last_pos [of xs]
      by (auto simp: normalized_def intro: less_le_trans [of _ "B32 ^ (length xs - 1)"])
    with True show ?thesis by (simp add: limbs_is_zero_def)
  next
    case False
    with n obtain x where "xs = [x]" by (cases xs) (auto simp: normalized_def)
    then show ?thesis by (simp add: limbs_is_zero_def unat_eq_zero)
  qed
qed

lemma normalized_length_less:
  assumes "normalized xs" "normalized ys" "length xs < length ys"
  shows "lval xs < lval ys"
proof -
  have "lval xs < B32 ^ length xs" by (rule lval_bound)
  also have "\<dots> \<le> B32 ^ (length ys - 1)" using assms(3) by (intro power_increasing) auto
  also have "\<dots> \<le> lval ys"
  proof (rule lval_last_pos)
    show "ys \<noteq> []" using assms(2) by (simp add: normalized_def)
    have "xs \<noteq> []" using assms(1) by (simp add: normalized_def)
    with assms(3) have "1 < length ys" by (cases xs) auto
    with assms(2) show "last ys \<noteq> 0" by (simp add: normalized_def)
  qed
  finally show ?thesis .
qed

section \<open>Correctness of comparison\<close>

lemma lval_snoc_less:
  assumes "length xs = length ys" "x < (y :: u32)"
  shows "lval (xs @ [x]) < lval (ys @ [y])"
proof -
  have "lval xs + B32 ^ length xs * unat x < B32 ^ length xs + B32 ^ length xs * unat x"
    using lval_bound [of xs] by simp
  also have "\<dots> = B32 ^ length xs * (unat x + 1)" by simp
  also have "\<dots> \<le> B32 ^ length xs * unat y"
    using assms(2) by (intro mult_le_mono2) (simp add: word_less_nat_alt)
  finally show ?thesis using assms(1) by (simp add: lval_append)
qed

lemma cmp_rev_sgn:
  "length xs = length ys \<Longrightarrow>
   cmp_rev xs ys = sgn (int (lval (rev xs)) - int (lval (rev ys)))"
proof (induction xs ys rule: list_induct2)
  case (Cons x xs y ys)
  have l: "length (rev xs) = length (rev ys)" using Cons.hyps by simp
  consider "x = y" | "x < y" | "y < x" using less_linear by blast
  then show ?case
  proof cases
    case 1
    with Cons show ?thesis by (simp add: lval_append)
  next
    case 2
    with lval_snoc_less [OF l, of x y] show ?thesis by (auto simp: sgn_if)
  next
    case 3
    with lval_snoc_less [OF l [symmetric], of y x] show ?thesis by (auto simp: sgn_if)
  qed
qed simp

lemma cmp_abs_sgn:
  assumes "a \<noteq> []" "b \<noteq> []"
  shows "bigint_cmp_abs_limbs a b = sgn (int (lval a) - int (lval b))"
proof -
  let ?a = "bigint_normalize_limbs a" and ?b = "bigint_normalize_limbs b"
  have n: "normalized ?a" "normalized ?b" using assms by (auto intro: normalized_normalize)
  consider "length ?a = length ?b" | "length ?a < length ?b" | "length ?b < length ?a"
    using less_linear by blast
  then show ?thesis
  proof cases
    case 1
    then show ?thesis using cmp_rev_sgn [of "rev ?a" "rev ?b"]
      by (simp add: bigint_cmp_abs_limbs_def Let_def)
  next
    case 2
    with normalized_length_less [OF n] show ?thesis
      by (simp add: bigint_cmp_abs_limbs_def Let_def)
  next
    case 3
    with normalized_length_less [OF n(2,1)] show ?thesis
      by (simp add: bigint_cmp_abs_limbs_def Let_def)
  qed
qed

section \<open>Correctness of addition and subtraction\<close>

lemma lval_hd_tl: "lval a = unat (limb_or_0 a) + B32 * lval (tl a)"
  by (cases a) simp_all

lemma u64_split: "unat (ucast (s :: u64) :: u32) + B32 * unat (drop_bit 32 s) = unat s"
  by (simp add: unat_ops)

lemma max_length_tl:
  "\<not> (a = [] \<and> b = []) \<Longrightarrow> max (length a) (length b) = Suc (max (length (tl a)) (length (tl b)))"
  by (cases a; cases b) auto

lemma add_abs_loop_step:
  assumes "\<not> (a = [] \<and> b = [])" "add_abs_loop a b c = (r, c')"
  obtains s r' where "s = ucast (limb_or_0 a) + ucast (limb_or_0 b) + c"
    "add_abs_loop (tl a) (tl b) (drop_bit 32 s) = (r', c')" "r = ucast s # r'"
  using assms by (subst (asm) add_abs_loop.simps) (auto simp: Let_def split: prod.splits)

lemma add_abs_loop_length:
  "add_abs_loop a b c = (r, c') \<Longrightarrow> length r = max (length a) (length b)"
proof (induction a b c arbitrary: r c' rule: add_abs_loop.induct)
  case (1 a b c)
  show ?case
  proof (cases "a = [] \<and> b = []")
    case True
    with "1.prems" show ?thesis by (simp add: add_abs_loop.simps)
  next
    case False
    obtain s r' where s: "s = ucast (limb_or_0 a) + ucast (limb_or_0 b) + c"
      and r': "add_abs_loop (tl a) (tl b) (drop_bit 32 s) = (r', c')" "r = ucast s # r'"
      using add_abs_loop_step [OF False "1.prems"] by blast
    from "1.IH" [OF False refl refl] s r' show ?thesis
      by (simp add: max_length_tl [OF False])
  qed
qed

text \<open>
  The sum of the two limbs and the carry fits in 64 bits, the stored limb is its low half and
  the new carry its high half, again at most one.
\<close>

lemma add_limb_step:
  fixes x y :: u32 and c :: u64
  assumes "unat c \<le> 1"
  defines "s \<equiv> ucast x + ucast y + c :: u64"
  shows "unat s = unat x + unat y + unat c" and "unat (drop_bit 32 s) \<le> 1"
proof -
  have xy: "unat (ucast x + ucast y :: u64) = unat x + unat y"
    using unat_lt_B32 [of x] unat_lt_B32 [of y]
    by (simp add: unat_word_ariths del: unat_lt_B32)
  show s: "unat s = unat x + unat y + unat c"
    unfolding s_def using assms(1) unat_lt_B32 [of x] unat_lt_B32 [of y]
    by (subst unat_add_fits) (simp_all add: xy del: unat_lt_B32)
  show "unat (drop_bit 32 s) \<le> 1"
    using assms(1) unat_lt_B32 [of x] unat_lt_B32 [of y]
    by (simp add: unat_shr s del: unat_lt_B32)
qed

lemma add_abs_loop_value:
  assumes "add_abs_loop a b c = (r, c')" "unat c \<le> 1"
  shows "lval r + B32 ^ max (length a) (length b) * unat c' = lval a + lval b + unat c
    \<and> unat c' \<le> 1"
  using assms
proof (induction a b c arbitrary: r c' rule: add_abs_loop.induct)
  case (1 a b c)
  show ?case
  proof (cases "a = [] \<and> b = []")
    case True
    with "1.prems" show ?thesis by (simp add: add_abs_loop.simps)
  next
    case False
    obtain s r' where s: "s = ucast (limb_or_0 a) + ucast (limb_or_0 b) + c"
      and r': "add_abs_loop (tl a) (tl b) (drop_bit 32 s) = (r', c')" and r: "r = ucast s # r'"
      using add_abs_loop_step [OF False "1.prems"(1)] by blast
    note step = add_limb_step [OF "1.prems"(2), of "limb_or_0 a" "limb_or_0 b", folded s]
    from "1.IH" [OF False refl refl] s r' step(2)
    have IH: "lval r' + B32 ^ max (length (tl a)) (length (tl b)) * unat c' =
        lval (tl a) + lval (tl b) + unat (drop_bit 32 s)" "unat c' \<le> 1" by auto
    have "lval r + B32 ^ max (length a) (length b) * unat c' =
        unat (ucast s :: u32) +
        B32 * (lval r' + B32 ^ max (length (tl a)) (length (tl b)) * unat c')"
      by (simp add: r max_length_tl [OF False] algebra_simps)
    also have "\<dots> = unat s + B32 * lval (tl a) + B32 * lval (tl b)"
      unfolding IH(1) using u64_split [of s] by (simp only: distrib_left)
    also have "\<dots> = lval a + lval b + unat c"
      using lval_hd_tl [of a] lval_hd_tl [of b] step(1) by simp
    finally show ?thesis using IH(2) by simp
  qed
qed

lemma add_abs_limbs_value:
  assumes "bigint_add_abs_limbs a b = (buf, n)"
  shows "lval (take n buf) = lval a + lval b"
    and "length buf = max (length a) (length b) + 1" and "n \<le> length buf"
    and "max (length a) (length b) \<le> n"
proof -
  obtain r c where rc: "add_abs_loop a b 0 = (r, c)" by fastforce
  with assms have buf: "buf = r @ [ucast c]" and n: "n = max (length a) (length b) + (if c \<noteq> 0 then 1 else 0)"
    by (auto simp: bigint_add_abs_limbs_def Let_def max_def)
  have len: "length r = max (length a) (length b)" using rc by (rule add_abs_loop_length)
  from add_abs_loop_value [OF rc]
  have v: "lval r + B32 ^ max (length a) (length b) * unat c = lval a + lval b" "unat c \<le> 1" by auto
  have "unat (ucast c :: u32) = unat c" using v(2) by (simp add: unat_ops)
  then show "lval (take n buf) = lval a + lval b"
    using v(1) by (auto simp: buf n len lval_append unat_eq_zero)
  show "length buf = max (length a) (length b) + 1" "n \<le> length buf" "max (length a) (length b) \<le> n"
    by (auto simp: buf n len)
qed

text \<open>
  One subtraction step: the stored limb and the outgoing borrow account for the difference. The
  step is stated over the three cases of the source's conditional.
\<close>

lemma sub_limb_step:
  fixes x y :: u32 and bw :: u64
  assumes "unat bw \<le> 1"
  defines "sb \<equiv> ucast y + bw :: u64"
  shows "unat sb = unat y + unat bw"
    and "(ucast x :: u64) < sb \<Longrightarrow>
      unat (ucast (0x100000000 + ucast x - sb :: u64) :: u32) + unat y + unat bw = unat x + B32"
    and "\<not> (ucast x :: u64) < sb \<Longrightarrow>
      unat (ucast (ucast x - sb :: u64) :: u32) + unat y + unat bw = unat x"
proof -
  show sb: "unat sb = unat y + unat bw"
    unfolding sb_def using assms(1) unat_lt_B32 [of y]
    by (subst unat_add_fits) (simp_all del: unat_lt_B32)
  {
    assume lt: "(ucast x :: u64) < sb"
    then have lt': "unat x < unat y + unat bw" by (simp add: word_less_nat_alt sb)
    have f: "unat (0x100000000 + ucast x :: u64) = B32 + unat x"
      using unat_lt_B32 [of x] by (subst unat_add_fits) (simp_all del: unat_lt_B32)
    have "unat (0x100000000 + ucast x - sb :: u64) = B32 + unat x - (unat y + unat bw)"
      using unat_lt_B32 [of y] assms(1) by (subst unat_sub_fits) (simp_all add: f sb del: unat_lt_B32)
    then show "unat (ucast (0x100000000 + ucast x - sb :: u64) :: u32) + unat y + unat bw = unat x + B32"
      using lt' unat_lt_B32 [of y] assms(1) by (simp add: unat_u64_to_u32 del: unat_lt_B32)
  }
  {
    assume ge: "\<not> (ucast x :: u64) < sb"
    then have ge': "unat y + unat bw \<le> unat x" by (simp add: word_less_nat_alt sb)
    have "unat (ucast x - sb :: u64) = unat x - (unat y + unat bw)"
      using ge' by (subst unat_sub_fits) (simp_all add: sb)
    then show "unat (ucast (ucast x - sb :: u64) :: u32) + unat y + unat bw = unat x"
      using ge' unat_lt_B32 [of x] by (simp add: unat_u64_to_u32 del: unat_lt_B32)
  }
qed

lemma sub_abs_loop_value:
  assumes "length b \<le> length a" "unat bw \<le> 1"
  shows "\<exists>bo \<le> 1. lval (sub_abs_loop a b bw) + lval b + unat bw = lval a + B32 ^ length a * bo"
  using assms
proof (induction a arbitrary: b bw)
  case Nil
  then show ?case by (intro exI [of _ "unat bw"]) simp
next
  case (Cons x xs)
  let ?y = "limb_or_0 b"
  let ?lt = "(ucast x :: u64) < ucast ?y + bw"
  define bw' :: u64 where "bw' = (if ?lt then 1 else 0)"
  define l :: u32 where "l = (if ?lt then ucast (0x100000000 + ucast x - (ucast ?y + bw) :: u64)
    else ucast (ucast x - (ucast ?y + bw) :: u64))"
  have step: "sub_abs_loop (x # xs) b bw = l # sub_abs_loop xs (tl b) bw'"
    by (simp add: l_def bw'_def Let_def)
  have l: "unat l + unat ?y + unat bw = unat x + B32 * unat bw'"
    using sub_limb_step(2,3) [OF Cons.prems(2), of x ?y] by (auto simp: l_def bw'_def)
  have "length (tl b) \<le> length xs" "unat bw' \<le> 1"
    using Cons.prems(1) by (auto simp: bw'_def)
  then obtain bo where bo: "bo \<le> 1"
    "lval (sub_abs_loop xs (tl b) bw') + lval (tl b) + unat bw' = lval xs + B32 ^ length xs * bo"
    using Cons.IH by blast
  have "lval (sub_abs_loop (x # xs) b bw) + lval b + unat bw =
      (unat l + unat ?y + unat bw) + B32 * (lval (sub_abs_loop xs (tl b) bw') + lval (tl b))"
    using lval_hd_tl [of b] by (simp only: step lval.simps) (simp add: algebra_simps)
  also have "\<dots> = unat x + B32 * (lval (sub_abs_loop xs (tl b) bw') + lval (tl b) + unat bw')"
    unfolding l by (simp only: distrib_left)
  also have "\<dots> = lval (x # xs) + B32 ^ length (x # xs) * bo"
    unfolding bo(2) by (simp add: algebra_simps)
  finally show ?case using bo(1) by blast
qed

lemma sub_abs_loop_length [simp]: "length (sub_abs_loop a b bw) = length a"
  by (induction a arbitrary: b bw) (simp_all add: Let_def)

lemma sub_abs_limbs_value:
  assumes "bigint_sub_abs_limbs a b = (buf, n)" "length b \<le> length a" "lval b \<le> lval a"
  shows "lval (take n buf) = lval a - lval b" and "length buf = length a" and "n = length a"
proof -
  have buf: "buf = sub_abs_loop a b 0" and n: "n = length a"
    using assms(1) by (auto simp: bigint_sub_abs_limbs_def)
  obtain bo where bo: "bo \<le> 1" "lval buf + lval b = lval a + B32 ^ length a * bo"
    using sub_abs_loop_value [OF assms(2), of 0] by (auto simp: buf)
  have "lval buf < B32 ^ length a" using lval_bound [of buf] by (simp add: buf)
  with bo assms(3) have "bo = 0" by (cases bo) auto
  with bo show "lval (take n buf) = lval a - lval b" by (simp add: buf n)
  show "length buf = length a" "n = length a" by (simp_all add: buf n)
qed

lemma add_u32_loop_value:
  assumes "add_u32_loop xs c = (r, c')" "unat c < B32"
  shows "lval r + B32 ^ length xs * unat c' = lval xs + unat c \<and> length r = length xs \<and> unat c' < B32"
  using assms
proof (induction xs arbitrary: c r c')
  case (Cons x xs)
  show ?case
  proof (cases "c = 0")
    case True
    with Cons.prems show ?thesis by auto
  next
    case False
    define s :: u64 where "s = ucast x + c"
    obtain r' where r': "add_u32_loop xs (drop_bit 32 s) = (r', c')" "r = ucast s # r'"
      using Cons.prems False by (auto simp: s_def Let_def split: prod.splits)
    have s: "unat s = unat x + unat c"
      unfolding s_def using Cons.prems(2) unat_lt_B32 [of x]
      by (subst unat_add_fits) (simp_all del: unat_lt_B32)
    have "unat (drop_bit 32 s) < B32"
      using Cons.prems(2) unat_lt_B32 [of x] by (simp add: unat_shr s del: unat_lt_B32)
    with Cons.IH r' have IH: "lval r' + B32 ^ length xs * unat c' = lval xs + unat (drop_bit 32 s)"
      "length r' = length xs" "unat c' < B32" by auto
    have "lval r + B32 ^ length (x # xs) * unat c' =
        unat (ucast s :: u32) + B32 * (lval r' + B32 ^ length xs * unat c')"
      by (simp add: r'(2) algebra_simps)
    also have "\<dots> = lval (x # xs) + unat c"
      unfolding IH(1) using u64_split [of s] s by (simp only: distrib_left lval.simps)
    finally show ?thesis using IH r'(2) by simp
  qed
qed auto

lemma add_u32_inplace_value:
  assumes "lval xs + unat v < B32 ^ capacity" "length xs \<le> capacity"
  shows "lval (bigint_add_u32_inplace xs capacity v) = lval xs + unat v"
proof -
  obtain r c where rc: "add_u32_loop xs (ucast v) = (r, c)" by fastforce
  from add_u32_loop_value [OF rc]
  have v: "lval r + B32 ^ length xs * unat c = lval xs + unat v" "length r = length xs" "unat c < B32"
    by auto
  have uc: "unat (ucast c :: u32) = unat c" using v(3) by (simp add: unat_ops)
  show ?thesis
  proof (cases "c \<noteq> 0 \<and> \<not> length xs < capacity")
    case True
    then have "length xs = capacity" "1 \<le> unat c"
      using assms(2) by (auto simp: unat_gt_0 Suc_le_eq)
    then have "B32 ^ capacity \<le> B32 ^ length xs * unat c" by simp
    with v(1) assms(1) show ?thesis by linarith
  next
    case False
    with rc v uc show ?thesis
      by (auto simp: bigint_add_u32_inplace_def Let_def lval_append)
  qed
qed

section \<open>Correctness of multiplication\<close>

lemma lval_update:
  "k < length r \<Longrightarrow> lval (r[k := x]) + B32 ^ k * unat (r ! k) = lval r + B32 ^ k * unat x"
proof (induction r arbitrary: k)
  case (Cons y ys)
  show ?case
  proof (cases k)
    case (Suc k')
    with Cons have "lval (ys[k' := x]) + B32 ^ k' * unat (ys ! k') = lval ys + B32 ^ k' * unat x"
      by simp
    then have "B32 * (lval (ys[k' := x]) + B32 ^ k' * unat (ys ! k')) =
        B32 * (lval ys + B32 ^ k' * unat x)" by simp
    then show ?thesis by (simp add: Suc algebra_simps)
  qed simp
qed simp

text \<open>
  One step of the inner loop: the split products and carries add up without leaving 64 bits, and
  the new carry is again a single limb.
\<close>

lemma mul_limb_step:
  fixes x y z :: u32 and c :: u64
  assumes c: "unat c < B32"
  defines "pr \<equiv> ucast x * ucast y :: u64"
  defines "lo \<equiv> ucast z + (pr AND 0xffffffff) + (c AND 0xffffffff) :: u64"
  defines "c' \<equiv> drop_bit 32 pr + drop_bit 32 c + drop_bit 32 lo :: u64"
  shows "unat (ucast lo :: u32) + B32 * unat c' = unat z + unat x * unat y + unat c"
    and "unat c' < B32"
proof -
  have xy: "unat x * unat y \<le> 4294967295 * 4294967295"
    by (intro mult_le_mono unat_le_B32)
  then have p: "unat pr = unat x * unat y"
    unfolding pr_def by (subst unat_mult_fits) (simp_all add: le_less_trans)
  let ?pl = "unat pr mod B32" and ?ph = "unat pr div B32"
  have lo: "unat lo = unat z + ?pl + unat c"
  proof -
    have 1: "unat (ucast z + (pr AND 0xffffffff) :: u64) = unat z + ?pl"
      using unat_lt_B32 [of z] mod_less_divisor [of B32 "unat pr"]
      by (subst unat_add_fits) (simp_all add: unat_and_mask32 del: unat_lt_B32 mod_less_divisor)
    show ?thesis unfolding lo_def
      using unat_lt_B32 [of z] mod_less_divisor [of B32 "unat pr"] c
      by (subst unat_add_fits) (simp_all add: 1 unat_and_mask32 del: unat_lt_B32 mod_less_divisor)
  qed
  have ph: "?ph \<le> 4294967294"
    using div_le_mono [OF xy, of B32] by (simp add: p)
  have "unat lo < 3 * B32"
    using unat_lt_B32 [of z] mod_less_divisor [of B32 "unat pr"] c
    by (simp add: lo del: unat_lt_B32 mod_less_divisor)
  then have lh: "unat lo div B32 < 3" by (simp add: less_mult_imp_div_less)
  have c': "unat c' = ?ph + unat lo div B32"
  proof -
    have 0: "drop_bit 32 c = 0" using c by (simp add: word_unat_eq_iff unat_shr)
    show ?thesis unfolding c'_def 0 using ph lh
      by (simp, subst unat_add_fits) (simp_all add: unat_shr)
  qed
  show eq: "unat (ucast lo :: u32) + B32 * unat c' = unat z + unat x * unat y + unat c"
  proof -
    have "unat (ucast lo :: u32) + B32 * unat c' = unat lo mod B32 + B32 * (unat lo div B32) + B32 * ?ph"
      by (simp add: c' unat_u64_to_u32 distrib_left)
    also have "\<dots> = unat z + (?pl + B32 * ?ph) + unat c" by (simp add: lo)
    finally show ?thesis by (simp add: p)
  qed
  show "unat c' < B32"
  proof (rule ccontr)
    assume "\<not> unat c' < B32"
    then have "B32 * B32 \<le> B32 * unat c'" by simp
    also have "\<dots> \<le> unat z + unat x * unat y + unat c" using eq by linarith
    also have "\<dots> < B32 * B32" using xy c unat_lt_B32 [of z] by (simp del: unat_lt_B32)
    finally show False by simp
  qed
qed

lemma mul_inner_loop_value:
  assumes "k + length bs \<le> length r" "unat c < B32"
  shows "\<exists>r' c'. mul_inner_loop x bs k r c = Some (r', c') \<and> length r' = length r \<and> unat c' < B32 \<and>
    lval r' + B32 ^ (k + length bs) * unat c' = lval r + B32 ^ k * (unat x * lval bs + unat c)"
  using assms
proof (induction bs arbitrary: k r c)
  case Nil
  then show ?case by simp
next
  case (Cons y ys)
  define pr :: u64 where "pr = ucast x * ucast y"
  define lo :: u64 where "lo = ucast (r ! k) + (pr AND 0xffffffff) + (c AND 0xffffffff)"
  define c1 where "c1 = drop_bit 32 pr + drop_bit 32 c + drop_bit 32 lo"
  let ?r = "r[k := ucast lo]"
  note step = mul_limb_step [OF Cons.prems(2), where x = x and y = y and z = "r ! k", folded pr_def, folded lo_def, folded c1_def]
  have k: "k < length r" using Cons.prems(1) by simp
  have unfold: "mul_inner_loop x (y # ys) k r c = mul_inner_loop x ys (Suc k) ?r c1"
    using k by (simp add: Let_def pr_def lo_def c1_def)
  have "Suc k + length ys \<le> length ?r" using Cons.prems(1) by simp
  from Cons.IH [OF this step(2)] obtain r' c' where IH:
    "mul_inner_loop x ys (Suc k) ?r c1 = Some (r', c')" "length r' = length ?r" "unat c' < B32"
    "lval r' + B32 ^ (Suc k + length ys) * unat c' =
       lval ?r + B32 ^ Suc k * (unat x * lval ys + unat c1)"
    by blast
  have "lval r' + B32 ^ (k + length (y # ys)) * unat c' + B32 ^ k * unat (r ! k) =
      (lval ?r + B32 ^ k * unat (r ! k)) + B32 ^ Suc k * (unat x * lval ys + unat c1)"
    using IH(4) by simp
  also have "\<dots> = lval r + B32 ^ k * (unat (ucast lo :: u32) + B32 * unat c1 + B32 * (unat x * lval ys))"
    by (simp only: lval_update [OF k]) (simp add: algebra_simps)
  also have "\<dots> = lval r + B32 ^ k * (unat x * lval (y # ys) + unat c) + B32 ^ k * unat (r ! k)"
    by (simp only: step(1)) (simp add: algebra_simps)
  finally show ?case using IH(1-3) unfold by simp
qed

lemma mul_carry_loop_value:
  assumes "unat c < B32" "lval r + B32 ^ k * unat c < B32 ^ length r"
  shows "\<exists>r'. mul_carry_loop k r c = Some r' \<and> length r' = length r \<and> lval r' = lval r + B32 ^ k * unat c"
  using assms
proof (induction k r c rule: mul_carry_loop.induct)
  case (1 k r c)
  show ?case
  proof (cases "c = 0")
    case True
    then show ?thesis by (simp add: mul_carry_loop.simps)
  next
    case False
    then have "1 \<le> unat c" by (simp add: Suc_le_eq unat_gt_0)
    then have "B32 ^ k \<le> B32 ^ k * unat c" by simp
    then have "B32 ^ k < B32 ^ length r" using "1.prems"(2) by linarith
    then have k: "k < length r" by (rule power_less_imp_less_exp [rotated]) simp
    define cur :: u64 where "cur = ucast (r ! k) + (c AND 0xffffffff)"
    have cur: "unat cur = unat (r ! k) + unat c"
      unfolding cur_def using "1.prems"(1) unat_lt_B32 [of "r ! k"]
      by (subst unat_add_fits) (simp_all add: unat_and_mask32 del: unat_lt_B32)
    have "drop_bit 32 c = 0" using "1.prems"(1) by (simp add: word_unat_eq_iff unat_shr)
    then have unfold: "mul_carry_loop k r c = mul_carry_loop (Suc k) (r[k := ucast cur]) (drop_bit 32 cur)"
      using False k by (simp add: mul_carry_loop.simps [of k r c] cur_def Let_def)
    have v: "lval (r[k := ucast cur]) + B32 ^ Suc k * unat (drop_bit 32 cur) = lval r + B32 ^ k * unat c"
    proof -
      have "lval (r[k := ucast cur]) + B32 ^ k * unat (r ! k) + B32 ^ Suc k * unat (drop_bit 32 cur) =
          lval r + B32 ^ k * (unat (ucast cur :: u32) + B32 * unat (drop_bit 32 cur))"
        by (simp only: lval_update [OF k]) (simp add: algebra_simps)
      also have "\<dots> = lval r + B32 ^ k * unat c + B32 ^ k * unat (r ! k)"
        by (simp only: u64_split cur) (simp add: algebra_simps)
      finally show ?thesis by simp
    qed
    have c1: "unat (drop_bit 32 cur) < B32"
      using "1.prems"(1) unat_lt_B32 [of "r ! k"] by (simp add: unat_shr cur del: unat_lt_B32)
    have "\<exists>r'. mul_carry_loop (Suc k) (r[k := ucast cur]) (drop_bit 32 cur) = Some r' \<and>
        length r' = length (r[k := ucast cur]) \<and>
        lval r' = lval (r[k := ucast cur]) + B32 ^ Suc k * unat (drop_bit 32 cur)"
      using "1.IH" [OF False k cur_def] c1 v "1.prems"(2) \<open>drop_bit 32 c = 0\<close> by simp
    with v unfold show ?thesis by simp
  qed
qed

lemma mul_outer_loop_value:
  assumes "i + length as + length b \<le> length r" "lval r + B32 ^ i * (lval as * lval b) < B32 ^ length r"
  shows "\<exists>r'. mul_outer_loop as b i r = Some r' \<and> length r' = length r \<and>
    lval r' = lval r + B32 ^ i * (lval as * lval b)"
  using assms
proof (induction as arbitrary: i r)
  case Nil
  then show ?case by simp
next
  case (Cons x xs)
  have "i + length b \<le> length r" using Cons.prems(1) by simp
  from mul_inner_loop_value [OF this, of 0 x] obtain r1 c1 where inner:
    "mul_inner_loop x b i r 0 = Some (r1, c1)" "length r1 = length r" "unat c1 < B32"
    "lval r1 + B32 ^ (i + length b) * unat c1 = lval r + B32 ^ i * (unat x * lval b)" by auto
  have split: "B32 ^ i * (lval (x # xs) * lval b) =
      B32 ^ i * (unat x * lval b) + B32 ^ Suc i * (lval xs * lval b)"
    by (simp add: algebra_simps)
  have "lval r1 + B32 ^ (i + length b) * unat c1 < B32 ^ length r1"
    using Cons.prems(2) unfolding inner(2,4) split by linarith
  from mul_carry_loop_value [OF inner(3) this] obtain r2 where carry:
    "mul_carry_loop (i + length b) r1 c1 = Some r2" "length r2 = length r"
    "lval r2 = lval r + B32 ^ i * (unat x * lval b)" using inner(2,4) by auto
  have "Suc i + length xs + length b \<le> length r2" using Cons.prems(1) carry(2) by simp
  moreover have "lval r2 + B32 ^ Suc i * (lval xs * lval b) < B32 ^ length r2"
    using Cons.prems(2) unfolding carry(2,3) split by linarith
  ultimately obtain r' where "mul_outer_loop xs b (Suc i) r2 = Some r'" "length r' = length r2"
    "lval r' = lval r2 + B32 ^ Suc i * (lval xs * lval b)" using Cons.IH by blast
  then show ?case using inner(1) carry split by simp
qed

lemma mul_abs_limbs_value:
  obtains buf n where "bigint_mul_abs_limbs a b = Some (buf, n)" "lval (take n buf) = lval a * lval b"
    "length buf \<le> length a + length b + 1" "n \<le> length buf" "0 < n"
proof (cases "length a = 1 \<and> length b = 1")
  case True
  then obtain x y where ab: "a = [x]" "b = [y]" by (auto simp: length_Suc_conv)
  define pr :: u64 where "pr = ucast x * ucast y"
  have pr: "unat pr = unat x * unat y"
  proof -
    have "unat x * unat y \<le> 4294967295 * 4294967295" by (intro mult_le_mono unat_le_B32)
    then show ?thesis unfolding pr_def by (subst unat_mult_fits) (simp_all add: le_less_trans)
  qed
  let ?lo = "ucast pr :: u32" and ?hi = "ucast (drop_bit 32 pr) :: u32"
  have hi: "unat ?hi = unat (drop_bit 32 pr)"
    using unat_lt_B64 [of pr] by (simp add: unat_ops less_mult_imp_div_less del: unat_lt_B64)
  have "unat ?lo + B32 * unat ?hi = unat x * unat y"
    using u64_split [of pr] by (simp only: hi pr)
  then show ?thesis
    by (intro that [of "[?lo, ?hi]" "if ?hi = 0 then 1 else 2"])
       (auto simp: bigint_mul_abs_limbs_def ab Let_def pr_def [symmetric] unat_eq_zero)
next
  case False
  let ?r = "replicate (length a + length b + 1) (0 :: u32)"
  have "lval a * lval b < B32 ^ length a * B32 ^ length b"
    using lval_bound [of a] lval_bound [of b] by (intro mult_strict_mono) auto
  also have "\<dots> \<le> B32 ^ length ?r" by (simp add: power_add)
  finally have "lval ?r + B32 ^ 0 * (lval a * lval b) < B32 ^ length ?r" by simp
  from mul_outer_loop_value [OF _ this] obtain r' where
    "mul_outer_loop a b 0 ?r = Some r'" "length r' = length ?r" "lval r' = lval a * lval b"
    by auto
  with False show ?thesis
    by (intro that [of r' "length a + length b + 1"])
       (auto simp: bigint_mul_abs_limbs_def Let_def simp del: replicate.simps)
qed

end
