(* ===== verification/Bigint_Bits.thy ===== *)
theory Bigint_Bits
  imports Bigint_Limbs
begin

text \<open>
  Shifts, division by one limb, bit lengths and two's-complement views of magnitudes, from
  \<open>src/src/modules/bigint.c\<close>.
\<close>

unbundle bit_operations_syntax

section \<open>Bit length\<close>

text \<open>
  \<open>__builtin_clz\<close>: the number of zero bits above the highest set bit. The sources call it on a
  non-zero limb only.
\<close>

definition clz32_nonzero :: "u32 \<Rightarrow> nat" where
  "clz32_nonzero v = length (takeWhile (\<lambda>i. \<not> bit v (31 - i)) [0..<32])"

definition bigint_abs_bitlen_limbs :: "limbs \<Rightarrow> nat" where
  "bigint_abs_bitlen_limbs limbs =
     (let limbs = bigint_normalize_limbs limbs
      in if limbs_is_zero limbs then 0
         else (length limbs - 1) * 32 + (32 - clz32_nonzero (last limbs)))"

section \<open>Shifts\<close>

fun shl_loop :: "nat \<Rightarrow> limbs \<Rightarrow> u32 \<Rightarrow> limbs \<times> u32" where
  "shl_loop bit_shift [] carry = ([], carry)"
| "shl_loop bit_shift (x # xs) carry =
     (let cur = push_bit bit_shift (ucast x) OR ucast carry :: u64;
          (r, c) = shl_loop bit_shift xs (ucast (drop_bit 32 cur))
      in (ucast cur # r, c))"

definition bigint_shift_left_abs :: "limbs \<Rightarrow> u64 \<Rightarrow> limbs \<times> nat" where
  "bigint_shift_left_abs limbs shift =
     (let limb_shift = unat (drop_bit 5 shift);
          bit_shift = unat (shift AND 31)
      in if bit_shift = 0 then
           let out = replicate limb_shift 0 @ limbs @ [0];
               out_count = length limbs + limb_shift
           in (out, length (bigint_normalize_limbs (take out_count out)))
         else
           let (r, carry) = shl_loop bit_shift limbs 0;
               out = replicate limb_shift 0 @ r @ [carry]
           in (out, length (bigint_normalize_limbs out)))"

text \<open>The right shift runs from the most significant limb down.\<close>

fun shr_rev_loop :: "nat \<Rightarrow> limbs \<Rightarrow> u32 \<Rightarrow> limbs" where
  "shr_rev_loop bit_shift [] carry = []"
| "shr_rev_loop bit_shift (cur # xs) carry =
     (drop_bit bit_shift cur OR push_bit (32 - bit_shift) carry) #
       shr_rev_loop bit_shift xs (cur AND (push_bit bit_shift 1 - 1))"

definition bigint_shift_right_abs :: "limbs \<Rightarrow> u64 \<Rightarrow> (limbs \<times> nat) \<times> bool" where
  "bigint_shift_right_abs limbs shift =
     (let limb_shift = unat (drop_bit 5 shift);
          bit_shift = unat (shift AND 31)
      in if limb_shift \<ge> length limbs then (([0], 1), list_ex (\<lambda>x. x \<noteq> 0) limbs)
         else
           let lost = list_ex (\<lambda>x. x \<noteq> 0) (take limb_shift limbs);
               out = (if bit_shift = 0 then drop limb_shift limbs
                      else rev (shr_rev_loop bit_shift (rev (drop limb_shift limbs)) 0));
               lost = (lost \<or> bit_shift \<noteq> 0 \<and>
                 limbs ! limb_shift AND (push_bit bit_shift 1 - 1) \<noteq> 0)
           in ((out, length (bigint_normalize_limbs out)), lost))"

section \<open>Division by one limb\<close>

fun div_small_rev :: "u32 \<Rightarrow> limbs \<Rightarrow> u64 \<Rightarrow> limbs \<times> u64" where
  "div_small_rev divisor [] rem = ([], rem)"
| "div_small_rev divisor (x # xs) rem =
     (let cur = push_bit 32 rem OR ucast x :: u64;
          (q, r) = div_small_rev divisor xs (cur mod ucast divisor)
      in (ucast (cur div ucast divisor) # q, r))"

definition bigint_div_small_inplace :: "limbs \<Rightarrow> u32 \<Rightarrow> limbs \<times> u32" where
  "bigint_div_small_inplace limbs divisor =
     (let (q, rem) = div_small_rev divisor (rev limbs) 0 in (rev q, ucast rem))"

section \<open>Two's complement\<close>

definition bigint_twos_complement_limb :: "limbs \<Rightarrow> bool \<Rightarrow> nat \<Rightarrow> u64 \<Rightarrow> u32 \<times> u64" where
  "bigint_twos_complement_limb limbs negative index carry =
     (let limb = (if index < length limbs then limbs ! index else 0)
      in if \<not> negative then (limb, carry)
         else let cur = ucast (NOT limb) + carry in (ucast cur, drop_bit 32 cur))"

fun negate_loop :: "limbs \<Rightarrow> u64 \<Rightarrow> limbs" where
  "negate_loop [] carry = []"
| "negate_loop (x # xs) carry =
     (let cur = ucast (NOT x) + carry in ucast cur # negate_loop xs (drop_bit 32 cur))"

definition bigint_twos_complement_to_magnitude :: "limbs \<Rightarrow> limbs \<times> nat \<times> bool" where
  "bigint_twos_complement_to_magnitude limbs =
     (let negative = (last limbs AND 0x80000000 \<noteq> 0);
          limbs = (if negative then negate_loop limbs 1 else limbs);
          width = length (bigint_normalize_limbs limbs);
          negative = (if width = 1 \<and> limbs ! 0 = 0 then False else negative)
      in (limbs, width, negative))"

datatype bigint_bitop = BIGINT_BAND | BIGINT_BOR | BIGINT_BXOR

fun bitop_limb :: "bigint_bitop \<Rightarrow> u32 \<Rightarrow> u32 \<Rightarrow> u32" where
  "bitop_limb BIGINT_BAND a b = a AND b"
| "bitop_limb BIGINT_BOR a b = a OR b"
| "bitop_limb BIGINT_BXOR a b = a XOR b"

text \<open>\<open>k\<close> counts the limbs still to fill, from index \<open>i\<close> on.\<close>

fun bitwise_loop :: "bigint_bitop \<Rightarrow> limbs \<Rightarrow> bool \<Rightarrow> limbs \<Rightarrow> bool \<Rightarrow> nat \<Rightarrow> nat \<Rightarrow> u64 \<Rightarrow> u64 \<Rightarrow> limbs" where
  "bitwise_loop op ad aneg bd bneg i 0 acarry bcarry = []"
| "bitwise_loop op ad aneg bd bneg i (Suc k) acarry bcarry =
     (let (at, acarry) = bigint_twos_complement_limb ad aneg i acarry;
          (bt, bcarry) = bigint_twos_complement_limb bd bneg i bcarry
      in bitop_limb op at bt # bitwise_loop op ad aneg bd bneg (Suc i) k acarry bcarry)"

fun bitnot_loop :: "limbs \<Rightarrow> bool \<Rightarrow> nat \<Rightarrow> nat \<Rightarrow> u64 \<Rightarrow> limbs" where
  "bitnot_loop limbs neg i 0 carry = []"
| "bitnot_loop limbs neg i (Suc k) carry =
     (let (t, carry) = bigint_twos_complement_limb limbs neg i carry
      in NOT t # bitnot_loop limbs neg (Suc i) k carry)"

section \<open>Bits of a magnitude, for the conversion to a double\<close>

definition bigint_extract_u64 :: "limbs \<Rightarrow> nat \<Rightarrow> u64" where
  "bigint_extract_u64 limbs bit_offset =
     (let word = bit_offset div 32;
          shift = bit_offset mod 32;
          value = drop_bit shift (ucast (limbs ! word)) :: u64;
          value = (if word + 1 < length limbs
                   then value OR push_bit (32 - shift) (ucast (limbs ! (word + 1))) else value)
      in if shift \<noteq> 0 \<and> word + 2 < length limbs
         then value OR push_bit (64 - shift) (ucast (limbs ! (word + 2))) else value)"

definition bigint_test_bit :: "limbs \<Rightarrow> nat \<Rightarrow> bool" where
  "bigint_test_bit limbs b =
     (let word = b div 32
      in if word \<ge> length limbs then False
         else drop_bit (b mod 32) (limbs ! word) AND 1 \<noteq> 0)"

definition bigint_any_bits_below :: "limbs \<Rightarrow> nat \<Rightarrow> bool" where
  "bigint_any_bits_below limbs bit_count =
     (let full_words = bit_count div 32
      in if list_ex (\<lambda>x. x \<noteq> 0) (take full_words limbs) then True
         else let remaining = bit_count mod 32
              in if remaining = 0 \<or> full_words \<ge> length limbs then False
                 else limbs ! full_words AND (push_bit remaining 1 - 1) \<noteq> 0)"

definition bigint_should_round_up :: "limbs \<Rightarrow> nat \<Rightarrow> u64 \<Rightarrow> bool" where
  "bigint_should_round_up limbs discarded_bits significand =
     (let halfway_bit = discarded_bits - 1
      in if \<not> bigint_test_bit limbs halfway_bit then False
         else let above_halfway = bigint_any_bits_below limbs halfway_bit;
                  odd_significand = (significand AND 1 \<noteq> 0)
              in above_halfway \<or> odd_significand)"

section \<open>Correctness of the bit length\<close>

lemma bit_nat_le: "bit (n :: nat) k \<Longrightarrow> 2 ^ k \<le> n"
  by (rule ccontr) (simp add: bit_iff_odd)

lemma length_takeWhile_lt: "\<exists>x\<in>set xs. \<not> P x \<Longrightarrow> length (takeWhile P xs) < length xs"
  by (induction xs) auto

lemma takeWhile_upt_nth:
  assumes "n = length (takeWhile P [0..<m])" "n < m"
  shows "\<not> P n" and "\<forall>i<n. P i"
proof -
  show "\<not> P n" using nth_length_takeWhile [of P "[0..<m]"] assms by simp
  show "\<forall>i<n. P i"
  proof (intro allI impI)
    fix i assume i: "i < n"
    then have "takeWhile P [0..<m] ! i = i" using assms by (simp add: takeWhile_nth)
    with i assms(1) nth_mem [of i "takeWhile P [0..<m]"] have "i \<in> set (takeWhile P [0..<m])" by simp
    then show "P i" by (rule set_takeWhileD [THEN conjunct2])
  qed
qed

lemma clz32_bounds:
  assumes "v \<noteq> 0"
  shows "clz32_nonzero v < 32" "2 ^ (31 - clz32_nonzero v) \<le> unat v" "unat v < 2 ^ (32 - clz32_nonzero v)"
proof -
  define n where "n = clz32_nonzero v"
  obtain j where j: "bit v j" using assms by (auto simp: bit_eq_iff)
  then have j32: "j < 32" using bit_imp_le_length [OF j] by simp
  show n32: "clz32_nonzero v < 32"
  proof (rule ccontr)
    assume "\<not> clz32_nonzero v < 32"
    then have "\<forall>i \<in> set [0..<32]. \<not> bit v (31 - i)"
      using length_takeWhile_lt [of "[0..<32]" "\<lambda>i. \<not> bit v (31 - i)"] unfolding clz32_nonzero_def by auto
    moreover have "31 - j \<in> set [0..<32]" by simp
    ultimately have "\<not> bit v (31 - (31 - j))" by blast
    moreover have "31 - (31 - j) = j" using j32 by simp
    ultimately show False using j by simp
  qed
  have d: "n = length (takeWhile (\<lambda>i. \<not> bit v (31 - i)) [0..<32])" by (simp add: n_def clz32_nonzero_def)
  from takeWhile_upt_nth [OF d] n32 have b: "bit v (31 - n)" "\<forall>i<n. \<not> bit v (31 - i)"
    by (auto simp: n_def)
  from b(1) have "2 ^ (31 - n) \<le> unat v"
    using bit_nat_le [of "unat v" "31 - n"] by (simp add: bit_unsigned_iff)
  then show "2 ^ (31 - clz32_nonzero v) \<le> unat v" by (simp add: n_def)
  have "take_bit (32 - n) v = v"
  proof (rule bit_word_eqI)
    fix k assume k: "k < LENGTH(32)"
    show "bit (take_bit (32 - n) v) k = bit v k"
    proof (cases "k < 32 - n")
      case False
      then have "31 - k < n" "k = 31 - (31 - k)" using k by auto
      then have "\<not> bit v k" using b(2) by auto
      with False show ?thesis by (simp add: bit_take_bit_iff)
    qed (simp add: bit_take_bit_iff)
  qed
  then have "unat v = take_bit (32 - n) (unat v)" using unsigned_take_bit_eq [of "32 - n" v] by simp
  then show "unat v < 2 ^ (32 - clz32_nonzero v)"
    using take_bit_nat_less_exp [of "32 - n" "unat v"] by (simp add: n_def)
qed

lemma bitlen_bounds:
  assumes "limbs \<noteq> []" "lval limbs \<noteq> 0"
  shows "2 ^ (bigint_abs_bitlen_limbs limbs - 1) \<le> lval limbs"
    and "lval limbs < 2 ^ bigint_abs_bitlen_limbs limbs" and "0 < bigint_abs_bitlen_limbs limbs"
proof -
  let ?l = "bigint_normalize_limbs limbs"
  have n: "normalized ?l" using assms(1) by (rule normalized_normalize)
  have nz: "\<not> limbs_is_zero ?l" using normalized_zero_iff [OF n] assms(2) by simp
  obtain ys y where l: "?l = ys @ [y]" using n by (metis normalized_def rev_exhaust)
  have y: "y \<noteq> 0" using n nz by (cases ys) (auto simp: l normalized_def limbs_is_zero_def)
  define k where "k = clz32_nonzero y"
  have bl: "bigint_abs_bitlen_limbs limbs = length ys * 32 + (32 - k)"
    using nz by (simp add: bigint_abs_bitlen_limbs_def l k_def)
  note kb = clz32_bounds [OF y, folded k_def]
  have P: "B32 ^ length ys = 2 ^ (32 * length ys)" by (simp add: power_mult)
  have v: "lval limbs = lval ys + 2 ^ (32 * length ys) * unat y"
    using lval_normalize [of limbs] by (simp add: l lval_append P)
  show "0 < bigint_abs_bitlen_limbs limbs" using kb(1) by (simp add: bl)
  have "2 ^ (bigint_abs_bitlen_limbs limbs - 1) = 2 ^ (32 * length ys) * (2::nat) ^ (31 - k)"
    using kb(1) by (simp add: bl power_add [symmetric] mult.commute)
  also have "\<dots> \<le> 2 ^ (32 * length ys) * unat y" using kb(2) by (intro mult_le_mono2)
  finally show "2 ^ (bigint_abs_bitlen_limbs limbs - 1) \<le> lval limbs" by (simp add: v)
  have "lval limbs < 2 ^ (32 * length ys) + 2 ^ (32 * length ys) * unat y"
    using lval_bound [of ys] by (simp add: v P)
  also have "\<dots> = 2 ^ (32 * length ys) * (unat y + 1)" by simp
  also have "\<dots> \<le> 2 ^ (32 * length ys) * 2 ^ (32 - k)" using kb(3) by (intro mult_le_mono2) simp
  also have "\<dots> = 2 ^ bigint_abs_bitlen_limbs limbs" by (simp add: bl power_add mult.commute)
  finally show "lval limbs < 2 ^ bigint_abs_bitlen_limbs limbs" .
qed

lemma bitlen_zero: "limbs \<noteq> [] \<Longrightarrow> bigint_abs_bitlen_limbs limbs = 0 \<longleftrightarrow> lval limbs = 0"
  using bitlen_bounds(3) [of limbs] normalized_zero_iff [OF normalized_normalize, of limbs]
  by (cases "lval limbs = 0") (auto simp: bigint_abs_bitlen_limbs_def)

section \<open>Correctness of the shifts\<close>

lemma unat_and_31: "unat (shift AND 31 :: u64) = unat shift mod 32"
  using unat_low [of 5 shift] by (simp add: take_bit_eq_mask mask_eq_exp_minus_1)

lemma unat_shr_5: "unat (drop_bit 5 shift :: u64) = unat shift div 32"
  using unat_shr [of 5 shift] by simp

lemma shift_split: "2 ^ unat (shift :: u64) = (B32 :: nat) ^ (unat shift div 32) * 2 ^ (unat shift mod 32)"
proof -
  have "(2 :: nat) ^ (32 * (unat shift div 32) + unat shift mod 32) = B32 ^ (unat shift div 32) * 2 ^ (unat shift mod 32)"
    by (simp only: power_add power_mult) simp
  then show ?thesis by simp
qed

lemma shl_limb_step:
  fixes x carry :: u32
  assumes "bs < 32" "unat carry < 2 ^ bs"
  defines "cur \<equiv> push_bit bs (ucast x) OR ucast carry :: u64"
  shows "unat (ucast cur :: u32) + B32 * unat (ucast (drop_bit 32 cur) :: u32) = unat x * 2 ^ bs + unat carry"
    and "unat (ucast (drop_bit 32 cur) :: u32) < 2 ^ bs"
proof -
  have "unat x * 2 ^ bs < 2 ^ 32 * 2 ^ bs" using unat_lt_B32 [of x] by simp
  also have "\<dots> = (2 :: nat) ^ (32 + bs)" by (simp add: power_add)
  also have "\<dots> \<le> 2 ^ 64" using assms(1) by (intro power_increasing) auto
  finally have fit: "unat (ucast x :: u64) * 2 ^ bs < 2 ^ LENGTH(64)" by simp
  have c: "unat cur = unat x * 2 ^ bs + unat carry"
    unfolding cur_def using unat_shl_or [OF fit, of "ucast carry"] assms(2) by simp
  have "unat cur < 2 ^ 32 * 2 ^ bs"
  proof -
    have "unat x * 2 ^ bs + unat carry < (unat x + 1) * 2 ^ bs" using assms(2) by simp
    also have "\<dots> \<le> 2 ^ 32 * 2 ^ bs" using unat_le_B32 [of x] by (intro mult_le_mono1) simp
    finally show ?thesis by (simp add: c)
  qed
  then have hi: "unat cur div B32 < 2 ^ bs" by (simp add: less_mult_imp_div_less mult.commute)
  have "(2 :: nat) ^ bs < 2 ^ 32" using assms(1) by (intro power_strict_increasing) auto
  with hi have hi32: "unat cur div B32 < B32" by simp
  have h: "unat (ucast (drop_bit 32 cur) :: u32) = unat cur div B32"
    using hi32 by (simp add: unat_ops)
  have l: "unat (ucast cur :: u32) = unat cur mod B32" by (simp add: unat_ops)
  show "unat (ucast cur :: u32) + B32 * unat (ucast (drop_bit 32 cur) :: u32) = unat x * 2 ^ bs + unat carry"
    unfolding h l c [symmetric] by simp
  show "unat (ucast (drop_bit 32 cur) :: u32) < 2 ^ bs" unfolding h by (rule hi)
qed

lemma shl_loop_value:
  assumes "bs < 32" "unat carry < 2 ^ bs" "shl_loop bs limbs carry = (r, c)"
  shows "lval r + B32 ^ length limbs * unat c = lval limbs * 2 ^ bs + unat carry"
    and "length r = length limbs" and "unat c < 2 ^ bs"
proof -
  have "lval r + B32 ^ length limbs * unat c = lval limbs * 2 ^ bs + unat carry
      \<and> length r = length limbs \<and> unat c < 2 ^ bs"
    using assms
  proof (induction limbs arbitrary: carry r c)
    case (Cons x xs)
    define cur where "cur = (push_bit bs (ucast x) OR ucast carry :: u64)"
    obtain r' where rec: "shl_loop bs xs (ucast (drop_bit 32 cur)) = (r', c)" and r: "r = ucast cur # r'"
      using Cons.prems(3) by (auto simp: Let_def cur_def split: prod.splits)
    note st = shl_limb_step [OF Cons.prems(1,2), of x, folded cur_def]
    note IH = Cons.IH [OF Cons.prems(1) st(2) rec]
    have "lval r + B32 ^ length (x # xs) * unat c
        = unat (ucast cur :: u32) + B32 * (lval r' + B32 ^ length xs * unat c)"
      by (simp add: r algebra_simps)
    also have "\<dots> = unat (ucast cur :: u32) + B32 * unat (ucast (drop_bit 32 cur) :: u32) + B32 * (lval xs * 2 ^ bs)"
      using IH by (simp only: distrib_left distrib_right ac_simps)
    also have "\<dots> = lval (x # xs) * 2 ^ bs + unat carry" unfolding st(1) by (simp add: algebra_simps)
    finally show ?case using IH by (simp add: r)
  qed auto
  then show "lval r + B32 ^ length limbs * unat c = lval limbs * 2 ^ bs + unat carry"
    and "length r = length limbs" and "unat c < 2 ^ bs" by auto
qed

lemma take_normalize: "take (length (bigint_normalize_limbs xs)) (xs @ ys) = bigint_normalize_limbs xs"
proof (induction xs arbitrary: ys rule: bigint_normalize_limbs.induct)
  case (1 xs)
  show ?case
  proof (cases "length xs > 1 \<and> last xs = 0")
    case True
    then have "xs = butlast xs @ [last xs]" by (cases xs rule: rev_cases) auto
    then have "xs @ ys = butlast xs @ (last xs # ys)" by (metis append.assoc append_Cons append_Nil)
    then have "take (length (bigint_normalize_limbs (butlast xs))) (xs @ ys) = bigint_normalize_limbs (butlast xs)"
      using 1 [OF True, of "last xs # ys"] by (simp only:)
    then show ?thesis by (subst (1 2) bigint_normalize_limbs.simps) (simp add: True)
  qed (subst (1 2) bigint_normalize_limbs.simps, auto)
qed

lemma lval_replicate_append: "lval (replicate n 0 @ xs) = B32 ^ n * lval xs"
  by (simp add: lval_append lval_replicate_0)

lemma shift_left_abs_value:
  assumes "limbs \<noteq> []" "bigint_shift_left_abs limbs shift = (out, n)"
  shows "lval (take n out) = lval limbs * 2 ^ unat shift" and "n \<le> length out"
    and "length out = length limbs + unat shift div 32 + 1" and "normalized (take n out)"
proof -
  define ls where "ls = unat shift div 32"
  define bs where "bs = unat shift mod 32"
  define body where "body = (if bs = 0 then limbs else let (r, c) = shl_loop bs limbs 0 in r @ [c])"
  have bs: "bs < 32" by (simp add: bs_def)
  have ne: "replicate ls 0 @ body \<noteq> []" using assms(1) by (simp add: body_def split: prod.splits)
  have lb: "lval body = lval limbs * 2 ^ bs"
    using shl_loop_value(1,2) [OF bs, of 0 limbs] by (auto simp: body_def lval_append split: prod.splits)
  have len: "length body = length limbs + (if bs = 0 then 0 else 1)"
    using shl_loop_value(2) [OF bs, of 0 limbs] by (auto simp: body_def split: prod.splits)
  have o: "out = replicate ls 0 @ body @ (if bs = 0 then [0] else [])"
    "n = length (bigint_normalize_limbs (replicate ls 0 @ body))"
    using assms(2) unfolding bigint_shift_left_abs_def Let_def unat_and_31 unat_shr_5
      bs_def [symmetric] ls_def [symmetric] body_def
    by (auto split: prod.splits if_splits)
  have t: "take n out = bigint_normalize_limbs (replicate ls 0 @ body)"
    unfolding o using take_normalize [of "replicate ls 0 @ body"] by simp
  show "lval (take n out) = lval limbs * 2 ^ unat shift"
    unfolding t by (simp add: lval_replicate_append lb shift_split ls_def bs_def)
  show "normalized (take n out)" unfolding t using ne by (rule normalized_normalize)
  show "n \<le> length out" unfolding o using length_normalize_le [of "replicate ls 0 @ body"] by simp
  show "length out = length limbs + unat shift div 32 + 1" by (simp add: o(1) len ls_def)
qed

section \<open>Correctness of the division by one limb\<close>

lemma div_small_step:
  fixes rem :: u64 and x divisor :: u32
  assumes "unat rem < unat divisor"
  defines "cur \<equiv> push_bit 32 rem OR ucast x :: u64"
  shows "unat cur = unat rem * B32 + unat x"
    and "unat (ucast (cur div ucast divisor) :: u32) = (unat rem * B32 + unat x) div unat divisor"
    and "unat (cur mod ucast divisor) = (unat rem * B32 + unat x) mod unat divisor"
proof -
  have "unat rem < B32" using assms(1) unat_lt_B32 [of divisor] by linarith
  then have "unat rem * 2 ^ 32 < 2 ^ LENGTH(64)" by simp
  then show c: "unat cur = unat rem * B32 + unat x"
    unfolding cur_def using unat_shl_or [of rem 32 "ucast x"] unat_lt_B32 [of x] by simp
  have "unat rem * B32 + unat x < (unat rem + 1) * B32" using unat_lt_B32 [of x] by simp
  also have "\<dots> \<le> unat divisor * B32" using assms(1) by (intro mult_le_mono1) simp
  finally have "(unat rem * B32 + unat x) div unat divisor < B32"
    by (simp add: less_mult_imp_div_less mult.commute)
  then show "unat (ucast (cur div ucast divisor) :: u32) = (unat rem * B32 + unat x) div unat divisor"
    by (simp add: unat_ops unat_div c)
  show "unat (cur mod ucast divisor) = (unat rem * B32 + unat x) mod unat divisor"
    by (simp add: unat_mod c)
qed

lemma lval_rev_Cons: "lval (rev (x # xs)) = lval (rev xs) + B32 ^ length xs * unat x"
  by (simp add: lval_append)

lemma div_small_rev_value:
  assumes "unat rem < unat divisor" "div_small_rev divisor xs rem = (q, r)"
  shows "lval (rev q) * unat divisor + unat r = unat rem * B32 ^ length xs + lval (rev xs)"
    and "unat r < unat divisor" and "length q = length xs"
proof -
  have "lval (rev q) * unat divisor + unat r = unat rem * B32 ^ length xs + lval (rev xs)
      \<and> unat r < unat divisor \<and> length q = length xs"
    using assms
  proof (induction xs arbitrary: rem q r)
    case (Cons x xs)
    define cur where "cur = (push_bit 32 rem OR ucast x :: u64)"
    obtain q' where rec: "div_small_rev divisor xs (cur mod ucast divisor) = (q', r)"
      and q: "q = ucast (cur div ucast divisor) # q'"
      using Cons.prems(2) by (auto simp: Let_def cur_def split: prod.splits)
    note st = div_small_step [OF Cons.prems(1), of x, folded cur_def]
    have lt: "unat (cur mod ucast divisor) < unat divisor" unfolding st(3) using Cons.prems(1) by simp
    note IH = Cons.IH [OF lt rec]
    define N where "N = unat rem * B32 + unat x"
    define d where "d = unat divisor"
    have "lval (rev q) * d + unat r = lval (rev q') * d + unat r + B32 ^ length xs * (N div d * d)"
      using IH unfolding q lval_rev_Cons st(2) N_def d_def by (simp add: algebra_simps)
    also have "\<dots> = (N mod d) * B32 ^ length xs + lval (rev xs) + B32 ^ length xs * (N div d * d)"
      using IH unfolding st(3) N_def d_def by simp
    also have "\<dots> = lval (rev xs) + B32 ^ length xs * (N div d * d + N mod d)"
      by (simp only: distrib_left distrib_right ac_simps)
    also have "\<dots> = unat rem * B32 ^ length (x # xs) + lval (rev (x # xs))"
      unfolding div_mult_mod_eq lval_rev_Cons N_def by (simp add: algebra_simps)
    finally show ?case using IH by (simp add: q d_def)
  qed auto
  then show "lval (rev q) * unat divisor + unat r = unat rem * B32 ^ length xs + lval (rev xs)"
    and "unat r < unat divisor" and "length q = length xs" by auto
qed

lemma div_small_value:
  assumes "0 < unat divisor" "bigint_div_small_inplace limbs divisor = (q, r)"
  shows "lval q = lval limbs div unat divisor" and "unat r = lval limbs mod unat divisor"
    and "length q = length limbs"
proof -
  obtain q' rem where d: "div_small_rev divisor (rev limbs) 0 = (q', rem)" by force
  then have q: "q = rev q'" "r = ucast rem"
    using assms(2) by (auto simp: bigint_div_small_inplace_def)
  note v = div_small_rev_value [OF _ d]
  have e: "lval q * unat divisor + unat rem = lval limbs" "unat rem < unat divisor"
    using v assms(1) by (simp_all add: q)
  have "unat rem < B32" using e(2) unat_lt_B32 [of divisor] by linarith
  then have "unat r = unat rem" by (simp add: q unat_ops)
  with e show "unat r = lval limbs mod unat divisor" "lval q = lval limbs div unat divisor"
    by (metis mod_mult_self3 mod_less, metis div_mult_self3 div_less assms(1) add_0_right less_numeral_extra(3))
  show "length q = length limbs" using v assms(1) by (simp add: q)
qed

section \<open>Correctness of the right shift\<close>

lemma mask_word: "push_bit n 1 - 1 = (mask n :: 'a::len word)"
  by (simp add: mask_eq_exp_minus_1 push_bit_eq_mult)

lemma unat_and_low: "unat ((x :: u32) AND (push_bit n 1 - 1)) = unat x mod 2 ^ n"
  using unat_low [of n x] unfolding mask_word take_bit_eq_mask .

lemma shr_limb_step:
  fixes x carry :: u32
  assumes "0 < bs" "bs < 32" "unat carry < 2 ^ bs"
  shows "unat (drop_bit bs x OR push_bit (32 - bs) carry) = unat x div 2 ^ bs + unat carry * 2 ^ (32 - bs)"
proof -
  have "unat carry * 2 ^ (32 - bs) < 2 ^ bs * 2 ^ (32 - bs)" using assms(3) by simp
  also have "\<dots> = 2 ^ LENGTH(32)" using assms(2) by (simp add: power_add [symmetric])
  finally have f: "unat carry * 2 ^ (32 - bs) < 2 ^ LENGTH(32)" .
  have "unat x < 2 ^ bs * 2 ^ (32 - bs)" using unat_lt_B32 [of x] assms(2) by (simp add: power_add [symmetric])
  then have "unat (drop_bit bs x) < 2 ^ (32 - bs)" by (simp add: unat_shr less_mult_imp_div_less mult.commute)
  from unat_shl_or [OF f this] show ?thesis by (simp add: or.commute unat_shr)
qed

lemma shr_rev_loop_value:
  assumes "0 < bs" "bs < 32" "unat carry < 2 ^ bs"
  shows "lval (rev (shr_rev_loop bs xs carry)) = (unat carry * B32 ^ length xs + lval (rev xs)) div 2 ^ bs"
    and "length (shr_rev_loop bs xs carry) = length xs"
proof -
  show "lval (rev (shr_rev_loop bs xs carry)) = (unat carry * B32 ^ length xs + lval (rev xs)) div 2 ^ bs"
    using assms(3)
  proof (induction xs arbitrary: carry)
    case (Cons x xs)
    define c' where "c' = x AND (push_bit bs 1 - 1)"
    have c': "unat c' = unat x mod 2 ^ bs" unfolding c'_def by (rule unat_and_low)
    then have lt: "unat c' < 2 ^ bs" by simp
    define h where "h = unat x div 2 ^ bs + unat carry * 2 ^ (32 - bs)"
    have "B32 = 2 ^ bs * 2 ^ (32 - bs)" using assms(2) by (simp add: power_add [symmetric])
    then have e: "unat carry * B32 + unat x = 2 ^ bs * h + unat c'"
      unfolding h_def c' by (simp add: distrib_left)
    have len: "length (shr_rev_loop bs xs c') = length xs" for c' by (induction xs arbitrary: c') auto
    have "unat carry * B32 ^ length (x # xs) + lval (rev (x # xs)) = (unat carry * B32 + unat x) * B32 ^ length xs + lval (rev xs)"
      unfolding lval_rev_Cons by (simp add: algebra_simps)
    also have "\<dots> = 2 ^ bs * (h * B32 ^ length xs) + (unat c' * B32 ^ length xs + lval (rev xs))"
      unfolding e by (simp add: algebra_simps)
    finally have "(unat carry * B32 ^ length (x # xs) + lval (rev (x # xs))) div 2 ^ bs
        = h * B32 ^ length xs + (unat c' * B32 ^ length xs + lval (rev xs)) div 2 ^ bs"
      by simp
    then show ?case
      using Cons.IH [OF lt] shr_limb_step [OF assms(1,2) Cons.prems, of x]
      by (simp add: lval_append len c'_def h_def)
  qed simp
  show "length (shr_rev_loop bs xs carry) = length xs" by (induction xs arbitrary: carry) auto
qed

lemma lval_zero_list_ex: "list_ex (\<lambda>x. x \<noteq> 0) xs \<longleftrightarrow> lval xs \<noteq> 0"
  by (induction xs) (auto simp: unat_eq_zero)

lemma lval_take_drop: "n \<le> length xs \<Longrightarrow> lval xs = lval (take n xs) + B32 ^ n * lval (drop n xs)"
  using lval_append [of "take n xs" "drop n xs"] by simp

lemma shift_right_div_mod:
  fixes shift :: u64
  assumes "unat shift div 32 \<le> length limbs"
  defines "ls \<equiv> unat shift div 32" and "bs \<equiv> unat shift mod 32"
  shows "lval limbs div 2 ^ unat shift = lval (drop ls limbs) div 2 ^ bs"
    and "lval limbs mod 2 ^ unat shift = B32 ^ ls * (lval (drop ls limbs) mod 2 ^ bs) + lval (take ls limbs)"
proof -
  have e: "lval limbs = lval (take ls limbs) + B32 ^ ls * lval (drop ls limbs)"
    using assms(1) unfolding ls_def by (rule lval_take_drop)
  have lt: "lval (take ls limbs) < B32 ^ ls" using lval_bound [of "take ls limbs"] assms(1) by (simp add: ls_def)
  have d: "lval limbs div B32 ^ ls = lval (drop ls limbs)" "lval limbs mod B32 ^ ls = lval (take ls limbs)"
    unfolding e using lt by simp_all
  show "lval limbs div 2 ^ unat shift = lval (drop ls limbs) div 2 ^ bs"
    unfolding shift_split ls_def [symmetric] bs_def [symmetric] div_mult2_eq d ..
  show "lval limbs mod 2 ^ unat shift = B32 ^ ls * (lval (drop ls limbs) mod 2 ^ bs) + lval (take ls limbs)"
    unfolding shift_split ls_def [symmetric] bs_def [symmetric] mod_mult2_eq d ..
qed

lemma shift_right_abs_value:
  assumes "limbs \<noteq> []" "bigint_shift_right_abs limbs shift = ((out, n), lost)"
  shows "lval (take n out) = lval limbs div 2 ^ unat shift" and "n \<le> length out"
    and "lost \<longleftrightarrow> lval limbs mod 2 ^ unat shift \<noteq> 0" and "normalized (take n out)"
    and "length out = (if unat shift div 32 \<ge> length limbs then 1 else length limbs - unat shift div 32)"
proof -
  define ls where "ls = unat shift div 32"
  define bs where "bs = unat shift mod 32"
  have bs: "bs < 32" by (simp add: bs_def)
  note D = assms(2) [unfolded bigint_shift_right_abs_def Let_def unat_and_31 unat_shr_5, folded ls_def bs_def]
  have "lval (take n out) = lval limbs div 2 ^ unat shift \<and> n \<le> length out \<and>
      (lost \<longleftrightarrow> lval limbs mod 2 ^ unat shift \<noteq> 0) \<and> normalized (take n out) \<and>
      length out = (if ls \<ge> length limbs then 1 else length limbs - ls)"
  proof (cases "ls \<ge> length limbs")
    case True
    have "lval limbs < B32 ^ length limbs" by (rule lval_bound)
    also have "\<dots> \<le> B32 ^ ls" using True by (intro power_increasing) auto
    also have "\<dots> \<le> 2 ^ unat shift" by (simp add: shift_split ls_def)
    finally have "lval limbs < 2 ^ unat shift" .
    with D True show ?thesis by (auto simp: normalized_def lval_zero_list_ex)
  next
    case False
    then have le: "unat shift div 32 \<le> length limbs" and lt: "ls < length limbs" by (simp_all add: ls_def)
    define o' where "o' = (if bs = 0 then drop ls limbs else rev (shr_rev_loop bs (rev (drop ls limbs)) 0))"
    have o: "out = o'" "n = length (bigint_normalize_limbs o')" using D False by (auto simp: o'_def)
    have len: "length o' = length limbs - ls" using bs shr_rev_loop_value(2) [of bs 0] by (auto simp: o'_def)
    have v: "lval o' = lval (drop ls limbs) div 2 ^ bs"
      using bs shr_rev_loop_value(1) [of bs 0 "rev (drop ls limbs)"] by (auto simp: o'_def)
    note dm = shift_right_div_mod [OF le, folded ls_def bs_def]
    have t: "take n out = bigint_normalize_limbs o'" unfolding o using take_normalize [of o' "[]"] by simp
    have "drop ls limbs = limbs ! ls # drop (Suc ls) limbs" using lt by (simp add: Cons_nth_drop_Suc)
    moreover have "B32 = 2 ^ bs * 2 ^ (32 - bs)" using bs by (simp add: power_add [symmetric])
    ultimately have "lval (drop ls limbs) = unat (limbs ! ls) + 2 ^ bs * (2 ^ (32 - bs) * lval (drop (Suc ls) limbs))"
      by (simp only: lval.simps ac_simps)
    then have low: "lval (drop ls limbs) mod 2 ^ bs = unat (limbs ! ls) mod 2 ^ bs" by simp
    have "unat (limbs ! ls AND (push_bit bs 1 - 1)) = 0 \<longleftrightarrow> limbs ! ls AND (push_bit bs 1 - 1) = 0"
      by (rule unat_eq_zero)
    then have "lost \<longleftrightarrow> lval limbs mod 2 ^ unat shift \<noteq> 0"
      using D False unfolding dm low unat_and_low by (auto simp: lval_zero_list_ex)
    moreover have "o' \<noteq> []" using len lt by auto
    ultimately show ?thesis
      using len lt dm(1) v normalized_normalize [of o'] length_normalize_le [of o'] t
      by (auto simp: o(2) simp flip: o(1))
  qed
  then show "lval (take n out) = lval limbs div 2 ^ unat shift" "n \<le> length out"
    "lost \<longleftrightarrow> lval limbs mod 2 ^ unat shift \<noteq> 0" "normalized (take n out)"
    "length out = (if unat shift div 32 \<ge> length limbs then 1 else length limbs - unat shift div 32)"
    unfolding ls_def by blast+
qed

section \<open>Correctness of two's complement\<close>

text \<open>
  The limbs a width-\<open>k\<close> loop reads through \<open>bigint_twos_complement_limb\<close>, with the carry it
  ends with. Both bitwise loops are pointwise operations on these limbs.
\<close>

fun twos_limbs :: "limbs \<Rightarrow> bool \<Rightarrow> nat \<Rightarrow> nat \<Rightarrow> u64 \<Rightarrow> limbs" where
  "twos_limbs limbs neg i 0 carry = []"
| "twos_limbs limbs neg i (Suc k) carry =
     (let (t, carry) = bigint_twos_complement_limb limbs neg i carry
      in t # twos_limbs limbs neg (Suc i) k carry)"

lemma length_twos_limbs [simp]: "length (twos_limbs limbs neg i k carry) = k"
  by (induction k arbitrary: i carry) (auto simp: split: prod.splits)

lemma bitwise_loop_twos:
  "bitwise_loop op ad aneg bd bneg i k ac bc =
     map2 (bitop_limb op) (twos_limbs ad aneg i k ac) (twos_limbs bd bneg i k bc)"
  by (induction k arbitrary: i ac bc) (auto split: prod.splits)

lemma bitnot_loop_twos: "bitnot_loop limbs neg i k c = map NOT (twos_limbs limbs neg i k c)"
  by (induction k arbitrary: i c) (auto split: prod.splits)

lemma negate_limb_step:
  fixes x :: u32 and carry :: u64
  assumes "unat carry \<le> 1"
  defines "cur \<equiv> ucast (NOT x) + carry :: u64"
  shows "unat (ucast cur :: u32) + B32 * unat (drop_bit 32 cur) + unat x = B32 - 1 + unat carry"
    and "unat (drop_bit 32 cur) \<le> 1"
proof -
  have n: "unat (NOT x) + unat x = B32 - 1" using unat_not [of x] unat_le_B32 [of x] by simp
  have f: "unat (ucast (NOT x) :: u64) + unat carry < 2 ^ 64"
    using assms(1) n by simp
  have c: "unat cur = unat (NOT x) + unat carry"
    unfolding cur_def using unat_add_fits [of "ucast (NOT x)" carry] f by simp
  have "unat cur \<le> B32" using c n assms(1) by simp
  then show "unat (drop_bit 32 cur) \<le> 1" by (simp add: unat_ops)
  have "unat (ucast cur :: u32) + B32 * unat (drop_bit 32 cur) = unat cur" by (simp add: unat_ops)
  then show "unat (ucast cur :: u32) + B32 * unat (drop_bit 32 cur) + unat x = B32 - 1 + unat carry"
    using c n by simp
qed

lemma negate_loop_value:
  assumes "unat carry \<le> 1"
  shows "\<exists>c \<le> 1. lval (negate_loop xs carry) + B32 ^ length xs * c + lval xs + 1 = B32 ^ length xs + unat carry"
  using assms
proof (induction xs arbitrary: carry)
  case Nil
  then show ?case by (intro exI [of _ "unat carry"]) simp
next
  case (Cons x xs)
  define cur where "cur = (ucast (NOT x) + carry :: u64)"
  note st = negate_limb_step [OF Cons.prems, of x, folded cur_def]
  obtain c where c: "c \<le> 1"
    "lval (negate_loop xs (drop_bit 32 cur)) + B32 ^ length xs * c + lval xs + 1 = B32 ^ length xs + unat (drop_bit 32 cur)"
    using Cons.IH [OF st(2)] by blast
  define L where "L = lval (negate_loop xs (drop_bit 32 cur))"
  define P where "P = B32 ^ length xs"
  have "B32 * (L + P * c + lval xs + 1) = B32 * (P + unat (drop_bit 32 cur))"
    using c(2) unfolding L_def P_def by (simp only:)
  then have "B32 * L + B32 * (P * c) + B32 * lval xs + B32 = B32 * P + B32 * unat (drop_bit 32 cur)"
    by (simp only: distrib_left mult_1_right)
  then have "unat (ucast cur :: u32) + B32 * L + B32 * (P * c) + (unat x + B32 * lval xs) + 1 = B32 * P + unat carry"
    using st(1) by linarith
  then show ?case using c(1) unfolding L_def P_def
    by (intro exI [of _ c]) (simp add: cur_def Let_def mult.assoc)
qed

lemma length_negate_loop [simp]: "length (negate_loop xs c) = length xs"
  by (induction xs arbitrary: c) (simp_all add: Let_def)

lemma twos_limbs_negate:
  "twos_limbs limbs True i k c = negate_loop (twos_limbs limbs False i k c') c"
  by (induction k arbitrary: i c) (auto simp: bigint_twos_complement_limb_def Let_def)

lemma twos_limbs_plain: "twos_limbs limbs False i k c = take k (drop i limbs @ replicate k 0)"
proof (induction k arbitrary: i)
  case (Suc k)
  show ?case
  proof (cases "i < length limbs")
    case True
    then have "drop i limbs = limbs ! i # drop (Suc i) limbs" by (simp add: Cons_nth_drop_Suc)
    moreover have "replicate (Suc k) 0 = replicate k (0 :: u32) @ [0]" by (simp add: replicate_append_same)
    then have "take k (drop (Suc i) limbs @ replicate (Suc k) 0) = take k (drop (Suc i) limbs @ replicate k 0)"
      by (simp only: append_assoc [symmetric]) simp
    ultimately show ?thesis using True Suc by (simp add: bigint_twos_complement_limb_def)
  next
    case False
    then show ?thesis using Suc [of "Suc i"] by (simp add: bigint_twos_complement_limb_def)
  qed
qed simp

lemma lval_twos_plain:
  assumes "lval limbs < B32 ^ k"
  shows "lval (twos_limbs limbs False 0 k c) = lval limbs"
proof -
  have len: "length (take k (limbs @ replicate k 0)) = k" by simp
  have "lval (limbs @ replicate k 0) = lval (take k (limbs @ replicate k 0)) + B32 ^ k * lval (drop k (limbs @ replicate k 0))"
    by (rule lval_take_drop) simp
  moreover have "lval (take k (limbs @ replicate k 0)) < B32 ^ k"
    using lval_bound [of "take k (limbs @ replicate k 0)"] len by (simp only:)
  moreover have "lval (limbs @ replicate k 0) = lval limbs" by (simp add: lval_append lval_replicate_0)
  ultimately have "lval (take k (limbs @ replicate k 0)) = lval limbs mod B32 ^ k"
    by (metis add.commute mod_mult_self2 mod_less)
  then show ?thesis using assms by (simp add: twos_limbs_plain)
qed

lemma pow_B32: "int (B32 ^ k) = 2 ^ (32 * k)" "B32 ^ k = 2 ^ (32 * k)"
  by (simp_all add: power_mult)

lemma twos_limbs_value:
  assumes "lval limbs < B32 ^ k"
  shows "int (lval (twos_limbs limbs neg 0 k 1)) =
    take_bit (32 * k) (if neg then - int (lval limbs) else int (lval limbs))"
proof -
  have p: "lval (twos_limbs limbs False 0 k 1) = lval limbs" using assms by (rule lval_twos_plain)
  show ?thesis
  proof (cases neg)
    case True
    let ?n = "negate_loop (twos_limbs limbs False 0 k 1) 1"
    obtain c where c: "lval ?n + B32 ^ k * c + lval limbs + 1 = B32 ^ k + 1"
      using negate_loop_value [of 1 "twos_limbs limbs False 0 k 1"] p by auto
    then have "int (lval ?n + B32 ^ k * c + lval limbs) = int (B32 ^ k)" by simp
    then have "int (lval ?n) = - int (lval limbs) + 2 ^ (32 * k) * (1 - int c)"
      by (simp add: pow_B32 algebra_simps)
    moreover have "int (lval ?n) = int (lval ?n) mod 2 ^ (32 * k)"
      using lval_bound [of ?n] by (simp add: pow_B32(2) flip: of_nat_power)
    ultimately have "int (lval ?n) = - int (lval limbs) mod 2 ^ (32 * k)" by (metis mod_mult_self2)
    then show ?thesis using True twos_limbs_negate [of limbs 0 k 1 1] by (simp add: take_bit_eq_mod)
  next
    case False
    then show ?thesis using p assms by (simp add: take_bit_eq_mod pow_B32(2) flip: of_nat_power)
  qed
qed

lemma bit_lval: "bit (lval xs) i \<longleftrightarrow> i < 32 * length xs \<and> bit (xs ! (i div 32)) (i mod 32)"
proof (induction xs arbitrary: i)
  case (Cons x xs)
  have "lval (x # xs) = push_bit 32 (lval xs) OR unat x"
    using push_bit_or_nat [of "unat x" 32 "lval xs"] by (simp add: mult.commute add.commute)
  then have b: "bit (lval (x # xs)) i \<longleftrightarrow> 32 \<le> i \<and> bit (lval xs) (i - 32) \<or> bit x i"
    by (simp only:) (simp add: bit_or_iff bit_push_bit_iff bit_unsigned_iff)
  show ?case
  proof (cases "i < 32")
    case False
    then have "\<not> bit x i" using bit_imp_le_length [of x i] by auto
    moreover have "i div 32 = Suc ((i - 32) div 32)" "i mod 32 = (i - 32) mod 32"
      using False by (simp_all add: le_div_geq le_mod_geq)
    ultimately show ?thesis using b False Cons.IH [of "i - 32"] by auto
  qed (use b in auto)
qed simp

fun bitop_int :: "bigint_bitop \<Rightarrow> int \<Rightarrow> int \<Rightarrow> int" where
  "bitop_int BIGINT_BAND a b = a AND b"
| "bitop_int BIGINT_BOR a b = a OR b"
| "bitop_int BIGINT_BXOR a b = a XOR b"

lemma lval_map2_bitop:
  assumes "length xs = length ys"
  shows "int (lval (map2 (bitop_limb op) xs ys)) = bitop_int op (int (lval xs)) (int (lval ys))"
proof -
  have d: "i < 32 * length ys \<Longrightarrow> i div 32 < length ys" for i :: nat by (simp add: less_mult_imp_div_less mult.commute)
  show ?thesis
    by (cases op; rule bit_eqI)
      (auto simp: bit_lval bit_and_iff bit_or_iff bit_xor_iff bit_of_nat_iff assms d)
qed

lemma lval_map_not: "int (lval (map NOT xs)) = take_bit (32 * length xs) (NOT (int (lval xs)))"
proof (rule bit_eqI)
  fix i
  have "i < 32 * length xs \<Longrightarrow> i div 32 < length xs" by (simp add: less_mult_imp_div_less mult.commute)
  then show "bit (int (lval (map NOT xs))) i = bit (take_bit (32 * length xs) (NOT (int (lval xs)))) i"
    by (auto simp: bit_lval bit_not_iff bit_take_bit_iff bit_of_nat_iff bit_not_iff_eq)
qed

lemma to_magnitude_value:
  assumes "limbs \<noteq> []" "bigint_twos_complement_to_magnitude limbs = (out, n, neg)"
  defines "s \<equiv> signed_take_bit (32 * length limbs - 1) (int (lval limbs))"
  shows "int (lval (take n out)) = \<bar>s\<bar>" and "neg \<longleftrightarrow> s < 0" and "length out = length limbs"
    and "normalized (take n out)" and "n \<le> length out"
proof -
  define w where "w = length limbs"
  have w: "0 < w" "Suc (32 * w - 1) = 32 * w" using assms(1) by (simp_all add: w_def)
  have idx: "(32 * w - 1) div 32 = w - 1" "(32 * w - 1) mod 32 = 31" using w by (cases w; simp)+
  define ng where "ng \<longleftrightarrow> bit (last limbs) 31"
  have ng': "(last limbs AND 0x80000000 \<noteq> 0) \<longleftrightarrow> ng"
    using and_exp_eq_0_iff_not_bit [of "last limbs" 31] by (simp add: ng_def)
  have bng: "bit (int (lval limbs)) (32 * w - 1) \<longleftrightarrow> ng"
    using w idx assms(1) by (simp add: bit_lval bit_of_nat_iff last_conv_nth ng_def flip: w_def)
  have b: "int (lval limbs) < 2 ^ (32 * w)"
    using lval_bound [of limbs] by (simp add: w_def pow_B32(2) flip: of_nat_power)
  have "take_bit (32 * w) (int (lval limbs)) = int (lval limbs)" using b by (simp add: take_bit_int_eq_self_iff)
  then have s: "s = int (lval limbs) - (if ng then 2 ^ (32 * w) else 0)"
    using signed_take_bit_eq_take_bit_minus [of "32 * w - 1" "int (lval limbs)"] bng
    by (simp only: s_def w_def [symmetric] w) auto
  define m where "m = (if ng then negate_loop limbs 1 else limbs)"
  have m0: "length m = w" by (simp add: m_def w_def)
  then have m: "m \<noteq> []" using w(1) by auto
  have o: "out = m" "n = length (bigint_normalize_limbs m)"
    and neg: "neg \<longleftrightarrow> ng \<and> \<not> (n = 1 \<and> m ! 0 = 0)"
    using assms(2) unfolding bigint_twos_complement_to_magnitude_def Let_def ng' m_def by (auto split: if_splits)
  have t: "take n out = bigint_normalize_limbs m" using take_normalize [of m "[]"] by (simp add: o)
  have abs: "int (lval m) = \<bar>s\<bar> \<and> (s < 0 \<longleftrightarrow> ng) \<and> (ng \<longrightarrow> lval m \<noteq> 0)"
  proof (cases ng)
    case True
    obtain c where c: "c \<le> 1" "lval m + B32 ^ w * c + lval limbs + 1 = B32 ^ w + 1"
      using negate_loop_value [of 1 limbs] True by (auto simp: m_def w_def)
    have "lval limbs \<noteq> 0" using True bng by (intro notI) simp
    then have "c = 0" using c by (cases c) auto
    then have "lval m + lval limbs = B32 ^ w" using c by simp
    then have "int (lval m) + int (lval limbs) = 2 ^ (32 * w)" using pow_B32(1) [of w] of_nat_add [of "lval m" "lval limbs", where ?'a = int] by (simp only:)
    moreover from this have "0 < int (lval m)" using b by linarith
    moreover have "s = - int (lval m)" using True s calculation(1) by simp
    ultimately show ?thesis using True by simp
  qed (simp add: s m_def)
  show "int (lval (take n out)) = \<bar>s\<bar>" unfolding t using abs by simp
  show "normalized (take n out)" unfolding t using m by (rule normalized_normalize)
  show "length out = length limbs" "n \<le> length out" using m0 length_normalize_le [of m] by (simp_all add: w_def o)
  have "n = 1 \<and> m ! 0 = 0 \<longleftrightarrow> limbs_is_zero (take n out)"
    using m length_normalize_le [of m] by (auto simp: limbs_is_zero_def o)
  also have "\<dots> \<longleftrightarrow> lval m = 0" unfolding t using normalized_zero_iff [OF normalized_normalize [OF m]] by simp
  finally show "neg \<longleftrightarrow> s < 0" using neg abs by blast
qed

text \<open>A width of \<open>w\<close> limbs that leaves room for the sign loses nothing.\<close>

lemma signed_width_id:
  fixes x :: int
  assumes "\<bar>x\<bar> < 2 ^ (32 * w - 1)" "0 < w"
  shows "signed_take_bit (32 * w - 1) (take_bit (32 * w) x) = x"
proof -
  have "signed_take_bit (32 * w - 1) (take_bit (32 * w) x) = signed_take_bit (32 * w - 1) x"
    using assms(2) by (auto simp: signed_take_bit_take_bit)
  also have "\<dots> = x" using assms(1) by (intro signed_take_bit_int_eq_self) auto
  finally show ?thesis .
qed

lemma bitop_take_bit:
  "bitop_int op (take_bit n a) (take_bit n b) = take_bit n (bitop_int op a b)"
  by (cases op) (simp_all add: take_bit_and take_bit_or take_bit_xor)

lemma bitop_signed_range:
  assumes "- (2 ^ n) \<le> a" "a < 2 ^ n" "- (2 ^ n) \<le> b" "b < 2 ^ n"
  shows "signed_take_bit n (bitop_int op a b) = bitop_int op a b"
proof -
  have a: "signed_take_bit n a = a" "signed_take_bit n b = b"
    using assms by (auto intro: signed_take_bit_int_eq_self)
  have "signed_take_bit n (bitop_int op a b) = bitop_int op (signed_take_bit n a) (signed_take_bit n b)"
    by (cases op; rule bit_eqI) (auto simp: bit_signed_take_bit_iff bit_and_iff bit_or_iff bit_xor_iff)
  then show ?thesis by (simp add: a)
qed

section \<open>Bits below a position and rounding\<close>

lemma test_bit_value: "bigint_test_bit limbs b \<longleftrightarrow> bit (lval limbs) b"
proof -
  have a: "drop_bit k w AND 1 \<noteq> 0 \<longleftrightarrow> bit w k" for k and w :: u32
    by (simp add: and_one_eq bit_iff_odd_drop_bit odd_iff_mod_2_eq_one)
  have "b div 32 \<ge> length limbs \<longleftrightarrow> \<not> b < 32 * length limbs"
    by (cases "b div 32 < length limbs") (auto simp: div_less_iff_less_mult mult.commute)
  then show ?thesis unfolding bigint_test_bit_def Let_def bit_lval a by auto
qed

lemma any_bits_below_value:
  "bigint_any_bits_below limbs k \<longleftrightarrow> lval limbs mod 2 ^ k \<noteq> 0"
proof -
  define f where "f = k div 32"
  define r where "r = k mod 32"
  have k: "(2 :: nat) ^ k = B32 ^ f * 2 ^ r"
  proof -
    have "(2 :: nat) ^ (32 * (k div 32) + k mod 32) = B32 ^ f * 2 ^ r"
      unfolding f_def r_def by (simp only: power_add power_mult) simp
    then show ?thesis by simp
  qed
  show ?thesis
  proof (cases "f < length limbs")
    case True
    have e: "lval limbs = lval (take f limbs) + B32 ^ f * lval (drop f limbs)"
      using True by (intro lval_take_drop) simp
    have lt: "lval (take f limbs) < B32 ^ f" using lval_bound [of "take f limbs"] True by simp
    have "drop f limbs = limbs ! f # drop (Suc f) limbs" using True by (simp add: Cons_nth_drop_Suc)
    moreover have "B32 = 2 ^ r * 2 ^ (32 - r)" by (simp add: r_def power_add [symmetric])
    ultimately have "lval (drop f limbs) = unat (limbs ! f) + 2 ^ r * (2 ^ (32 - r) * lval (drop (Suc f) limbs))"
      by (simp only: lval.simps ac_simps)
    then have low: "lval (drop f limbs) mod 2 ^ r = unat (limbs ! f) mod 2 ^ r" by simp
    have m: "lval limbs mod 2 ^ k = B32 ^ f * (unat (limbs ! f) mod 2 ^ r) + lval (take f limbs)"
      unfolding k mod_mult2_eq low [symmetric] using lt by (simp add: e)
    have "limbs ! f AND (push_bit r 1 - 1) = 0 \<longleftrightarrow> unat (limbs ! f) mod 2 ^ r = 0"
      unfolding unat_and_low [symmetric] unat_eq_zero ..
    then show ?thesis
      unfolding bigint_any_bits_below_def Let_def f_def [symmetric] r_def [symmetric] m
      using True by (auto simp: lval_zero_list_ex)
  next
    case False
    have "lval limbs < B32 ^ length limbs" by (rule lval_bound)
    also have "\<dots> \<le> B32 ^ f" using False by (intro power_increasing) auto
    also have "\<dots> \<le> 2 ^ k" by (simp add: k)
    finally show ?thesis using False
      by (simp add: bigint_any_bits_below_def Let_def f_def lval_zero_list_ex)
  qed
qed

lemma extract_u64_bit:
  assumes "off div 32 < length limbs" "i < 64"
  shows "bit (bigint_extract_u64 limbs off) i \<longleftrightarrow> bit (lval limbs) (i + off)"
proof -
  define w where "w = off div 32"
  define s where "s = off mod 32"
  have off: "off = 32 * w + s" and s: "s < 32" and w: "w < length limbs"
    using assms(1) by (simp_all add: w_def s_def)
  have hi: "\<not> bit (x :: u32) k" if "32 \<le> k" for x k
    using bit_imp_le_length [of x k] that by auto
  have e: "(i + off) div 32 = w + (i + s) div 32" "(i + off) mod 32 = (i + s) mod 32"
  proof -
    have o: "i + off = i + s + 32 * w" using off by simp
    show "(i + off) div 32 = w + (i + s) div 32" unfolding o by (subst div_mult_self2) auto
    show "(i + off) mod 32 = (i + s) mod 32" unfolding o by (rule mod_mult_self2)
  qed
  have e': "i + off < 32 * length limbs \<longleftrightarrow> w + (i + s) div 32 < length limbs"
    unfolding e(1) [symmetric] using div_less_iff_less_mult [of 32 "i + off" "length limbs"]
    by (simp only: mult.commute)
  have ub: "bit (ucast x :: u64) k \<longleftrightarrow> bit x k" for x :: u32 and k
    using bit_imp_le_length [of x k] by (auto simp: bit_ucast_iff)
  have b: "bit (bigint_extract_u64 limbs off) i \<longleftrightarrow> bit (limbs ! w) (s + i)
      \<or> w + 1 < length limbs \<and> 32 - s \<le> i \<and> bit (limbs ! (w + 1)) (i - (32 - s))
      \<or> s \<noteq> 0 \<and> w + 2 < length limbs \<and> 64 - s \<le> i \<and> bit (limbs ! (w + 2)) (i - (64 - s))"
    using assms(2) s unfolding bigint_extract_u64_def Let_def w_def [symmetric] s_def [symmetric]
    by (simp add: bit_or_iff bit_push_bit_iff bit_drop_bit_eq ub)
  consider "i + s < 32" | "32 \<le> i + s" "i + s < 64" | "64 \<le> i + s" by linarith
  then show ?thesis
  proof cases
    case 1
    then have "(i + s) div 32 = 0" "(i + s) mod 32 = s + i" "\<not> 32 - s \<le> i" "\<not> 64 - s \<le> i" by auto
    then show ?thesis unfolding b bit_lval e e' using w by (simp add: add.commute)
  next
    case 2
    then obtain k where "i + s = 32 + k" "k < 32" using le_Suc_ex [of 32 "i + s"] by auto
    then have "(i + s) div 32 = 1" "(i + s) mod 32 = i - (32 - s)" "32 - s \<le> i" "\<not> 64 - s \<le> i" "32 \<le> s + i"
      using s by simp_all
    then show ?thesis unfolding b bit_lval e e' using hi [of "s + i"] by simp
  next
    case 3
    then obtain k where "i + s = 64 + k" "k < 32" using le_Suc_ex [of 64 "i + s"] s assms(2) by auto
    then have "(i + s) div 32 = 2" "(i + s) mod 32 = i - (64 - s)" "32 \<le> i - (32 - s)" "64 - s \<le> i" "32 \<le> s + i" "s \<noteq> 0"
      using s assms(2) mod_mult_self2 [of k 32 2] by (simp_all add: add.commute)
    then show ?thesis unfolding b bit_lval e e' using hi [of "s + i"] hi [of "i - (32 - s)"] by simp
  qed
qed

end
