(* ===== verification/Bigint_Div.thy ===== *)
theory Bigint_Div
  imports Bigint_Bits
begin

text \<open>
  Long division of magnitudes, \<open>bigint_divmod_abs_limbs\<close> of \<open>src/src/modules/bigint.c\<close>: the three
  routes of the source (numerator below the divisor, divisor of one limb, Knuth's algorithm D).
  Algorithm D is proved correct for every run in which no quotient estimate enters the
  correction loop with a remainder estimate that no longer fits one limb; the source does not
  test for that case, and a run that meets it returns a wrong quotient.
\<close>

unbundle bit_operations_syntax

section \<open>Algorithm D\<close>

text \<open>The estimate of one quotient digit from the two top limbs, capped at the largest digit.\<close>

definition qhat_estimate :: "u32 \<Rightarrow> u64 \<Rightarrow> u64 \<times> u64" where
  "qhat_estimate v1 numerator =
     (let qhat = numerator div ucast v1;
          rhat = numerator mod ucast v1
      in if qhat \<ge> 0x100000000
         then (0x100000000 - 1, numerator - (0x100000000 - 1) * ucast v1)
         else (qhat, rhat))"

text \<open>The correction loop: it ends because the digit estimate falls at every turn.\<close>

function qhat_correct :: "u32 \<Rightarrow> u32 \<Rightarrow> u32 \<Rightarrow> u64 \<Rightarrow> u64 \<Rightarrow> u64 \<times> u64" where
  "qhat_correct v1 v2 u2 qhat rhat =
     (if qhat * ucast v2 > (push_bit 32 rhat OR ucast u2)
      then let qhat = qhat - 1; rhat = rhat + ucast v1
           in if rhat \<ge> 0x100000000 then (qhat, rhat) else qhat_correct v1 v2 u2 qhat rhat
      else (qhat, rhat))"
  by pat_completeness auto
termination
proof (relation "measure (\<lambda>(v1, v2, u2, qhat, rhat). unat qhat)")
  fix v1 v2 u2 :: u32 and qhat rhat x xa :: u64
  assume "qhat * ucast v2 > (push_bit 32 rhat OR ucast u2)" and x: "x = qhat - 1"
  then have "qhat \<noteq> 0" by auto
  then have "unat x < unat qhat" unfolding x by (simp add: unat_minus_one unat_gt_0)
  then show "((v1, v2, u2, x, xa), v1, v2, u2, qhat, rhat) \<in> measure (\<lambda>(v1, v2, u2, qhat, rhat). unat qhat)"
    by simp
qed simp

declare qhat_correct.simps [simp del]

text \<open>
  Multiply and subtract over the window of the numerator that starts at limb \<open>j\<close>, and the
  add-back after a borrow. The window is as long as the divisor and one limb more.
\<close>

fun mulsub_loop :: "u64 \<Rightarrow> limbs \<Rightarrow> limbs \<Rightarrow> u64 \<Rightarrow> limbs \<times> u64" where
  "mulsub_loop qhat [] us k = ([], k)"
| "mulsub_loop qhat (v # vs) us k =
     (let p = qhat * ucast v + k;
          k = drop_bit 32 p;
          plow = ucast p :: u32;
          u = limb_or_0 us;
          (u', k) = (if u < plow then (ucast (ucast u + 0x100000000 - ucast plow :: u64), k + 1)
                     else (u - plow, k));
          (r, k) = mulsub_loop qhat vs (tl us) k
      in (u' # r, k))"

fun addback_loop :: "limbs \<Rightarrow> limbs \<Rightarrow> u64 \<Rightarrow> limbs \<times> u64" where
  "addback_loop [] us carry = ([], carry)"
| "addback_loop (v # vs) us carry =
     (let sum = ucast (limb_or_0 us) + ucast v + carry :: u64;
          (r, c) = addback_loop vs (tl us) (drop_bit 32 sum)
      in (ucast sum # r, c))"

definition knuth_step :: "limbs \<Rightarrow> nat \<Rightarrow> limbs \<Rightarrow> limbs \<times> u32" where
  "knuth_step vn j un =
     (let n = length vn;
          numerator = push_bit 32 (ucast (un ! (j + n))) OR ucast (un ! (j + n - 1)) :: u64;
          (qhat, rhat) = qhat_estimate (vn ! (n - 1)) numerator;
          (qhat, rhat) = (if n > 1
             then qhat_correct (vn ! (n - 1)) (vn ! (n - 2)) (un ! (j + n - 2)) qhat rhat
             else (qhat, rhat));
          (w, k) = mulsub_loop qhat vn (drop j un) 0;
          borrow = (ucast (un ! (j + n)) < k);
          top = ucast (ucast (un ! (j + n)) - k) :: u32
      in if borrow
         then let qhat = qhat - 1;
                  (w, carry) = addback_loop vn w 0;
                  top = ucast (ucast top + carry) :: u32
              in (take j un @ w @ top # drop (j + n + 1) un, ucast qhat)
         else (take j un @ w @ top # drop (j + n + 1) un, ucast qhat))"

text \<open>The digits from \<open>j - 1\<close> down to 0.\<close>

fun knuth_loop :: "limbs \<Rightarrow> nat \<Rightarrow> limbs \<Rightarrow> limbs \<Rightarrow> limbs \<times> limbs" where
  "knuth_loop vn 0 un q = (un, q)"
| "knuth_loop vn (Suc j) un q =
     (let (un, qhat) = knuth_step vn j un in knuth_loop vn j un (q[j := qhat]))"

definition knuth_normalize :: "nat \<Rightarrow> limbs \<Rightarrow> limbs \<times> u32" where
  "knuth_normalize shift xs = (if shift = 0 then (xs, 0) else shl_loop shift xs 0)"

section \<open>The routine\<close>

text \<open>
  \<open>want_q\<close> and \<open>want_r\<close> say which of the two result pointers the caller passed. \<open>None\<close> is the
  return value \<open>false\<close>; the buffers of a successful call are given up to their counts.
\<close>

definition bigint_divmod_abs_limbs ::
  "mem \<Rightarrow> limbs \<Rightarrow> limbs \<Rightarrow> bool \<Rightarrow> bool \<Rightarrow> (limbs option \<times> limbs option) option" where
  "bigint_divmod_abs_limbs m num den want_q want_r =
     (if length den = 1 \<and> den ! 0 = 0 then None
      else if bigint_cmp_abs_limbs num den < 0 then
        (case (if want_q then map_option Some (limb_alloc m 1) else Some None) of
           None \<Rightarrow> None
         | Some q \<Rightarrow>
             if want_r then
               (case limb_dup m num of
                  None \<Rightarrow> None
                | Some r \<Rightarrow> Some (q, Some (bigint_normalize_limbs (take (length num) r))))
             else Some (q, None))
      else if length den = 1 then
        (case limb_dup m num of
           None \<Rightarrow> None
         | Some q \<Rightarrow>
             let (q, rem) = div_small_rev (den ! 0) (rev (take (length num) q)) 0;
                 q_out = (if want_q then Some (bigint_normalize_limbs (rev q)) else None)
             in if want_r then
                  (case limb_alloc m 1 of
                     None \<Rightarrow> None
                   | Some r \<Rightarrow> Some (q_out, Some (r[0 := ucast rem])))
                else Some (q_out, None))
      else
        let k = length num - length den
        in case (limb_alloc m (length den), limb_alloc m (length num + 1), limb_alloc m (k + 1)) of
             (Some vn0, Some un0, Some q0) \<Rightarrow>
               let shift = clz32_nonzero (last den);
                   (vn, _) = knuth_normalize shift den;
                   (un, carry) = knuth_normalize shift num;
                   (un, q) = knuth_loop vn (k + 1) (un @ [carry]) q0;
                   q_out = (if want_q then Some (bigint_normalize_limbs q) else None)
               in if want_r then
                    (case limb_alloc m (length den) of
                       None \<Rightarrow> None
                     | Some r0 \<Rightarrow>
                         let r = (if shift = 0 then take (length den) un
                                  else rev (shr_rev_loop shift (rev (take (length den) un)) 0))
                         in Some (q_out, Some (bigint_normalize_limbs r)))
                  else Some (q_out, None)
           | _ \<Rightarrow> None)"

section \<open>Runs whose remainder estimates fit\<close>

text \<open>
  A step is safe unless the correction loop starts with \<open>rhat \<ge> 2\<^sup>3\<^sup>2\<close> and is entered: there
  \<open>rhat << 32\<close> loses the top bit of \<open>rhat\<close>.
\<close>

definition knuth_step_safe :: "limbs \<Rightarrow> nat \<Rightarrow> limbs \<Rightarrow> bool" where
  "knuth_step_safe vn j un =
     (let n = length vn;
          numerator = push_bit 32 (ucast (un ! (j + n))) OR ucast (un ! (j + n - 1)) :: u64;
          (qhat, rhat) = qhat_estimate (vn ! (n - 1)) numerator
      in rhat < 0x100000000 \<or>
         \<not> qhat * ucast (vn ! (n - 2)) > (push_bit 32 rhat OR ucast (un ! (j + n - 2))))"

fun knuth_loop_safe :: "limbs \<Rightarrow> nat \<Rightarrow> limbs \<Rightarrow> bool" where
  "knuth_loop_safe vn 0 un \<longleftrightarrow> True"
| "knuth_loop_safe vn (Suc j) un \<longleftrightarrow>
     knuth_step_safe vn j un \<and> knuth_loop_safe vn j (fst (knuth_step vn j un))"

definition divmod_safe :: "limbs \<Rightarrow> limbs \<Rightarrow> bool" where
  "divmod_safe num den \<longleftrightarrow>
     length den = 1 \<or> bigint_cmp_abs_limbs num den < 0 \<or>
     (let shift = clz32_nonzero (last den);
          (vn, _) = knuth_normalize shift den;
          (un, carry) = knuth_normalize shift num
      in knuth_loop_safe vn (length num - length den + 1) (un @ [carry]))"

section \<open>Bounds on a quotient digit\<close>

text \<open>
  The arithmetic of algorithm D over natural numbers: a divisor \<open>V\<close> with top limb \<open>v1\<close>, and a
  window \<open>U\<close> whose two top limbs read \<open>num2\<close>. \<open>P\<close> stands for the weight of the limbs below.
\<close>

lemma digit_upper:
  fixes U V P v1 num2 :: nat
  assumes "U < (num2 + 1) * P" "v1 * P \<le> V" "0 < v1" "0 < P"
  shows "U div V \<le> num2 div v1"
proof -
  have "num2 < v1 * (num2 div v1 + 1)" using assms(3) by (simp add: dividend_less_times_div)
  then have "num2 + 1 \<le> v1 * (num2 div v1 + 1)" by simp
  then have "(num2 + 1) * P \<le> v1 * (num2 div v1 + 1) * P" by (rule mult_le_mono1)
  also have "\<dots> = (v1 * P) * (num2 div v1 + 1)" by (simp only: ac_simps)
  also have "\<dots> \<le> V * (num2 div v1 + 1)" using assms(2) by (rule mult_le_mono1)
  finally have "U < V * (num2 div v1 + 1)" using assms(1) by (rule less_le_trans [rotated])
  then have "U div V < num2 div v1 + 1" by (simp add: less_mult_imp_div_less mult.commute)
  then show ?thesis by simp
qed

lemma digit_lower_big_rhat:
  fixes U V P v1 num2 qhat rhat vlow B :: nat
  assumes "num2 * P \<le> U" "V = v1 * P + vlow" "vlow < P" "num2 = qhat * v1 + rhat" "B \<le> rhat" "qhat < B"
  shows "qhat * V \<le> U"
proof -
  have "qhat * vlow \<le> B * P" using assms(3,6) by (intro mult_le_mono) auto
  also have "\<dots> \<le> rhat * P" using assms(5) by (rule mult_le_mono1)
  finally have "qhat * V \<le> qhat * (v1 * P) + rhat * P" unfolding assms(2) by (simp add: distrib_left)
  also have "\<dots> = num2 * P" unfolding assms(4) by (simp add: algebra_simps)
  finally show ?thesis using assms(1) by linarith
qed

lemma digit_lower_test:
  fixes U V P v12 num3 qhat vlow B :: nat
  assumes "num3 * P \<le> U" "V = v12 * P + vlow" "vlow < P" "qhat * v12 \<le> num3" "qhat < B" "B * P \<le> V"
  shows "qhat * V \<le> U + V"
proof -
  have "qhat * V = qhat * v12 * P + qhat * vlow" unfolding assms(2) by (simp add: algebra_simps)
  also have "\<dots> \<le> num3 * P + B * P" using assms(3-5) by (intro add_mono mult_le_mono) auto
  finally show ?thesis using assms(1,6) by linarith
qed

lemma digit_test_fails:
  fixes U V P v12 num3 qhat :: nat
  assumes "U < (num3 + 1) * P" "v12 * P \<le> V" "num3 < qhat * v12" "0 < V"
  shows "U div V < qhat"
proof -
  have "(num3 + 1) * P \<le> qhat * v12 * P" using assms(3) by (intro mult_le_mono1) simp
  also have "\<dots> = qhat * (v12 * P)" by simp
  also have "\<dots> \<le> qhat * V" using assms(2) by (rule mult_le_mono2)
  finally have "U < qhat * V" using assms(1) by linarith
  then show ?thesis by (rule less_mult_imp_div_less)
qed

section \<open>Multiply, subtract, add back\<close>

lemma mulsub_limb_step:
  fixes qhat k :: u64 and v u :: u32
  assumes "unat qhat < B32" "unat k < B32"
  defines "p \<equiv> qhat * ucast v + k"
  defines "r \<equiv> (if u < ucast p then (ucast (ucast u + 0x100000000 - ucast (ucast p :: u32) :: u64), drop_bit 32 p + 1)
                 else (u - ucast p, drop_bit 32 p)) :: u32 \<times> u64"
  shows "unat (fst r) + unat qhat * unat v + unat k = unat u + B32 * unat (snd r)"
    and "unat (snd r) < B32"
proof -
  have q: "unat qhat \<le> B32 - 1" "unat v \<le> B32 - 1" using assms(1) unat_le_B32 [of v] by simp_all
  have m: "unat qhat * unat v \<le> (B32 - 1) * (B32 - 1)" using q by (rule mult_le_mono)
  have pb: "unat qhat * unat v + unat k \<le> (B32 - 1) * B32" using m assms(2) by simp
  have p: "unat p = unat qhat * unat v + unat k"
    using m assms(2) unfolding p_def by (simp add: unat_ops)
  have hi: "unat (drop_bit 32 p) = unat p div B32" and lo: "unat (ucast p :: u32) = unat p mod B32"
    by (simp_all add: unat_ops)
  have sp: "unat p = B32 * (unat p div B32) + unat p mod B32" by simp
  have hb: "unat p div B32 \<le> B32 - 1" using pb p by (simp add: div_le_mono [of "unat p" "(B32 - 1) * B32" B32, simplified])
  have "unat (fst r) + unat qhat * unat v + unat k = unat u + B32 * unat (snd r) \<and> unat (snd r) < B32"
  proof (cases "u < ucast p")
    case True
    then have lt: "unat u < unat p mod B32" by (simp add: word_less_nat_alt lo)
    have hb': "unat p div B32 < B32 - 1"
    proof (rule ccontr)
      assume "\<not> unat p div B32 < B32 - 1"
      then have "unat p \<ge> (B32 - 1) * B32 + unat p mod B32" using sp hb by linarith
      with pb p lt show False by linarith
    qed
    have f: "unat (ucast u + 0x100000000 :: u64) = unat u + B32" by (subst unat_add_fits) (simp_all add: order_less_trans [OF unat_lt_B32])
    have "unat (ucast u + 0x100000000 - ucast (ucast p :: u32) :: u64) = unat u + B32 - unat p mod B32"
      by (subst unat_sub_fits) (simp_all add: f lo)
    then have a: "unat (fst r) = unat u + B32 - unat p mod B32"
      using lt True by (simp add: r_def unat_ops)
    have b: "unat (snd r) = unat p div B32 + 1"
      using hb' True by (simp add: r_def unat_add_fits hi)
    show ?thesis
    proof
      show "unat (fst r) + unat qhat * unat v + unat k = unat u + B32 * unat (snd r)"
        unfolding a b using lt sp p by (simp only: distrib_left)
    qed (use b hb' in simp)
  next
    case False
    then have le: "unat p mod B32 \<le> unat u" by (simp add: word_less_nat_alt lo)
    have a: "unat (fst r) = unat u - unat p mod B32" using False le by (simp add: r_def unat_sub_fits lo)
    have b: "unat (snd r) = unat p div B32" using False by (simp add: r_def hi)
    show ?thesis
    proof
      show "unat (fst r) + unat qhat * unat v + unat k = unat u + B32 * unat (snd r)"
        unfolding a b using le sp p by linarith
    qed (use b hb in simp)
  qed
  then show "unat (fst r) + unat qhat * unat v + unat k = unat u + B32 * unat (snd r)"
    and "unat (snd r) < B32" by blast+
qed

lemma mulsub_loop_value:
  assumes "unat qhat < B32" "unat k < B32" "length vs \<le> length us" "mulsub_loop qhat vs us k = (w, k')"
  shows "lval w + unat qhat * lval vs + unat k = lval (take (length vs) us) + B32 ^ length vs * unat k'
    \<and> unat k' < B32 \<and> length w = length vs"
  using assms
proof (induction vs arbitrary: us k w k')
  case (Cons v vs)
  obtain u us' where us: "us = u # us'" using Cons.prems(3) by (cases us) auto
  define p where "p = qhat * ucast v + k"
  define r where "r = ((if u < ucast p then (ucast (ucast u + 0x100000000 - ucast (ucast p :: u32) :: u64), drop_bit 32 p + 1)
                 else (u - ucast p, drop_bit 32 p)) :: u32 \<times> u64)"
  obtain w' where rec: "mulsub_loop qhat vs us' (snd r) = (w', k')" and w: "w = fst r # w'"
    using Cons.prems(4) unfolding us by (auto simp: Let_def p_def r_def split: prod.splits if_splits)
  note st = mulsub_limb_step [OF Cons.prems(1,2), of u v, folded p_def, folded r_def]
  have IH: "lval w' + unat qhat * lval vs + unat (snd r) = lval (take (length vs) us') + B32 ^ length vs * unat k'"
    "unat k' < B32" "length w' = length vs"
    using Cons.IH [OF Cons.prems(1) st(2) _ rec] Cons.prems(3) by (simp_all add: us)
  have "lval w + unat qhat * lval (v # vs) + unat k + B32 * unat (snd r)
      = unat (fst r) + unat qhat * unat v + unat k + B32 * (lval w' + unat qhat * lval vs + unat (snd r))"
    by (simp add: w algebra_simps)
  also have "\<dots> = lval (take (length (v # vs)) us) + B32 ^ length (v # vs) * unat k' + B32 * unat (snd r)"
    unfolding IH(1) st(1) us by (simp add: algebra_simps)
  finally show ?case using IH by (simp add: w)
qed simp

lemma addback_loop_value:
  assumes "unat c \<le> 1" "length vs \<le> length us" "addback_loop vs us c = (w, c')"
  shows "lval w + B32 ^ length vs * unat c' = lval (take (length vs) us) + lval vs + unat c
    \<and> unat c' \<le> 1 \<and> length w = length vs"
  using assms
proof (induction vs arbitrary: us c w c')
  case (Cons v vs)
  obtain u us' where us: "us = u # us'" using Cons.prems(2) by (cases us) auto
  define sm where "sm = (ucast u + ucast v + c :: u64)"
  obtain w' where rec: "addback_loop vs us' (drop_bit 32 sm) = (w', c')" and w: "w = ucast sm # w'"
    using Cons.prems(3) unfolding us by (auto simp: Let_def sm_def split: prod.splits)
  note st = add_limb_step [OF Cons.prems(1), of u v, folded sm_def]
  have IH: "lval w' + B32 ^ length vs * unat c' = lval (take (length vs) us') + lval vs + unat (drop_bit 32 sm)"
    "unat c' \<le> 1" "length w' = length vs"
    using Cons.IH [OF _ _ rec] Cons.prems(2) st by (simp_all add: us)
  have "lval w + B32 ^ length (v # vs) * unat c'
      = unat (ucast sm :: u32) + B32 * (lval w' + B32 ^ length vs * unat c')"
    by (simp add: w algebra_simps)
  also have "\<dots> = unat (ucast sm :: u32) + B32 * unat (drop_bit 32 sm) + B32 * (lval (take (length vs) us') + lval vs)"
    unfolding IH(1) by (simp add: algebra_simps)
  also have "\<dots> = lval (take (length (v # vs)) us) + lval (v # vs) + unat c"
    unfolding u64_split st(1) us by (simp add: algebra_simps)
  finally show ?case using IH by (simp add: w)
qed simp

section \<open>The digit estimate\<close>

lemma qhat_estimate_value:
  fixes numerator :: u64 and v1 :: u32
  assumes "0 < unat v1" "unat numerator < unat v1 * B32 + B32" "qhat_estimate v1 numerator = (qhat, rhat)"
  shows "unat qhat = min (unat numerator div unat v1) (B32 - 1)"
    and "unat qhat * unat v1 + unat rhat = unat numerator"
proof -
  have d: "unat (numerator div ucast v1) = unat numerator div unat v1"
    and m: "unat (numerator mod ucast v1) = unat numerator mod unat v1"
    by (simp_all add: unat_div unat_mod)
  show "unat qhat = min (unat numerator div unat v1) (B32 - 1)"
    using assms(3) by (auto simp: qhat_estimate_def Let_def word_le_nat_alt d split: if_splits)
  show "unat qhat * unat v1 + unat rhat = unat numerator"
  proof (cases "numerator div ucast v1 \<ge> 0x100000000")
    case True
    then have "B32 \<le> unat numerator div unat v1" by (simp add: word_le_nat_alt d)
    then have "B32 * unat v1 \<le> unat numerator div unat v1 * unat v1" by (rule mult_le_mono1)
    also have "\<dots> \<le> unat numerator" by simp
    finally have ge: "(B32 - 1) * unat v1 \<le> unat numerator" by simp
    have q: "qhat = 4294967295" "rhat = numerator - 4294967295 * ucast v1"
      using True assms(3) by (simp_all add: qhat_estimate_def)
    have mu: "unat (4294967295 * ucast v1 :: u64) = 4294967295 * unat v1"
      by (subst unat_mult_fits) (use unat_le_B32 [of v1] in simp_all)
    have "unat rhat = unat numerator - 4294967295 * unat v1"
      unfolding q by (subst unat_sub_fits) (use ge mu in simp_all)
    then show ?thesis using ge q by simp
  next
    case False
    then have "qhat = numerator div ucast v1" "rhat = numerator mod ucast v1"
      using assms(3) by (simp_all add: qhat_estimate_def)
    then show ?thesis by (simp add: d m)
  qed
qed

lemma qhat_test:
  fixes qhat rhat :: u64 and v2 u2 :: u32
  assumes "unat qhat < B32" "unat rhat < B32"
  shows "qhat * ucast v2 > (push_bit 32 rhat OR ucast u2) \<longleftrightarrow> unat rhat * B32 + unat u2 < unat qhat * unat v2"
proof -
  have "unat qhat * unat v2 \<le> (B32 - 1) * (B32 - 1)"
    using assms(1) unat_le_B32 [of v2] by (intro mult_le_mono) auto
  then have "unat (qhat * ucast v2) = unat qhat * unat v2" by (subst unat_mult_fits) simp_all
  moreover have "unat (push_bit 32 rhat OR ucast u2) = unat rhat * B32 + unat u2"
    using unat_shl_or [of rhat 32 "ucast u2"] assms(2) by simp
  ultimately show ?thesis by (simp add: word_less_nat_alt)
qed

lemma qhat_correct_value:
  fixes v1 v2 u2 :: u32 and qhat rhat qhat' rhat' :: u64 and q num2 :: nat
  assumes "unat qhat < B32" "unat rhat < B32" "unat qhat * unat v1 + unat rhat = num2" "q \<le> unat qhat"
    and "\<And>x. num2 * B32 + unat u2 < x * (unat v1 * B32 + unat v2) \<Longrightarrow> q < x"
    and "qhat_correct v1 v2 u2 qhat rhat = (qhat', rhat')"
  shows "unat qhat' < B32 \<and> q \<le> unat qhat' \<and> unat qhat' * unat v1 + unat rhat' = num2
    \<and> (B32 \<le> unat rhat' \<or> unat qhat' * (unat v1 * B32 + unat v2) \<le> num2 * B32 + unat u2)"
  using assms
proof (induction v1 v2 u2 qhat rhat rule: qhat_correct.induct)
  case (1 v1 v2 u2 qhat rhat)
  have three: "unat qhat * (unat v1 * B32 + unat v2) = unat qhat * unat v1 * B32 + unat qhat * unat v2"
    by (simp add: algebra_simps)
  have num3: "num2 * B32 + unat u2 = unat qhat * unat v1 * B32 + (unat rhat * B32 + unat u2)"
    unfolding 1(4) [symmetric] by (simp add: algebra_simps)
  show ?case
  proof (cases "qhat * ucast v2 > (push_bit 32 rhat OR ucast u2)")
    case True
    then have lt: "unat rhat * B32 + unat u2 < unat qhat * unat v2" using qhat_test [OF 1(2,3)] by simp
    then have "q < unat qhat" by (intro 1(6)) (simp add: three num3)
    then have qpos: "0 < unat qhat" by simp
    then have q1: "unat (qhat - 1) = unat qhat - 1" by (subst unat_sub_fits) simp_all
    have r1: "unat (rhat + ucast v1) = unat rhat + unat v1"
      by (subst unat_add_fits) (use 1(3) unat_le_B32 [of v1] in simp_all)
    obtain q0 where q0: "unat qhat = Suc q0" using qpos by (cases "unat qhat") auto
    have inv: "unat (qhat - 1) * unat v1 + unat (rhat + ucast v1) = num2" "unat (qhat - 1) < B32" "q \<le> unat (qhat - 1)"
      unfolding 1(4) [symmetric] q1 r1 using q0 1(2) \<open>q < unat qhat\<close> by simp_all
    show ?thesis
    proof (cases "rhat + ucast v1 \<ge> 0x100000000")
      case big: True
      then have "qhat' = qhat - 1" "rhat' = rhat + ucast v1"
        using 1(7) True by (simp_all add: qhat_correct.simps [of v1 v2 u2 qhat rhat] Let_def)
      moreover have "B32 \<le> unat (rhat + ucast v1)" using big by (simp add: word_le_nat_alt)
      ultimately show ?thesis using inv by simp
    next
      case small: False
      have "qhat_correct v1 v2 u2 (qhat - 1) (rhat + ucast v1) = (qhat', rhat')"
        using 1(7) True small by (simp add: qhat_correct.simps [of v1 v2 u2 qhat rhat] Let_def)
      moreover have "unat (rhat + ucast v1) < B32" using small by (simp add: word_le_nat_alt)
      ultimately show ?thesis using 1(1) [OF True refl refl small inv(2) _ inv(1,3)] 1(6) by blast
    qed
  next
    case False
    then have "qhat' = qhat" "rhat' = rhat" using 1(7) by (simp_all add: qhat_correct.simps [of v1 v2 u2 qhat rhat])
    moreover have "unat qhat * unat v2 \<le> unat rhat * B32 + unat u2" using False qhat_test [OF 1(2,3)] by (simp add: not_less)
    ultimately show ?thesis using 1(2,4,5) by (simp add: three num3)
  qed
qed

section \<open>One step\<close>

text \<open>The corrected estimate is the digit or one more.\<close>

lemma knuth_qhat:
  fixes v1 v2 u0 u1 u2 :: u32 and vl ul :: limbs
  assumes len: "length ul = length vl" and v1: "0 < unat v1"
    and V: "V = lval (vl @ [v2, v1])" and U: "U = lval (ul @ [u2, u1, u0])" and lt: "U < V * B32"
    and est: "qhat_estimate v1 (push_bit 32 (ucast u0) OR ucast u1) = (qhat0, rhat0)"
    and safe: "rhat0 < 0x100000000 \<or> \<not> qhat0 * ucast v2 > (push_bit 32 rhat0 OR ucast u2)"
    and cor: "qhat_correct v1 v2 u2 qhat0 rhat0 = (qhat, rhat)"
  shows "U div V \<le> unat qhat" and "unat qhat * V \<le> U + V" and "unat qhat < B32"
proof -
  define P where "P = B32 ^ length vl"
  define num2 where "num2 = unat u0 * B32 + unat u1"
  define v12 where "v12 = unat v1 * B32 + unat v2"
  have P: "0 < P" "lval vl < P" "lval ul < P" using lval_bound [of vl] lval_bound [of ul] by (simp_all add: P_def len)
  have V': "V = v12 * P + lval vl" "V = unat v1 * (B32 * P) + (unat v2 * P + lval vl)"
    by (simp_all add: V lval_append P_def v12_def algebra_simps)
  have U': "U = (num2 * B32 + unat u2) * P + lval ul" "U = num2 * (B32 * P) + (unat u2 * P + lval ul)"
    by (simp_all add: U lval_append len P_def num2_def algebra_simps)
  have low: "unat x * P + y < B32 * P" if "y < P" for x :: u32 and y
  proof -
    have "unat x * P + y < (unat x + 1) * P" using that by simp
    also have "\<dots> \<le> B32 * P" using unat_le_B32 [of x] by (intro mult_le_mono1) simp
    finally show ?thesis .
  qed
  have nb: "unat (push_bit 32 (ucast u0) OR ucast u1 :: u64) = num2"
    using unat_shl_or [of "ucast u0 :: u64" 32 "ucast u1"] unat_lt_B32 [of u0] by (simp add: num2_def)
  have "num2 < unat v1 * B32 + B32"
  proof (rule ccontr)
    assume "\<not> num2 < unat v1 * B32 + B32"
    then have "(unat v1 * B32 + B32) * (B32 * P) \<le> num2 * (B32 * P)" by (intro mult_le_mono1) simp
    also have "\<dots> \<le> U" unfolding U'(2) by simp
    also have "\<dots> < V * B32" by (rule lt)
    also have "\<dots> \<le> (unat v1 * (B32 * P) + B32 * P) * B32"
      unfolding V'(2) using low [OF P(2), of v2] by (intro mult_le_mono1) simp
    finally show False by (simp add: algebra_simps)
  qed
  then have e: "unat qhat0 = min (num2 div unat v1) (B32 - 1)" "unat qhat0 * unat v1 + unat rhat0 = num2"
    using qhat_estimate_value [OF v1 _ est] by (simp_all add: nb)
  have q0: "unat qhat0 < B32" by (simp add: e(1))
  have "U div V \<le> num2 div unat v1"
    using low [OF P(3), of u2] P(1) v1 unfolding U'(2) V'(2) by (intro digit_upper [of _ _ "B32 * P"]) simp_all
  moreover have "U div V < B32" using lt by (simp add: less_mult_imp_div_less mult.commute)
  ultimately have up: "U div V \<le> unat qhat0" by (simp add: e(1))
  have Vpos: "0 < V" using v1 P(1) by (simp add: V'(2))
  have test: "U div V < x" if "num2 * B32 + unat u2 < x * (unat v1 * B32 + unat v2)" for x
    using that P Vpos by (intro digit_test_fails [of U "num2 * B32 + unat u2" P v12 V]) (simp_all add: U'(1) V'(1) v12_def)
  have res: "unat qhat < B32 \<and> U div V \<le> unat qhat \<and> unat qhat * unat v1 + unat rhat = num2
      \<and> (B32 \<le> unat rhat \<or> unat qhat * (unat v1 * B32 + unat v2) \<le> num2 * B32 + unat u2)"
  proof (cases "unat rhat0 < B32")
    case True
    show ?thesis using q0 True e(2) up test cor by (rule qhat_correct_value)
  next
    case False
    then have "\<not> qhat0 * ucast v2 > (push_bit 32 rhat0 OR ucast u2)" using safe by (simp add: word_less_nat_alt)
    then have "qhat = qhat0" "rhat = rhat0" using cor by (simp_all add: qhat_correct.simps [of v1 v2 u2 qhat0 rhat0])
    then show ?thesis using q0 e(2) up False by simp
  qed
  then show "U div V \<le> unat qhat" "unat qhat < B32" by blast+
  show "unat qhat * V \<le> U + V"
  proof (cases "B32 \<le> unat rhat")
    case True
    have "unat qhat * V \<le> U"
      using low [OF P(2), of v2] res True unfolding U'(2) V'(2)
      by (intro digit_lower_big_rhat [of num2 "B32 * P" _ _ "unat v1" "unat v2 * P + lval vl" "unat qhat" "unat rhat" B32]) auto
    then show ?thesis by simp
  next
    case False
    have "B32 * P \<le> unat v1 * (B32 * P)" using v1 by simp
    then have "B32 * P \<le> V" unfolding V'(2) by linarith
    then show ?thesis using res False P(2)
      by (intro digit_lower_test [of "num2 * B32 + unat u2" P U V v12 "lval vl" _ B32])
        (auto simp: U'(1) V'(1) v12_def)
  qed
qed

lemma window_split:
  fixes a b c d :: nat
  assumes "a + P * b = c + P * d" "a < P" "c < P"
  shows "a = c" "b = d"
proof -
  have "(a + P * b) div P = b" "(c + P * d) div P = d" "(a + P * b) mod P = a" "(c + P * d) mod P = c"
    using assms(2,3) by simp_all
  with assms(1) show "a = c" "b = d" by simp_all
qed

lemma unat_sub_wrap:
  fixes k :: u64 and u :: u32
  assumes "unat u < unat k" "unat k < B32"
  shows "unat (ucast u - k) mod B32 = unat u + B32 - unat k"
proof -
  have "unat (ucast u - k) = 2 ^ 64 + unat u - unat k"
    using assms(1) by (simp add: unat_sub_if')
  also have "\<dots> = unat u + B32 - unat k + B32 * (B32 - 1)" using assms by simp
  finally have "unat (ucast u - k) mod B32 = (unat u + B32 - unat k) mod B32" by (simp only: mod_mult_self2)
  then show ?thesis using assms(1) by simp
qed

text \<open>The multiply-subtract part of a step on its window: the new window and the digit.\<close>

definition sub_digit :: "limbs \<Rightarrow> limbs \<Rightarrow> u32 \<Rightarrow> u64 \<Rightarrow> limbs \<times> u32 \<times> u32" where
  "sub_digit vn us u0 qhat =
     (let (w, k) = mulsub_loop qhat vn us 0;
          top = ucast (ucast u0 - k) :: u32
      in if ucast u0 < k
         then let (w, carry) = addback_loop vn w 0 in (w, ucast (ucast top + carry :: u64), ucast (qhat - 1))
         else (w, top, ucast qhat))"

lemma mulsub_borrow:
  fixes U V P L k u0 Q :: nat
  assumes "L + Q * V = T + P * k" "U = T + P * u0" "L < P" "T < P"
  shows "u0 < k \<longleftrightarrow> U < Q * V"
proof (cases "u0 < k")
  case True
  then obtain d where "k = u0 + Suc d" by (auto dest: less_imp_Suc_add)
  then have "L + Q * V = U + P + P * d" using assms(1,2) by (simp add: algebra_simps)
  then show ?thesis using True assms(3) by linarith
next
  case False
  then obtain d where "u0 = k + d" using le_Suc_ex [of k u0] by auto
  then have "U = L + Q * V + P * d" using assms(1,2) by (simp add: algebra_simps)
  then show ?thesis using False by linarith
qed

lemma sub_digit_value:
  assumes V: "0 < lval vn" and us: "length vn \<le> length us"
    and U: "U = lval (take (length vn) us) + B32 ^ length vn * unat u0"
    and q: "U div lval vn \<le> unat qhat" "unat qhat * lval vn \<le> U + lval vn" "unat qhat < B32"
    and res: "sub_digit vn us u0 qhat = (w, tp, d)"
  shows "unat d = U div lval vn" and "lval w + B32 ^ length vn * unat tp = U mod lval vn" and "length w = length vn"
proof -
  define P where "P = B32 ^ length vn"
  define V where "V = lval vn"
  obtain w0 k where m: "mulsub_loop qhat vn us 0 = (w0, k)" by force
  have M: "lval w0 + unat qhat * V = lval (take (length vn) us) + P * unat k" "unat k < B32" "length w0 = length vn"
    using mulsub_loop_value [OF q(3) _ us m] by (simp_all add: P_def V_def)
  have bounds: "lval w0 < P" "lval (take (length vn) us) < P" "V < P" "0 < V"
    using lval_bound [of w0] lval_bound [of "take (length vn) us"] lval_bound [of vn] M(3) us V by (simp_all add: P_def V_def min_absorb2)
  have b: "unat u0 < unat k \<longleftrightarrow> U < unat qhat * V"
    using M(1) U bounds by (intro mulsub_borrow [where L = "lval w0" and P = P and T = "lval (take (length vn) us)"]) (simp_all add: P_def)
  have "unat d = U div V \<and> lval w + P * unat tp = U mod V \<and> length w = length vn"
  proof (cases "ucast u0 < k")
    case False
    then have ge: "unat k \<le> unat u0" by (simp add: word_less_nat_alt)
    have r: "w = w0" "tp = ucast (ucast u0 - k)" "d = ucast qhat" using res False m by (simp_all add: sub_digit_def)
    have t: "unat tp = unat u0 - unat k" using ge unat_lt_B32 [of u0] by (simp add: r(2) unat_ops less_imp_diff_less)
    have "lval w0 + P * (unat u0 - unat k) + unat qhat * V = U"
    proof -
      obtain e where "unat u0 = unat k + e" using ge le_Suc_ex by blast
      then show ?thesis using M(1) U by (simp add: P_def algebra_simps)
    qed
    then have e: "U = unat qhat * V + (lval w + P * unat tp)" by (simp add: r(1) t)
    then have "U div V \<ge> unat qhat" using bounds(4) by (simp add: less_eq_div_iff_mult_less_eq)
    then have qd: "U div V = unat qhat" using q(1) by (simp add: V_def)
    then have "U = unat qhat * V + U mod V" by (metis div_mult_mod_eq)
    then have "lval w + P * unat tp = U mod V" using e by linarith
    then show ?thesis using qd q(3) M(3) by (simp add: r(1,3) unat_ops)
  next
    case True
    then have lt: "unat u0 < unat k" by (simp add: word_less_nat_alt)
    obtain w1 c where a: "addback_loop vn w0 0 = (w1, c)" by force
    have A: "lval w1 + P * unat c = lval w0 + V" "unat c \<le> 1" "length w1 = length vn"
      using addback_loop_value [OF _ _ a] M(3) by (simp_all add: P_def V_def)
    define t0 where "t0 = (ucast (ucast u0 - k) :: u32)"
    have r: "w = w1" "tp = ucast (ucast t0 + c :: u64)" "d = ucast (qhat - 1)" using res True m a by (simp_all add: sub_digit_def t0_def)
    have t0: "unat t0 = unat u0 + B32 - unat k" using lt M(2) by (simp add: t0_def unat_ops unat_sub_wrap)
    have big: "U < unat qhat * V" using lt b by simp
    then have qpos: "0 < unat qhat" by (cases "unat qhat") auto
    then obtain q0 where q0: "unat qhat = Suc q0" by (cases "unat qhat") auto
    have "q0 * V \<le> U" using q(2) q0 by (simp add: V_def)
    moreover have "U < q0 * V + V" using big q0 by simp
    ultimately have "U div V = q0" by (intro div_nat_eqI) (simp_all add: mult.commute)
    have X: "U = q0 * V + U mod V" using \<open>U div V = q0\<close> by (metis div_mult_mod_eq)
    have "lval w1 + P * (unat t0 + unat c) + unat qhat * V = U + P * B32 + V"
    proof -
      obtain e where "unat k = unat u0 + e" using lt less_imp_le le_Suc_ex by blast
      moreover have "e \<le> B32" using calculation M(2) by linarith
      ultimately have "P * unat t0 + P * unat k = P * unat u0 + P * B32" by (simp add: t0 flip: distrib_left)
      then show ?thesis using M(1) U A(1) by (simp add: P_def algebra_simps)
    qed
    then have "lval w1 + P * (unat t0 + unat c) = U mod V + P * B32" using X q0 by simp
    moreover have "lval w1 < P" "U mod V < P" using lval_bound [of w1] A(3) bounds(3,4) less_trans [OF mod_less_divisor [of V U]] by (simp_all add: P_def)
    ultimately have W: "lval w1 = U mod V" "unat t0 + unat c = B32" by (rule window_split)+
    then have "unat (ucast t0 + c :: u64) = B32" by (subst unat_add_fits) simp_all
    then have "unat tp = 0" by (simp add: r(2) unat_ops)
    moreover have "unat d = q0" using q0 q(3) by (simp add: r(3) unat_ops)
    ultimately show ?thesis using W(1) A(3) \<open>U div V = q0\<close> by (simp add: r(1))
  qed
  then show "unat d = U div lval vn" "lval w + B32 ^ length vn * unat tp = U mod lval vn" "length w = length vn"
    by (simp_all add: V_def P_def)
qed

lemma take_three:
  assumes "m + 2 < length xs"
  shows "take (m + 3) xs = take m xs @ [xs ! m, xs ! (m + 1), xs ! (m + 2)]"
  using assms take_Suc_conv_app_nth [of "m + 2" xs] take_Suc_conv_app_nth [of "m + 1" xs] take_Suc_conv_app_nth [of m xs]
  by (simp add: numeral_3_eq_3)

lemma take_two:
  assumes "length xs = m + 2"
  shows "xs = take m xs @ [xs ! m, xs ! (m + 1)]"
  using assms take_Suc_conv_app_nth [of "m + 1" xs] take_Suc_conv_app_nth [of m xs] by simp

lemma knuth_step_value:
  assumes n: "length vn = m + 2" and top: "0 < unat (last vn)" and j: "j + (m + 2) < length un"
    and U: "U = lval (take (m + 3) (drop j un))" and lt: "U < lval vn * B32"
    and safe: "knuth_step_safe vn j un" and st: "knuth_step vn j un = (un', d)"
  obtains w where "un' = take j un @ w @ drop (j + m + 3) un" and "length w = m + 3"
    and "unat d = U div lval vn" and "lval w = U mod lval vn"
proof -
  define v1 where "v1 = vn ! (m + 1)"
  define v2 where "v2 = vn ! m"
  define u0 where "u0 = un ! (j + m + 2)"
  define u1 where "u1 = un ! (j + m + 1)"
  define u2 where "u2 = un ! (j + m)"
  have vn: "vn = take m vn @ [v2, v1]" using take_two [OF n] by (simp add: v1_def v2_def)
  have W: "take (m + 3) (drop j un) = take m (drop j un) @ [u2, u1, u0]"
    using take_three [of m "drop j un"] j by (simp add: u0_def u1_def u2_def algebra_simps)
  have v1: "0 < unat v1" using top vn by (metis last_appendR last.simps list.distinct(1))
  have V: "lval vn = lval (take m vn @ [v2, v1])" using vn by simp
  obtain qhat0 rhat0 where est: "qhat_estimate v1 (push_bit 32 (ucast u0) OR ucast u1) = (qhat0, rhat0)" by force
  obtain qhat rhat where cor: "qhat_correct v1 v2 u2 qhat0 rhat0 = (qhat, rhat)" by force
  have sf: "rhat0 < 0x100000000 \<or> \<not> qhat0 * ucast v2 > (push_bit 32 rhat0 OR ucast u2)"
    using safe est unfolding knuth_step_safe_def Let_def n
    by (simp add: v1_def v2_def u0_def u1_def u2_def algebra_simps)
  have len: "length (take m (drop j un)) = length (take m vn)" using j n by simp
  note Q = knuth_qhat [OF len v1 V U [unfolded W] lt est sf cor]
  obtain w tp d' where sd: "sub_digit vn (drop j un) u0 qhat = (w, tp, d')" by (metis prod_cases3)
  have r: "un' = take j un @ w @ tp # drop (j + m + 3) un" "d = d'"
    using st sd est cor unfolding knuth_step_def sub_digit_def Let_def n
    by (auto simp: v1_def v2_def u0_def u1_def u2_def algebra_simps numeral_3_eq_3 split: prod.splits if_splits)
  have "take (m + 2) (drop j un) = take m (drop j un) @ [u2, u1]"
    using arg_cong [OF W, of butlast] j by (simp add: butlast_take butlast_append)
  then have U2: "U = lval (take (length vn) (drop j un)) + B32 ^ length vn * unat u0"
    using j by (simp add: U W lval_append n algebra_simps)
  have "0 < lval vn" using v1 by (simp add: V lval_append)
  note D = sub_digit_value [OF this _ U2 Q sd]
  have "length w = m + 2" "lval w + B32 ^ (m + 2) * unat tp = U mod lval vn" "unat d' = U div lval vn"
    using D j n by simp_all
  then show ?thesis by (intro that [of "w @ [tp]"]) (simp_all add: r lval_append)
qed

lemma length_knuth_step:
  assumes "j + length vn < length un"
  shows "length (fst (knuth_step vn j un)) = length un"
proof -
  have a: "mulsub_loop q vs us k = (w, k') \<Longrightarrow> length w = length vs" for q vs us k w k'
    by (induction vs arbitrary: us k w k') (auto simp: Let_def split: prod.splits if_splits)
  have b: "addback_loop vs us k = (w, k') \<Longrightarrow> length w = length vs" for vs us k w k'
    by (induction vs arbitrary: us k w k') (auto simp: Let_def split: prod.splits if_splits)
  show ?thesis using assms
    by (auto simp: knuth_step_def Let_def dest!: a b split: prod.splits)
qed

section \<open>All steps\<close>

lemma lval_mid:
  "lval (take j un @ w @ ys) = lval (take j un) + B32 ^ min (length un) j * (lval w + B32 ^ length w * lval ys)"
  by (simp add: lval_append min.commute)

text \<open>
  The invariant of the digit loop: the limbs from \<open>j + n\<close> up are zero after the first step, so
  the numerator that is left reads as the first \<open>j + n\<close> limbs and stays below \<open>V * B ^ j\<close>.
\<close>

lemma knuth_loop_value:
  assumes n: "length vn = m + 2" and top: "0 < unat (last vn)"
    and len: "j + (m + 2) \<le> length un" "j \<le> length q"
    and lt: "lval un < lval vn * B32 ^ j"
    and safe: "knuth_loop_safe vn j un" and res: "knuth_loop vn j un q = (un', q')"
  shows "lval (take j q') = lval un div lval vn \<and> lval un' = lval un mod lval vn
    \<and> drop j q' = drop j q \<and> length un' = length un \<and> length q' = length q"
  using len lt safe res
proof (induction j arbitrary: un q)
  case 0
  then show ?case by simp
next
  case (Suc j)
  define V where "V = lval vn"
  obtain un1 d where st: "knuth_step vn j un = (un1, d)" by force
  have rec: "knuth_loop vn j un1 (q[j := d]) = (un', q')" using Suc.prems(5) st by simp
  have sf: "knuth_step_safe vn j un" "knuth_loop_safe vn j un1" using Suc.prems(4) st by simp_all
  define H where "H = lval (drop j un)"
  define L where "L = lval (take j un)"
  have jl: "j + (m + 2) < length un" using Suc.prems(1) by simp
  have un: "lval un = L + B32 ^ j * H" using lval_take_drop [of j un] jl by (simp add: L_def H_def)
  have L: "L < B32 ^ j" using lval_bound [of "take j un"] jl by (simp add: L_def)
  have HV: "H < V * B32"
  proof -
    have "B32 ^ j * H \<le> lval un" by (simp add: un)
    also have "\<dots> < V * B32 * B32 ^ j" using Suc.prems(3) by (simp add: V_def)
    finally show ?thesis by (simp add: mult.commute)
  qed
  have V: "V < B32 ^ (m + 2)" using lval_bound [of vn] n by (simp add: V_def)
  have hz: "lval (drop (j + m + 3) un) = 0"
  proof -
    have "H < B32 ^ (m + 3)" using less_trans [OF HV, of "B32 ^ (m + 2) * B32"] V by (simp add: numeral_3_eq_3)
    moreover have "H = lval (take (m + 3) (drop j un)) + B32 ^ (m + 3) * lval (drop (j + m + 3) un)"
      using lval_take_drop [of "m + 3" "drop j un"] jl by (simp add: H_def algebra_simps)
    ultimately show ?thesis by (cases "lval (drop (j + m + 3) un)") auto
  qed
  then have H: "H = lval (take (m + 3) (drop j un))"
    using lval_take_drop [of "m + 3" "drop j un"] jl by (simp add: H_def algebra_simps)
  obtain w where w: "un1 = take j un @ w @ drop (j + m + 3) un" "length w = m + 3" "unat d = H div V" "lval w = H mod V"
    using knuth_step_value [OF n top jl H] HV sf(1) st by (auto simp: V_def)
  have Vpos: "0 < V" using HV by (cases V) auto
  have u1: "lval un1 = L + B32 ^ j * (H mod V)" using jl hz w by (simp add: lval_mid min_absorb2 L_def)
  have len1: "length un1 = length un" using jl w by simp
  have lt1: "lval un1 < V * B32 ^ j"
  proof -
    have "lval un1 < B32 ^ j * (H mod V + 1)" using L by (simp add: u1)
    also have "\<dots> \<le> B32 ^ j * V" using Vpos by (intro mult_le_mono2) (simp add: Suc_leI)
    finally show ?thesis by (simp add: mult.commute)
  qed
  have IH: "lval (take j q') = lval un1 div V" "lval un' = lval un1 mod V" "drop j q' = drop j (q[j := d])"
    "length un' = length un" "length q' = length q"
    using Suc.IH [OF _ _ _ sf(2) rec] lt1 len1 Suc.prems(1,2) by (simp_all add: V_def)
  have "lval un = lval un1 + V * (B32 ^ j * (H div V))"
  proof -
    have e: "H = V * (H div V) + H mod V" by simp
    show ?thesis unfolding un u1 by (subst e) (simp only: distrib_left distrib_right ac_simps)
  qed
  then have dm: "lval un div V = lval un1 div V + B32 ^ j * (H div V)" "lval un mod V = lval un1 mod V"
    using Vpos by simp_all
  have jq: "j < length q'" using IH(5) Suc.prems(2) by simp
  have "q' ! j = d" using arg_cong [OF IH(3), of hd] jq IH(5) by (simp add: hd_drop_conv_nth)
  then have "lval (take (Suc j) q') = lval un div V"
    using IH(1) w(3) jq by (simp add: take_Suc_conv_app_nth lval_append dm)
  moreover have "drop (Suc j) q' = drop (Suc j) q"
    using arg_cong [OF IH(3), of tl] by (simp add: tl_drop drop_Suc [symmetric] drop_update_cancel flip: drop_Suc)
  ultimately show ?case using IH dm by (simp add: V_def)
qed

section \<open>The whole routine\<close>

lemma knuth_normalize_value:
  assumes "shift < 32" "knuth_normalize shift xs = (ys, c)"
  shows "lval (ys @ [c]) = lval xs * 2 ^ shift" and "length ys = length xs"
proof -
  have "lval (ys @ [c]) = lval xs * 2 ^ shift \<and> length ys = length xs"
  proof (cases "shift = 0")
    case True
    then show ?thesis using assms(2) by (simp add: knuth_normalize_def lval_append)
  next
    case False
    then have l: "shl_loop shift xs 0 = (ys, c)" using assms(2) by (simp add: knuth_normalize_def)
    have z: "unat (0 :: u32) < 2 ^ shift" by simp
    show ?thesis using shl_loop_value(1,2) [OF assms(1) z l] by (simp add: lval_append)
  qed
  then show "lval (ys @ [c]) = lval xs * 2 ^ shift" "length ys = length xs" by blast+
qed

lemma lval_snoc_last: "xs \<noteq> [] \<Longrightarrow> lval xs = lval (butlast xs) + B32 ^ (length xs - 1) * unat (last xs)"
  using lval_append [of "butlast xs" "[last xs]"] by simp

lemma knuth_normalize_divisor:
  assumes "den \<noteq> []" "last den \<noteq> 0" "knuth_normalize (clz32_nonzero (last den)) den = (vn, c)"
  shows "lval vn = lval den * 2 ^ clz32_nonzero (last den)" and "B32 ^ length den \<le> 2 * lval vn"
    and "0 < unat (last vn)" and "length vn = length den"
proof -
  define s where "s = clz32_nonzero (last den)"
  define n where "n = length den - 1"
  have n: "length den = Suc n" using assms(1) by (cases den) (simp_all add: n_def)
  note cb = clz32_bounds [OF assms(2), folded s_def]
  note nv = knuth_normalize_value [OF cb(1) assms(3) [folded s_def]]
  have den: "lval den = lval (butlast den) + B32 ^ n * unat (last den)"
    using lval_snoc_last [OF assms(1)] by (simp add: n_def)
  have "lval (butlast den) < B32 ^ n" using lval_bound [of "butlast den"] by (simp add: n_def)
  then have "lval den < B32 ^ n * (unat (last den) + 1)" by (simp add: den)
  also have "\<dots> \<le> B32 ^ n * 2 ^ (32 - s)" using cb(3) by (intro mult_le_mono2) simp
  finally have "lval den * 2 ^ s < B32 ^ n * 2 ^ (32 - s) * 2 ^ s" by simp
  also have "\<dots> = B32 ^ Suc n" using cb(1) by (simp add: mult.assoc flip: power_add)
  finally have up: "lval vn + B32 ^ Suc n * unat c < B32 ^ Suc n" using nv by (simp add: lval_append n)
  then have "c = 0" by (cases "unat c") (simp_all add: unat_eq_zero)
  then show v: "lval vn = lval den * 2 ^ clz32_nonzero (last den)" using nv by (simp add: lval_append s_def)
  have "B32 ^ Suc n = 2 * (B32 ^ n * 2 ^ (31 - s) * 2 ^ s)"
    using cb(1) by (simp add: mult.assoc flip: power_add)
  also have "\<dots> \<le> 2 * (lval den * 2 ^ s)"
    using cb(2) by (intro mult_le_mono mult_le_mono1) (simp_all add: den trans_le_add2)
  finally show "B32 ^ length den \<le> 2 * lval vn" by (simp add: n v s_def)
  show len: "length vn = length den" by (rule nv)
  show "0 < unat (last vn)"
  proof (rule ccontr)
    assume "\<not> 0 < unat (last vn)"
    then have "last vn = 0" and vne: "vn \<noteq> []" using len n by (auto simp: unat_eq_zero)
    then have "lval vn = lval (butlast vn)"
      using lval_snoc_last [of vn] vne by simp
    also have "\<dots> < B32 ^ n" using lval_bound [of "butlast vn"] len n by simp
    finally have "2 * lval vn < 2 * B32 ^ n" by simp
    also have "\<dots> \<le> B32 ^ Suc n" by simp
    finally show False using \<open>B32 ^ length den \<le> 2 * lval vn\<close> n by simp
  qed
qed

lemma shr_rev_loop_length [simp]: "length (shr_rev_loop s xs c) = length xs"
  by (induction xs arbitrary: c) auto

lemma normalized_length_le:
  assumes "normalized den" "lval den \<le> lval num" "1 < length den"
  shows "length den \<le> length num"
proof (rule ccontr)
  assume "\<not> length den \<le> length num"
  then have "length num \<le> length den - 1" using assms(3) by simp
  then have "B32 ^ length num \<le> B32 ^ (length den - 1)" by (intro power_increasing) auto
  moreover have "B32 ^ (length den - 1) \<le> lval den"
    using assms(1,3) lval_snoc_last [of den] unat_gt_0 [of "last den"]
    by (auto simp: normalized_def intro!: trans_le_add2)
  ultimately show False using lval_bound [of num] assms(2) by linarith
qed

lemma shr_limbs_value:
  assumes "shift < 32"
  shows "lval (if shift = 0 then xs else rev (shr_rev_loop shift (rev xs) 0)) = lval xs div 2 ^ shift"
  using assms shr_rev_loop_value(1) [of shift 0 "rev xs"] by auto

text \<open>The multi-limb route: what the digit loop leaves is the quotient and the scaled remainder.\<close>

lemma knuth_divmod:
  assumes num: "num \<noteq> []" and den: "length den = m + 2" "last den \<noteq> 0" and le: "length den \<le> length num"
    and vn: "knuth_normalize (clz32_nonzero (last den)) den = (vn, c)"
    and un: "knuth_normalize (clz32_nonzero (last den)) num = (un, carry)"
    and safe: "knuth_loop_safe vn (length num - length den + 1) (un @ [carry])"
    and res: "knuth_loop vn (length num - length den + 1) (un @ [carry]) (replicate (length num - length den + 1) 0) = (un', q)"
  shows "lval q = lval num div lval den"
    and "lval (take (length den) un') div 2 ^ clz32_nonzero (last den) = lval num mod lval den"
    and "length q = length num - length den + 1" and "length un' = length num + 1"
proof -
  define s where "s = clz32_nonzero (last den)"
  define k where "k = length num - length den"
  have dne: "den \<noteq> []" using den(1) by auto
  have s: "s < 32" using clz32_bounds(1) [OF den(2)] by (simp add: s_def)
  note V = knuth_normalize_divisor [OF dne den(2) vn]
  note N = knuth_normalize_value [OF s un [folded s_def]]
  have p: "B32 ^ length num = B32 ^ k * B32 ^ length den" using le by (simp add: k_def flip: power_add)
  have "lval num * 2 ^ s < B32 ^ length num * 2 ^ s" using lval_bound [of num] by simp
  also have "\<dots> \<le> B32 ^ length num * 2 ^ 31" using s by (intro mult_le_mono2 power_increasing) auto
  also have "\<dots> = B32 ^ k * 2 ^ 31 * B32 ^ length den" unfolding p by (simp only: ac_simps)
  also have "\<dots> \<le> B32 ^ k * 2 ^ 31 * (2 * lval vn)" using V(2) by (rule mult_le_mono2)
  also have "\<dots> = lval vn * B32 ^ (k + 1)" by simp
  finally have lt: "lval (un @ [carry]) < lval vn * B32 ^ (k + 1)" using N(1) by (simp only:)
  have len: "length (un @ [carry]) = length num + 1" using N(2) by simp
  have k: "k + 1 + (m + 2) \<le> length (un @ [carry])" "k + 1 \<le> length (replicate (k + 1) (0 :: u32))"
    unfolding len using den(1) le by (simp_all add: k_def)
  note K = knuth_loop_value [OF V(4) [unfolded den(1)] V(3) k lt safe [folded k_def] res [folded k_def]]
  have K': "lval (take (k + 1) q) = lval (un @ [carry]) div lval vn" "lval un' = lval (un @ [carry]) mod lval vn"
    "length un' = length num + 1" "length q = k + 1"
    using K by (simp_all only: len length_replicate)
  then show "length q = length num - length den + 1" "length un' = length num + 1" by (simp_all add: k_def)
  have "take (k + 1) q = q" using K'(4) by simp
  then have "lval q = lval num * 2 ^ s div (lval den * 2 ^ s)" using K'(1) N(1) V(1) by (simp only: s_def)
  also have "\<dots> = lval num div lval den" by (rule div_mult_mult2) simp
  finally show "lval q = lval num div lval den" .
  have "0 < B32 ^ length den" by (rule zero_less_power) simp
  also note V(2)
  finally have v: "0 < lval vn" by simp
  have r: "lval un' = (lval num mod lval den) * 2 ^ s"
    unfolding K'(2) N(1) V(1) s_def [symmetric] by (rule mult_mod_left [symmetric])
  have "lval un' < lval vn" using K'(2) v by simp
  then have "lval un' < B32 ^ length den" using lval_bound [of vn] V(4) by simp
  moreover have "lval un' = lval (take (length den) un') + B32 ^ length den * lval (drop (length den) un')"
    using K'(3) le by (intro lval_take_drop) simp
  ultimately have "B32 ^ length den * lval (drop (length den) un') < B32 ^ length den * 1"
    and e: "lval un' = lval (take (length den) un') + B32 ^ length den * lval (drop (length den) un')" by linarith+
  then have "lval (drop (length den) un') = 0" by (simp only: mult_less_cancel1 less_one)
  then have "lval (take (length den) un') = lval un'" using e by simp
  then have "lval (take (length den) un') div 2 ^ s = (lval num mod lval den) * 2 ^ s div 2 ^ s" unfolding r by (rule arg_cong)
  also have "\<dots> = lval num mod lval den" by (rule nonzero_mult_div_cancel_right) simp
  finally show "lval (take (length den) un') div 2 ^ clz32_nonzero (last den) = lval num mod lval den"
    unfolding s_def .
qed

lemma limb_alloc_some: "limb_alloc m n = Some b \<Longrightarrow> b = replicate (if n = 0 then 1 else n) 0"
  by (auto simp: limb_alloc_def Let_def split: if_splits)

lemma limb_dup_some: "xs \<noteq> [] \<Longrightarrow> limb_dup m xs = Some b \<Longrightarrow> b = xs"
  by (auto simp: limb_dup_def dest!: limb_alloc_some split: option.splits)

lemma cmp_abs_less:
  assumes "num \<noteq> []" "den \<noteq> []"
  shows "bigint_cmp_abs_limbs num den < 0 \<longleftrightarrow> lval num < lval den"
  using cmp_abs_sgn [OF assms] by (auto simp: sgn_if split: if_splits)

text \<open>What a successful call returns: quotient and remainder, with normalized counts.\<close>

definition divmod_post :: "limbs \<Rightarrow> limbs \<Rightarrow> bool \<Rightarrow> bool \<Rightarrow> limbs option \<times> limbs option \<Rightarrow> bool" where
  "divmod_post num den want_q want_r res \<longleftrightarrow>
     (if want_q then \<exists>q. fst res = Some q \<and> normalized q \<and> lval q = lval num div lval den else fst res = None) \<and>
     (if want_r then \<exists>r. snd res = Some r \<and> normalized r \<and> lval r = lval num mod lval den else snd res = None)"

lemma normalized_one [simp]: "normalized [x]"
  by (simp add: normalized_def)

lemma divmod_small_num:
  assumes "num \<noteq> []" "den \<noteq> []" "lval num < lval den"
    and "bigint_divmod_abs_limbs m num den want_q want_r = Some res"
  shows "divmod_post num den want_q want_r res"
proof -
  have c: "bigint_cmp_abs_limbs num den < 0" using cmp_abs_less [OF assms(1,2)] assms(3) by simp
  have n: "normalized (bigint_normalize_limbs num)" using assms(1) by (rule normalized_normalize)
  have nz: "\<not> (length den = 1 \<and> den ! 0 = 0)" using assms(4) by (auto simp: bigint_divmod_abs_limbs_def)
  show ?thesis
    using assms(1,3,4) c nz n unfolding bigint_divmod_abs_limbs_def divmod_post_def
    by (auto dest!: limb_alloc_some limb_dup_some [OF assms(1)] split: if_splits option.splits)
qed

lemma divmod_one_limb:
  assumes "num \<noteq> []" "length den = 1" "lval den \<noteq> 0" "lval den \<le> lval num"
    and "bigint_divmod_abs_limbs m num den want_q want_r = Some res"
  shows "divmod_post num den want_q want_r res"
proof -
  obtain d where den: "den = [d]" using assms(2) by (cases den) auto
  have d: "unat d \<noteq> 0" "d \<noteq> 0" using assms(3) by (auto simp: den)
  have c: "\<not> bigint_cmp_abs_limbs num den < 0" using cmp_abs_less [OF assms(1), of den] assms(4) den by simp
  obtain q rem where ds: "div_small_rev d (rev num) 0 = (q, rem)" by force
  then have bd: "bigint_div_small_inplace num d = (rev q, ucast rem)" by (simp add: bigint_div_small_inplace_def)
  note v = div_small_value [OF _ bd]
  have q: "rev q \<noteq> []" using v(3) d assms(1) by auto
  have vals: "lval (rev q) = lval num div unat d" "unat (ucast rem :: u32) = lval num mod unat d" using v d by simp_all
  note nq = normalized_normalize [OF q]
  show ?thesis
    using assms(5) d c vals nq ds unfolding bigint_divmod_abs_limbs_def divmod_post_def den
    by (auto simp: Let_def dest!: limb_alloc_some limb_dup_some [OF assms(1)] split: if_splits option.splits)
qed

lemma divmod_many_limbs:
  assumes num: "num \<noteq> []" and den: "normalized den" "1 < length den" and le: "lval den \<le> lval num"
    and safe: "divmod_safe num den"
    and res: "bigint_divmod_abs_limbs m num den want_q want_r = Some res"
  shows "divmod_post num den want_q want_r res"
proof -
  have ne: "den \<noteq> []" "last den \<noteq> 0" using den by (auto simp: normalized_def)
  define s where "s = clz32_nonzero (last den)"
  have s32: "s < 32" using clz32_bounds(1) [OF ne(2)] by (simp add: s_def)
  have c: "\<not> bigint_cmp_abs_limbs num den < 0" using cmp_abs_less [OF num ne(1)] le by simp
  have ll: "length den \<le> length num"
    using normalized_length_le [OF den(1) le den(2)] .
  obtain e where e: "length den = e + 2" using den(2) le_Suc_ex [of 2 "length den"] by auto
  obtain vn cv where vn: "knuth_normalize s den = (vn, cv)" by force
  obtain un cu where un: "knuth_normalize s num = (un, cu)" by force
  obtain un' q where kl: "knuth_loop vn (Suc (length num - length den)) (un @ [cu]) (replicate (Suc (length num - length den)) 0) = (un', q)"
    by (metis surj_pair)
  have sf: "knuth_loop_safe vn (length num - length den + 1) (un @ [cu])"
    using safe c den(2) vn un by (simp add: divmod_safe_def s_def)
  note K = knuth_divmod [OF num e ne(2) ll vn [unfolded s_def] un [unfolded s_def] sf kl [unfolded Suc_eq_plus1]]
  define r where "r = (if s = 0 then take (length den) un' else rev (shr_rev_loop s (rev (take (length den) un')) 0))"
  have rv: "lval r = lval num mod lval den" unfolding r_def shr_limbs_value [OF s32] using K(2) by (simp add: s_def)
  have "length r = length den" using K(4) ll shr_rev_loop_length [of s] by (simp add: r_def)
  then have nr: "normalized (bigint_normalize_limbs r)" using ne by (intro normalized_normalize) auto
  have nq: "normalized (bigint_normalize_limbs q)" using K(3) by (intro normalized_normalize) auto
  obtain va ua qa where al: "limb_alloc m (length den) = Some va" "limb_alloc m (length num + 1) = Some ua"
    "limb_alloc m (length num - length den + 1) = Some qa"
    using res c den(2) by (auto simp: bigint_divmod_abs_limbs_def Let_def split: option.splits)
  have "qa = replicate (Suc (length num - length den)) 0" using limb_alloc_some [OF al(3)] by simp
  then have "res = (if want_q then Some (bigint_normalize_limbs q) else None,
      if want_r then Some (bigint_normalize_limbs r) else None)"
    using res c den(2) al vn un kl unfolding bigint_divmod_abs_limbs_def s_def [symmetric] Let_def
    by (cases want_r; cases want_q) (auto simp: r_def simp del: knuth_loop.simps replicate_Suc)
  then show ?thesis using K(1) rv nq nr by (simp add: divmod_post_def)
qed

lemma divmod_correct:
  assumes "num \<noteq> []" "normalized den" "lval den \<noteq> 0" "divmod_safe num den"
    and "bigint_divmod_abs_limbs m num den want_q want_r = Some res"
  shows "divmod_post num den want_q want_r res"
proof (cases "lval num < lval den")
  case True
  then show ?thesis using assms(1,2,5) by (intro divmod_small_num) (auto simp: normalized_def)
next
  case False
  then have le: "lval den \<le> lval num" by simp
  consider "length den = 1" | "1 < length den" using assms(2) by (cases den) (auto simp: normalized_def)
  then show ?thesis using assms le by cases (auto intro: divmod_one_limb divmod_many_limbs)
qed

lemma divmod_granted:
  assumes "\<And>n. heap_ok m n" "normalized den" "lval den \<noteq> 0"
  shows "bigint_divmod_abs_limbs m num den want_q want_r \<noteq> None"
proof -
  have "\<not> (length den = 1 \<and> den ! 0 = 0)" using assms(2,3) by (cases den) auto
  then show ?thesis using assms(1)
    by (simp add: bigint_divmod_abs_limbs_def limb_dup_def limb_alloc_def Let_def split: prod.splits)
qed

lemma divmod_by_zero: "bigint_divmod_abs_limbs m num [0] want_q want_r = None"
  by (simp add: bigint_divmod_abs_limbs_def)

section \<open>Divisors that are powers of two\<close>

text \<open>
  The second limb of a shifted power of two is zero, so the correction loop is never entered
  and every run is safe.
\<close>

lemma knuth_loop_safe_v2_zero:
  assumes "vn ! (length vn - 2) = 0"
  shows "knuth_loop_safe vn j un"
  by (induction j arbitrary: un) (simp_all add: knuth_step_safe_def assms split: prod.splits)

lemma shl_loop_zeros: "shl_loop s (replicate n 0 @ xs) 0 = (let (r, c) = shl_loop s xs 0 in (replicate n 0 @ r, c))"
  by (induction n) (simp_all add: Let_def split: prod.splits)

lemma divmod_safe_pow2: "divmod_safe num (replicate n 0 @ [x])"
proof (cases n)
  case 0
  then show ?thesis by (simp add: divmod_safe_def)
next
  case (Suc k)
  define s where "s = clz32_nonzero x"
  obtain vn c where vn: "knuth_normalize s (replicate n 0 @ [x]) = (vn, c)" by force
  obtain y where y: "vn = replicate n 0 @ [y]"
    using vn by (auto simp: knuth_normalize_def shl_loop_zeros Let_def split: if_splits)
  then have "vn ! (length vn - 2) = 0" by (simp add: Suc nth_append nth_Cons')
  then show ?thesis using vn by (auto simp: divmod_safe_def s_def simp del: knuth_loop_safe.simps
      intro: knuth_loop_safe_v2_zero split: prod.splits)
qed

section \<open>A run that is not safe\<close>

lemma divmod_unsafe_run:
  "bigint_divmod_abs_limbs mem_granted [0, 0xFFFFFFFE, 0x80000000] [0xFFFFFFFF, 0x80000000] True True
     = Some (Some [0xFFFFFFFE], Some [0xFFFFFFFE])"
  by code_simp

end
