(* ===== verification/Bigint.thy ===== *)
theory Bigint
  imports Bigint_Div "HOL-Library.Signed_Division"
begin

text \<open>
  BigInt values and the operations on them, from \<open>src/src/modules/bigint.c\<close>: allocation of payloads,
  conversions from and to machine integers and doubles, the signed operators, shifts, bitwise
  operators and comparison. A value reads as the integer \<open>ival\<close>; \<open>bigint_wf\<close> is the invariant
  every operation keeps.
\<close>

unbundle bit_operations_syntax

section \<open>Payloads and values\<close>

text \<open>
  \<open>p_limbs\<close> is the limb array of the payload, of which the first \<open>p_limb_count\<close> are in use.
\<close>

record bigint_payload =
  p_sign :: byte
  p_limb_count :: u32
  p_limbs :: limbs

datatype js_value =
    JsBigInt bigint_payload
  | JsNumber u64
  | JsString bytes
  | JsBool bool
  | JsUndefined
  | JsOther

definition BIGINT_LIMB_SIZE :: nat where "BIGINT_LIMB_SIZE = 32"

definition bigint_is_negative :: "bigint_payload \<Rightarrow> bool" where
  "bigint_is_negative v \<longleftrightarrow> p_sign v = 1"

definition bigint_limbs :: "bigint_payload \<Rightarrow> limbs" where
  "bigint_limbs v =
     (let limb_count = unat (p_limb_count v);
          limb_count = (if limb_count = 0 then 1 else limb_count)
      in take limb_count (p_limbs v))"

definition bigint_alloc_payload :: "mem \<Rightarrow> nat \<Rightarrow> nat outcome" where
  "bigint_alloc_payload m capacity =
     (let capacity = (if capacity = 0 then 1 else capacity)
      in if capacity > UINT32_MAX then Inl oom
         else case checked_mul_size capacity 4 of
                None \<Rightarrow> Inl oom
              | Some limbs_bytes \<Rightarrow>
                  (case checked_add_size 8 limbs_bytes of
                     None \<Rightarrow> Inl oom
                   | Some payload_size \<Rightarrow>
                       if pool_ok m payload_size then Inr capacity else Inl oom))"

definition bigint_alloc_binary_payload :: "mem \<Rightarrow> nat \<Rightarrow> nat outcome" where
  "bigint_alloc_binary_payload m capacity =
     (if \<not> roots_ok m then Inl oom else bigint_alloc_payload m capacity)"

definition bigint_alloc_unary_payload :: "mem \<Rightarrow> nat \<Rightarrow> nat outcome" where
  "bigint_alloc_unary_payload m capacity =
     (if \<not> roots_ok m then Inl oom else bigint_alloc_payload m capacity)"

definition bigint_finish_payload :: "limbs \<Rightarrow> nat \<Rightarrow> bool \<Rightarrow> bigint_payload" where
  "bigint_finish_payload buf count negative =
     (let count = length (bigint_normalize_limbs (take count buf));
          negative = (if count = 1 \<and> buf ! 0 = 0 then False else negative)
      in \<lparr>p_sign = (if negative then 1 else 0), p_limb_count = word_of_nat count, p_limbs = buf\<rparr>)"

definition js_mkbigint_limbs :: "mem \<Rightarrow> limbs \<Rightarrow> bool \<Rightarrow> bigint_payload outcome" where
  "js_mkbigint_limbs m limbs negative =
     (let limbs = (if limbs = [] then [0] else limbs);
          limbs = bigint_normalize_limbs limbs
      in case bigint_alloc_payload m (length limbs) of
           Inl e \<Rightarrow> Inl e
         | Inr _ \<Rightarrow> Inr (bigint_finish_payload limbs (length limbs) negative))"

text \<open>
  The operators compute into a buffer of 32 limbs on the stack, or straight into a new payload
  when the capacity they need is larger. \<open>res\<close> is what the magnitude routine wrote and its count.
\<close>

definition buffer_limbs :: "nat \<Rightarrow> nat" where
  "buffer_limbs capacity = (if capacity > BIGINT_LIMB_SIZE then capacity else BIGINT_LIMB_SIZE)"

definition bigint_store ::
  "(mem \<Rightarrow> nat \<Rightarrow> nat outcome) \<Rightarrow> mem \<Rightarrow> nat \<Rightarrow> limbs \<times> nat \<Rightarrow> bool \<Rightarrow> bigint_payload outcome" where
  "bigint_store alloc m capacity res negative =
     (if capacity > BIGINT_LIMB_SIZE then
        (case alloc m capacity of
           Inl e \<Rightarrow> Inl e
         | Inr _ \<Rightarrow>
             if length (fst res) > buffer_limbs capacity then Inl undefined_behaviour
             else Inr (bigint_finish_payload (fst res) (snd res) negative))
      else if length (fst res) > buffer_limbs capacity then Inl undefined_behaviour
      else js_mkbigint_limbs m (take (snd res) (fst res)) negative)"

section \<open>Machine integers\<close>

definition bigint_from_uint64 :: "mem \<Rightarrow> u64 \<Rightarrow> bigint_payload outcome" where
  "bigint_from_uint64 m value =
     (let limbs = [ucast (value AND 0xffffffff), ucast (drop_bit 32 value)];
          count = (if limbs ! 1 = 0 then 1 else 2)
      in js_mkbigint_limbs m (take count limbs) False)"

text \<open>A signed 64-bit argument is its bit pattern; \<open>value < 0\<close> reads the top bit.\<close>

definition bigint_from_int64 :: "mem \<Rightarrow> u64 \<Rightarrow> bigint_payload outcome" where
  "bigint_from_int64 m value =
     (let magnitude = (if sint value < 0 then - (value + 1) + 1 else value);
          limbs = [ucast (magnitude AND 0xffffffff), ucast (drop_bit 32 magnitude)];
          count = (if limbs ! 1 = 0 then 1 else 2)
      in js_mkbigint_limbs m (take count limbs) (sint value < 0))"

definition bigint_low_u64 :: "bigint_payload \<Rightarrow> u64" where
  "bigint_low_u64 value =
     (let limbs = bigint_limbs value;
          out = (if length limbs > 0 then ucast (limbs ! 0) else 0)
      in if length limbs > 1 then out OR push_bit 32 (ucast (limbs ! 1)) else out)"

fun bigint_to_uint64_wrapping :: "js_value \<Rightarrow> u64 option" where
  "bigint_to_uint64_wrapping (JsBigInt v) =
     (let low = bigint_low_u64 v in Some (if bigint_is_negative v then 0 - low else low))"
| "bigint_to_uint64_wrapping _ = None"

definition bigint_to_int64_wrapping :: "js_value \<Rightarrow> u64 option" where
  "bigint_to_int64_wrapping value =
     (case bigint_to_uint64_wrapping value of None \<Rightarrow> None | Some bits \<Rightarrow> Some bits)"

definition bigint_parse_abs_u64 :: "bigint_payload \<Rightarrow> u64 option" where
  "bigint_parse_abs_u64 value =
     (let limbs = bigint_limbs value
      in if length limbs > 2 then None
         else let acc = ucast (limbs ! 0) :: u64
              in Some (if length limbs = 2 then acc OR push_bit 32 (ucast (limbs ! 1)) else acc))"

definition bigint_parse_u64 :: "bigint_payload \<Rightarrow> u64 option" where
  "bigint_parse_u64 value =
     (if bigint_is_negative value then None else bigint_parse_abs_u64 value)"

fun bigint_to_uint64_checked :: "js_value \<Rightarrow> u64 option" where
  "bigint_to_uint64_checked (JsBigInt v) = bigint_parse_u64 v"
| "bigint_to_uint64_checked _ = None"

fun bigint_to_int64_checked :: "js_value \<Rightarrow> u64 option" where
  "bigint_to_int64_checked (JsBigInt v) =
     (case bigint_parse_abs_u64 v of
        None \<Rightarrow> None
      | Some magnitude \<Rightarrow>
          let negative = bigint_is_negative v
          in if magnitude > 0x7fffffffffffffff + (if negative then 1 else 0) then None
             else Some (if negative \<and> magnitude \<noteq> 0 then - (magnitude - 1) - 1 else magnitude))"
| "bigint_to_int64_checked _ = None"

section \<open>The operators\<close>

definition bigint_add :: "mem \<Rightarrow> bigint_payload \<Rightarrow> bigint_payload \<Rightarrow> bigint_payload outcome" where
  "bigint_add m a b =
     (let aneg = bigint_is_negative a; bneg = bigint_is_negative b;
          ad = bigint_limbs a; bd = bigint_limbs b;
          alen = length ad; blen = length bd
      in if aneg = bneg then
           bigint_store bigint_alloc_binary_payload m ((if alen > blen then alen else blen) + 1)
             (bigint_add_abs_limbs ad bd) aneg
         else if bigint_cmp_abs_limbs ad bd \<ge> 0 then
           bigint_store bigint_alloc_binary_payload m alen (bigint_sub_abs_limbs ad bd) aneg
         else
           bigint_store bigint_alloc_binary_payload m blen (bigint_sub_abs_limbs bd ad) bneg)"

definition bigint_sub :: "mem \<Rightarrow> bigint_payload \<Rightarrow> bigint_payload \<Rightarrow> bigint_payload outcome" where
  "bigint_sub m a b =
     (let aneg = bigint_is_negative a; bneg = bigint_is_negative b;
          ad = bigint_limbs a; bd = bigint_limbs b;
          alen = length ad; blen = length bd
      in if aneg \<noteq> bneg then
           bigint_store bigint_alloc_binary_payload m ((if alen > blen then alen else blen) + 1)
             (bigint_add_abs_limbs ad bd) aneg
         else if bigint_cmp_abs_limbs ad bd \<ge> 0 then
           bigint_store bigint_alloc_binary_payload m alen (bigint_sub_abs_limbs ad bd) aneg
         else
           bigint_store bigint_alloc_binary_payload m blen (bigint_sub_abs_limbs bd ad) (\<not> aneg))"

definition bigint_mul :: "mem \<Rightarrow> bigint_payload \<Rightarrow> bigint_payload \<Rightarrow> bigint_payload outcome" where
  "bigint_mul m a b =
     (let aneg = bigint_is_negative a; bneg = bigint_is_negative b;
          ad = bigint_limbs a; bd = bigint_limbs b;
          capacity = length ad + length bd + 1
      in case bigint_mul_abs_limbs ad bd of
           None \<Rightarrow> Inl undefined_behaviour
         | Some res \<Rightarrow> bigint_store bigint_alloc_binary_payload m capacity res (aneg \<noteq> bneg))"

definition bigint_div :: "mem \<Rightarrow> bigint_payload \<Rightarrow> bigint_payload \<Rightarrow> bigint_payload outcome" where
  "bigint_div m a b =
     (let aneg = bigint_is_negative a; bneg = bigint_is_negative b;
          ad = bigint_limbs a; bd = bigint_limbs b
      in if length bd = 1 \<and> bd ! 0 = 0 then Inl (js_mkerr ''Division by zero'')
         else case bigint_divmod_abs_limbs m ad bd True False of
                Some (Some quot, _) \<Rightarrow>
                  js_mkbigint_limbs m quot
                    (aneg \<noteq> bneg \<and> \<not> (length quot = 1 \<and> quot ! 0 = 0))
              | _ \<Rightarrow> Inl oom)"

definition bigint_mod :: "mem \<Rightarrow> bigint_payload \<Rightarrow> bigint_payload \<Rightarrow> bigint_payload outcome" where
  "bigint_mod m a b =
     (let aneg = bigint_is_negative a;
          ad = bigint_limbs a; bd = bigint_limbs b
      in if length bd = 1 \<and> bd ! 0 = 0 then Inl (js_mkerr ''Division by zero'')
         else case bigint_divmod_abs_limbs m ad bd False True of
                Some (_, Some rem) \<Rightarrow>
                  js_mkbigint_limbs m rem (aneg \<and> \<not> (length rem = 1 \<and> rem ! 0 = 0))
              | _ \<Rightarrow> Inl oom)"

definition bigint_neg :: "mem \<Rightarrow> bigint_payload \<Rightarrow> bigint_payload outcome" where
  "bigint_neg m a =
     (let limbs = bigint_limbs a;
          neg = bigint_is_negative a
      in case bigint_alloc_unary_payload m (length limbs) of
           Inl e \<Rightarrow> Inl e
         | Inr _ \<Rightarrow> Inr (bigint_finish_payload limbs (length limbs) (\<not> neg)))"

definition bigint_is_odd :: "bigint_payload \<Rightarrow> bool" where
  "bigint_is_odd v \<longleftrightarrow> bigint_limbs v ! 0 AND 1 \<noteq> 0"

definition bigint_is_zero :: "bigint_payload \<Rightarrow> bool" where
  "bigint_is_zero v \<longleftrightarrow> limbs_is_zero (bigint_limbs v)"

definition bigint_compare :: "bigint_payload \<Rightarrow> bigint_payload \<Rightarrow> int" where
  "bigint_compare a b =
     (let aneg = bigint_is_negative a; bneg = bigint_is_negative b
      in if aneg \<and> \<not> bneg then -1
         else if \<not> aneg \<and> bneg then 1
         else let cmp = bigint_cmp_abs_limbs (bigint_limbs a) (bigint_limbs b)
              in if aneg then - cmp else cmp)"

definition bigint_pow2 :: "mem \<Rightarrow> u64 \<Rightarrow> bigint_payload outcome" where
  "bigint_pow2 m bits =
     (let limb_index = unat (drop_bit 5 bits)
      in if limb_index > SIZE_MAX - 1 then Inl oom
         else case limb_alloc m (limb_index + 1) of
                None \<Rightarrow> Inl oom
              | Some limbs \<Rightarrow>
                  js_mkbigint_limbs m (limbs[limb_index := push_bit (unat (bits AND 31)) 1]) False)"

definition bigint_shift_left :: "mem \<Rightarrow> bigint_payload \<Rightarrow> u64 \<Rightarrow> bigint_payload outcome" where
  "bigint_shift_left m value shift =
     (if shift = 0 then Inr value
      else let limbs = bigint_limbs value
           in if limbs_is_zero limbs then Inr value
              else let limb_shift = unat (drop_bit 5 shift)
                   in if limb_shift > SIZE_MAX - length limbs - 1 then Inl oom
                      else bigint_store bigint_alloc_unary_payload m (length limbs + limb_shift + 1)
                             (bigint_shift_left_abs limbs shift) (bigint_is_negative value))"

definition bigint_shift_right :: "mem \<Rightarrow> bigint_payload \<Rightarrow> u64 \<Rightarrow> bigint_payload outcome" where
  "bigint_shift_right m value shift =
     (if shift = 0 then Inr value
      else let limbs = bigint_limbs value
           in if limbs_is_zero limbs then Inr value
              else let neg = bigint_is_negative value;
                       limb_shift = unat (drop_bit 5 shift);
                       capacity = (if limb_shift \<ge> length limbs then 1
                                   else length limbs - limb_shift + (if neg then 1 else 0));
                       ((out, qlen), truncated) = bigint_shift_right_abs limbs shift;
                       res = (if neg \<and> truncated
                              then let r = bigint_add_u32_inplace (take qlen out) capacity 1
                                   in (r, length r)
                              else (out, qlen))
                   in if length out > buffer_limbs capacity then Inl undefined_behaviour
                      else bigint_store bigint_alloc_unary_payload m capacity res
                             (neg \<and> \<not> limbs_is_zero (take (snd res) (fst res))))"

definition bigint_shift_right_logical :: "bigint_payload \<Rightarrow> u64 \<Rightarrow> bigint_payload outcome" where
  "bigint_shift_right_logical value shift =
     Inl (js_mkerr_type ''BigInts have no unsigned right shift, use >> instead'')"

section \<open>Bitwise operators\<close>

definition bigint_bitwise_binary ::
  "mem \<Rightarrow> bigint_payload \<Rightarrow> bigint_payload \<Rightarrow> bigint_bitop \<Rightarrow> bigint_payload outcome" where
  "bigint_bitwise_binary m a b op =
     (let aneg = bigint_is_negative a; bneg = bigint_is_negative b;
          ad = bigint_limbs a; bd = bigint_limbs b;
          abit = bigint_abs_bitlen_limbs ad;
          bbit = bigint_abs_bitlen_limbs bd;
          width_bits = (if abit > bbit then abit else bbit) + 1;
          width = (width_bits + 31) div 32;
          width = (if width = 0 then 1 else width);
          result = bitwise_loop op ad aneg bd bneg 0 width 1 1;
          (result, count, negative) = bigint_twos_complement_to_magnitude result
      in bigint_store bigint_alloc_binary_payload m width (result, count) negative)"

definition bigint_bitand :: "mem \<Rightarrow> bigint_payload \<Rightarrow> bigint_payload \<Rightarrow> bigint_payload outcome" where
  "bigint_bitand m a b = bigint_bitwise_binary m a b BIGINT_BAND"

definition bigint_bitor :: "mem \<Rightarrow> bigint_payload \<Rightarrow> bigint_payload \<Rightarrow> bigint_payload outcome" where
  "bigint_bitor m a b = bigint_bitwise_binary m a b BIGINT_BOR"

definition bigint_bitxor :: "mem \<Rightarrow> bigint_payload \<Rightarrow> bigint_payload \<Rightarrow> bigint_payload outcome" where
  "bigint_bitxor m a b = bigint_bitwise_binary m a b BIGINT_BXOR"

definition bigint_bitnot :: "mem \<Rightarrow> bigint_payload \<Rightarrow> bigint_payload outcome" where
  "bigint_bitnot m value =
     (let neg = bigint_is_negative value;
          limbs = bigint_limbs value;
          bits = bigint_abs_bitlen_limbs limbs;
          width_bits = bits + 1;
          width = (width_bits + 31) div 32;
          width = (if width = 0 then 1 else width);
          result = bitnot_loop limbs neg 0 width 1;
          (result, out_count, out_neg) = bigint_twos_complement_to_magnitude result
      in bigint_store bigint_alloc_unary_payload m width (result, out_count) out_neg)"

section \<open>Values and the invariant\<close>

definition sm_int :: "bool \<Rightarrow> nat \<Rightarrow> int" where
  "sm_int neg n = (if neg then - int n else int n)"

definition ival :: "bigint_payload \<Rightarrow> int" where
  "ival v = sm_int (bigint_is_negative v) (lval (bigint_limbs v))"

definition bigint_wf :: "bigint_payload \<Rightarrow> bool" where
  "bigint_wf v \<longleftrightarrow>
     (p_sign v = 0 \<or> p_sign v = 1) \<and> 0 < p_limb_count v \<and> unat (p_limb_count v) \<le> length (p_limbs v) \<and>
     normalized (bigint_limbs v) \<and> (lval (bigint_limbs v) = 0 \<longrightarrow> p_sign v = 0)"

definition mem_ok :: "mem \<Rightarrow> bool" where
  "mem_ok m \<longleftrightarrow> (\<forall>n. heap_ok m n) \<and> (\<forall>n. pool_ok m n) \<and> roots_ok m"

text \<open>
  The contract of an operator: it returns a well-formed BigInt of the value it should have, or
  the error \<open>oom\<close>, and the error only where an allocation was refused or the result needs more
  limbs than a payload can count.
\<close>

definition yields :: "mem \<Rightarrow> nat \<Rightarrow> bigint_payload outcome \<Rightarrow> int \<Rightarrow> bool" where
  "yields m capacity res v \<longleftrightarrow>
     (case res of
        Inl e \<Rightarrow> e = oom \<and> \<not> (mem_ok m \<and> capacity \<le> UINT32_MAX)
      | Inr x \<Rightarrow> bigint_wf x \<and> ival x = v)"

lemma mem_ok_granted [simp]: "mem_ok mem_granted"
  by (simp add: mem_ok_def)

lemma sm_int_simps [simp]: "sm_int False n = int n" "sm_int True n = - int n" "sm_int b 0 = 0"
  by (simp_all add: sm_int_def)

lemma sm_int_eq_0 [simp]: "sm_int b n = 0 \<longleftrightarrow> n = 0"
  by (simp add: sm_int_def)

lemma bigint_wf_limbs: "bigint_wf v \<Longrightarrow> normalized (bigint_limbs v)"
  by (simp add: bigint_wf_def)

lemma bigint_wf_nonempty [simp]: "bigint_wf v \<Longrightarrow> bigint_limbs v \<noteq> []"
  by (simp add: bigint_wf_def normalized_def)

lemma bigint_wf_length: "bigint_wf v \<Longrightarrow> length (bigint_limbs v) \<le> UINT32_MAX"
  using unat_le_B32 [of "p_limb_count v"] by (simp add: bigint_limbs_def UINT32_MAX_def Let_def min.coboundedI2)

lemma bigint_wf_pos: "bigint_wf v \<Longrightarrow> 0 < length (bigint_limbs v)"
  by simp

lemma ival_abs: "\<bar>ival v\<bar> = int (lval (bigint_limbs v))"
  by (simp add: ival_def sm_int_def)

lemma bigint_wf_negative: "bigint_wf v \<Longrightarrow> bigint_is_negative v \<longleftrightarrow> ival v < 0"
  by (auto simp: bigint_wf_def bigint_is_negative_def ival_def)

lemma finish_payload_value:
  assumes "0 < n" "n \<le> length buf" "n \<le> UINT32_MAX"
  shows "bigint_wf (bigint_finish_payload buf n neg)"
    and "ival (bigint_finish_payload buf n neg) = sm_int neg (lval (take n buf))"
    and "bigint_limbs (bigint_finish_payload buf n neg) = bigint_normalize_limbs (take n buf)"
proof -
  define l where "l = bigint_normalize_limbs (take n buf)"
  define x where "x = bigint_finish_payload buf n neg"
  have ne: "take n buf \<noteq> []" using assms(1,2) by auto
  have nl: "normalized l" unfolding l_def using ne by (rule normalized_normalize)
  have len: "0 < length l" "length l \<le> n" "length l \<le> length buf"
    using nl length_normalize_le [of "take n buf"] assms(2) by (auto simp: l_def normalized_def)
  have tl: "take (length l) buf = l"
    using take_normalize [of "take n buf" "drop n buf"] by (simp add: l_def)
  have cnt: "unat (p_limb_count x) = length l"
    using len assms(3) by (simp add: x_def bigint_finish_payload_def Let_def l_def [symmetric] UINT32_MAX_def unsigned_of_nat take_bit_nat_eq_self)
  show limbs: "bigint_limbs (bigint_finish_payload buf n neg) = bigint_normalize_limbs (take n buf)"
    using cnt len tl by (simp add: bigint_limbs_def x_def [symmetric] l_def [symmetric]) (simp add: x_def bigint_finish_payload_def Let_def)
  have z: "length l = 1 \<and> buf ! 0 = 0 \<longleftrightarrow> lval (take n buf) = 0"
  proof -
    have "buf ! 0 = l ! 0" using len tl by (metis nth_take)
    then show ?thesis using normalized_zero_iff [OF nl] by (simp add: limbs_is_zero_def l_def)
  qed
  have sg: "p_sign x = (if lval (take n buf) = 0 then 0 else if neg then 1 else 0)"
    using z by (simp add: x_def bigint_finish_payload_def Let_def l_def)
  show "bigint_wf (bigint_finish_payload buf n neg)"
    using sg nl len cnt limbs unfolding x_def [symmetric] bigint_wf_def
    by (auto simp: l_def [symmetric] x_def [symmetric] word_less_nat_alt) (auto simp: x_def bigint_finish_payload_def Let_def l_def)
  show "ival (bigint_finish_payload buf n neg) = sm_int neg (lval (take n buf))"
    using sg limbs unfolding x_def [symmetric] ival_def bigint_is_negative_def by (simp add: x_def [symmetric] sm_int_def)
qed

lemma size_div_payload: "0 < c \<Longrightarrow> c \<le> 4294967295 \<Longrightarrow> \<not> 18446744073709551615 div c < (4 :: nat)"
  using div_le_mono2 [of c 4294967295 18446744073709551615] by simp

lemma alloc_payload_cases:
  "bigint_alloc_payload m capacity = Inr c \<Longrightarrow> capacity \<le> UINT32_MAX"
  "bigint_alloc_payload m capacity = Inl e \<Longrightarrow> e = oom \<and> \<not> (mem_ok m \<and> capacity \<le> UINT32_MAX)"
  using size_div_payload [of capacity]
  by (auto simp: bigint_alloc_payload_def checked_mul_size_def checked_add_size_def SIZE_MAX_def UINT32_MAX_def
      mem_ok_def Let_def split: if_splits option.splits)

lemma alloc_rooted_cases:
  "bigint_alloc_binary_payload m capacity = Inr c \<Longrightarrow> capacity \<le> UINT32_MAX"
  "bigint_alloc_binary_payload m capacity = Inl e \<Longrightarrow> e = oom \<and> \<not> (mem_ok m \<and> capacity \<le> UINT32_MAX)"
  "bigint_alloc_unary_payload m capacity = Inr c \<Longrightarrow> capacity \<le> UINT32_MAX"
  "bigint_alloc_unary_payload m capacity = Inl e \<Longrightarrow> e = oom \<and> \<not> (mem_ok m \<and> capacity \<le> UINT32_MAX)"
  using alloc_payload_cases [of m capacity]
  by (auto simp: bigint_alloc_binary_payload_def bigint_alloc_unary_payload_def mem_ok_def split: if_splits)

lemma mkbigint_limbs_yields:
  assumes "length limbs \<le> capacity" "0 < capacity"
  shows "yields m capacity (js_mkbigint_limbs m limbs neg) (sm_int neg (lval limbs))"
proof -
  define l where "l = bigint_normalize_limbs (if limbs = [] then [0] else limbs)"
  have n: "normalized l" "lval l = lval limbs" "length l \<le> capacity"
    using assms length_normalize_le [of "if limbs = [] then [0] else limbs"]
    by (auto simp: l_def intro!: normalized_normalize)
  have pos: "0 < length l" using n(1) by (auto simp: normalized_def)
  show ?thesis
  proof (cases "bigint_alloc_payload m (length l)")
    case (Inl e)
    then show ?thesis using alloc_payload_cases(2) [OF Inl] n(3)
      by (auto simp: js_mkbigint_limbs_def Let_def yields_def l_def [symmetric])
  next
    case (Inr c)
    then show ?thesis using alloc_payload_cases(1) [OF Inr] finish_payload_value(1,2) [of "length l" l neg] pos n
      by (simp add: js_mkbigint_limbs_def Let_def yields_def l_def [symmetric])
  qed
qed

lemma store_yields:
  assumes "0 < n" "n \<le> length buf" "length buf \<le> buffer_limbs capacity" "n \<le> capacity"
    and "\<And>c. alloc m capacity = Inr c \<Longrightarrow> capacity \<le> UINT32_MAX"
    and "\<And>e. alloc m capacity = Inl e \<Longrightarrow> e = oom \<and> \<not> (mem_ok m \<and> capacity \<le> UINT32_MAX)"
  shows "yields m capacity (bigint_store alloc m capacity (buf, n) neg) (sm_int neg (lval (take n buf)))"
proof (cases "capacity > BIGINT_LIMB_SIZE")
  case True
  show ?thesis
  proof (cases "alloc m capacity")
    case (Inl e)
    then show ?thesis using True assms(6) [OF Inl] by (simp add: bigint_store_def yields_def)
  next
    case (Inr c)
    then have "n \<le> UINT32_MAX" using assms(4,5) by (metis le_trans)
    then show ?thesis using True Inr assms(1-3) finish_payload_value(1,2) [of n buf neg]
      by (simp add: bigint_store_def yields_def)
  qed
next
  case False
  then show ?thesis using assms(1-4) mkbigint_limbs_yields [of "take n buf" capacity m neg]
    by (simp add: bigint_store_def min_absorb2)
qed

lemma store_binary_yields:
  assumes "0 < n" "n \<le> length buf" "length buf \<le> buffer_limbs capacity" "n \<le> capacity"
  shows "yields m capacity (bigint_store bigint_alloc_binary_payload m capacity (buf, n) neg) (sm_int neg (lval (take n buf)))"
  using assms alloc_rooted_cases(1,2) by (rule store_yields)

lemma store_unary_yields:
  assumes "0 < n" "n \<le> length buf" "length buf \<le> buffer_limbs capacity" "n \<le> capacity"
  shows "yields m capacity (bigint_store bigint_alloc_unary_payload m capacity (buf, n) neg) (sm_int neg (lval (take n buf)))"
  using assms alloc_rooted_cases(3,4) by (rule store_yields)

section \<open>Sign-magnitude arithmetic\<close>

text \<open>
  What the signed operators need of the magnitude routines: an adder, a subtracter for ordered
  operands and a three-way comparison. The case distinction on the signs, shared by addition and
  subtraction, is proved once from these laws.
\<close>

locale magnitude_ops =
  fixes val :: "'m \<Rightarrow> nat"
    and ok :: "'m \<Rightarrow> bool"
    and add_val :: "'m \<Rightarrow> 'm \<Rightarrow> nat"
    and sub_val :: "'m \<Rightarrow> 'm \<Rightarrow> nat"
    and cmp :: "'m \<Rightarrow> 'm \<Rightarrow> int"
  assumes add_val: "ok a \<Longrightarrow> ok b \<Longrightarrow> add_val a b = val a + val b"
    and sub_val: "ok a \<Longrightarrow> ok b \<Longrightarrow> val b \<le> val a \<Longrightarrow> sub_val a b = val a - val b"
    and cmp_sgn: "ok a \<Longrightarrow> ok b \<Longrightarrow> cmp a b = sgn (int (val a) - int (val b))"
begin

lemma cmp_ge: "ok a \<Longrightarrow> ok b \<Longrightarrow> 0 \<le> cmp a b \<longleftrightarrow> val b \<le> val a"
  by (auto simp: cmp_sgn sgn_if)

lemma sum_same: "ok a \<Longrightarrow> ok b \<Longrightarrow> sm_int s (add_val a b) = sm_int s (val a) + sm_int s (val b)"
  by (simp add: add_val sm_int_def)

lemma sum_left: "ok a \<Longrightarrow> ok b \<Longrightarrow> 0 \<le> cmp a b \<Longrightarrow> sm_int s (sub_val a b) = sm_int s (val a) + sm_int (\<not> s) (val b)"
  by (simp add: cmp_ge sub_val sm_int_def of_nat_diff)

lemma sum_right: "ok a \<Longrightarrow> ok b \<Longrightarrow> \<not> 0 \<le> cmp a b \<Longrightarrow> sm_int (\<not> s) (sub_val b a) = sm_int s (val a) + sm_int (\<not> s) (val b)"
  by (simp add: cmp_ge sub_val sm_int_def of_nat_diff)

end

definition count_val :: "limbs \<times> nat \<Rightarrow> nat" where
  "count_val r = lval (take (snd r) (fst r))"

lemma normalized_length_mono:
  assumes "normalized a" "normalized b" "lval b \<le> lval a"
  shows "length b \<le> length a"
  using normalized_length_less [OF assms(1,2)] assms(3) by (meson leD leI)

interpretation limbs: magnitude_ops lval normalized
  "\<lambda>a b. count_val (bigint_add_abs_limbs a b)" "\<lambda>a b. count_val (bigint_sub_abs_limbs a b)" bigint_cmp_abs_limbs
proof
  fix a b :: limbs
  show "count_val (bigint_add_abs_limbs a b) = lval a + lval b"
    using add_abs_limbs_value(1) [of a b] by (cases "bigint_add_abs_limbs a b") (simp add: count_val_def)
  assume ab: "normalized a" "normalized b"
  show "bigint_cmp_abs_limbs a b = sgn (int (lval a) - int (lval b))"
    using ab by (intro cmp_abs_sgn) (simp_all add: normalized_def)
  show "lval b \<le> lval a \<Longrightarrow> count_val (bigint_sub_abs_limbs a b) = lval a - lval b"
    using sub_abs_limbs_value(1) [of a b] normalized_length_mono [OF ab]
    by (cases "bigint_sub_abs_limbs a b") (simp add: count_val_def)
qed

lemma store_add_yields:
  assumes "normalized a" "normalized b"
  shows "yields m (max (length a) (length b) + 1)
    (bigint_store bigint_alloc_binary_payload m (max (length a) (length b) + 1) (bigint_add_abs_limbs a b) neg)
    (sm_int neg (count_val (bigint_add_abs_limbs a b)))"
proof -
  obtain buf n where r: "bigint_add_abs_limbs a b = (buf, n)" by force
  note v = add_abs_limbs_value [OF r]
  have "0 < n" using v(4) assms(1) by (cases a) (auto simp: normalized_def)
  moreover have "length buf \<le> buffer_limbs (max (length a) (length b) + 1)" using v(2) by (simp add: buffer_limbs_def)
  ultimately show ?thesis using v(2,3) store_binary_yields [of n buf "max (length a) (length b) + 1" m neg]
    by (simp add: r count_val_def)
qed

lemma store_sub_yields:
  assumes "normalized a" "normalized b" "lval b \<le> lval a"
  shows "yields m (length a)
    (bigint_store bigint_alloc_binary_payload m (length a) (bigint_sub_abs_limbs a b) neg)
    (sm_int neg (count_val (bigint_sub_abs_limbs a b)))"
proof -
  obtain buf n where r: "bigint_sub_abs_limbs a b = (buf, n)" by force
  note v = sub_abs_limbs_value [OF r normalized_length_mono [OF assms] assms(3)]
  have "0 < length a" using assms(1) by (auto simp: normalized_def)
  moreover have "length buf \<le> buffer_limbs (length a)" using v(2) by (simp add: buffer_limbs_def)
  ultimately show ?thesis using v(2,3) store_binary_yields [of n buf "length a" m neg]
    by (simp add: r count_val_def)
qed

lemma yields_mono: "yields m c r v \<Longrightarrow> c \<le> c' \<Longrightarrow> yields m c' r v"
  by (auto simp: yields_def split: sum.splits)

lemma max_if: "(if a > b then a else b) = max a (b :: nat)"
  by simp

lemma max_ge: "a \<le> max a b + 1" "b \<le> max a b + (1 :: nat)"
  by simp_all

text \<open>Both operators are one routine up to the sign the second operand is given.\<close>

definition bigint_signed_sum :: "mem \<Rightarrow> limbs \<Rightarrow> bool \<Rightarrow> limbs \<Rightarrow> bool \<Rightarrow> bigint_payload outcome" where
  "bigint_signed_sum m ad aneg bd bneg =
     (if aneg = bneg then
        bigint_store bigint_alloc_binary_payload m (max (length ad) (length bd) + 1) (bigint_add_abs_limbs ad bd) aneg
      else if bigint_cmp_abs_limbs ad bd \<ge> 0 then
        bigint_store bigint_alloc_binary_payload m (length ad) (bigint_sub_abs_limbs ad bd) aneg
      else bigint_store bigint_alloc_binary_payload m (length bd) (bigint_sub_abs_limbs bd ad) bneg)"

lemma signed_sum_value:
  assumes n: "normalized a" "normalized b"
  shows "yields m (max (length a) (length b) + 1) (bigint_signed_sum m a s b t) (sm_int s (lval a) + sm_int t (lval b))"
proof -
  consider (same) "t = s" | (left) "t = (\<not> s)" "0 \<le> bigint_cmp_abs_limbs a b" | (right) "t = (\<not> s)" "\<not> 0 \<le> bigint_cmp_abs_limbs a b"
    by blast
  then show ?thesis
  proof cases
    case same
    show ?thesis using store_add_yields [OF n, of m s] unfolding same limbs.sum_same [OF n]
      by (simp add: bigint_signed_sum_def)
  next
    case left
    have "lval b \<le> lval a" using left(2) limbs.cmp_ge [OF n] by simp
    from store_sub_yields [OF n this, of m s] show ?thesis
      unfolding left(1) limbs.sum_left [OF n left(2)] using left(2)
      by (intro yields_mono [OF _ max_ge(1)]) (simp add: bigint_signed_sum_def)
  next
    case right
    have "lval a \<le> lval b" using right(2) limbs.cmp_ge [OF n] by simp
    from store_sub_yields [OF n(2,1) this, of m "\<not> s"] show ?thesis
      unfolding right(1) limbs.sum_right [OF n right(2)] using right(2)
      by (intro yields_mono [OF _ max_ge(2)]) (simp add: bigint_signed_sum_def)
  qed
qed

lemma add_value:
  assumes "bigint_wf a" "bigint_wf b"
  shows "yields m (max (length (bigint_limbs a)) (length (bigint_limbs b)) + 1) (bigint_add m a b) (ival a + ival b)"
proof -
  have "bigint_add m a b = bigint_signed_sum m (bigint_limbs a) (bigint_is_negative a) (bigint_limbs b) (bigint_is_negative b)"
    unfolding bigint_add_def bigint_signed_sum_def Let_def max_if ..
  then show ?thesis unfolding ival_def using signed_sum_value [OF bigint_wf_limbs bigint_wf_limbs, OF assms] by simp
qed

lemma sub_value:
  assumes "bigint_wf a" "bigint_wf b"
  shows "yields m (max (length (bigint_limbs a)) (length (bigint_limbs b)) + 1) (bigint_sub m a b) (ival a - ival b)"
proof -
  have "bigint_sub m a b = bigint_signed_sum m (bigint_limbs a) (bigint_is_negative a) (bigint_limbs b) (\<not> bigint_is_negative b)"
    unfolding bigint_sub_def bigint_signed_sum_def Let_def max_if by (cases "bigint_is_negative a"; cases "bigint_is_negative b") simp_all
  moreover have "ival a - ival b = sm_int (bigint_is_negative a) (lval (bigint_limbs a)) + sm_int (\<not> bigint_is_negative b) (lval (bigint_limbs b))"
    by (simp add: ival_def sm_int_def)
  ultimately show ?thesis using signed_sum_value [OF bigint_wf_limbs bigint_wf_limbs, OF assms] by simp
qed

lemma mul_value:
  assumes "bigint_wf a" "bigint_wf b"
  shows "yields m (length (bigint_limbs a) + length (bigint_limbs b) + 1) (bigint_mul m a b) (ival a * ival b)"
proof -
  let ?a = "bigint_limbs a" and ?b = "bigint_limbs b"
  let ?s = "bigint_is_negative a \<noteq> bigint_is_negative b"
  obtain buf n where r: "bigint_mul_abs_limbs ?a ?b = Some (buf, n)" "lval (take n buf) = lval ?a * lval ?b"
    "length buf \<le> length ?a + length ?b + 1" "n \<le> length buf" "0 < n"
    by (rule mul_abs_limbs_value)
  have "bigint_mul m a b = bigint_store bigint_alloc_binary_payload m (length ?a + length ?b + 1) (buf, n) ?s"
    by (simp add: bigint_mul_def Let_def r(1))
  moreover have "ival a * ival b = sm_int ?s (lval (take n buf))"
    unfolding r(2) by (simp add: ival_def sm_int_def)
  moreover have "length buf \<le> buffer_limbs (length ?a + length ?b + 1)" using r(3) by (simp add: buffer_limbs_def)
  ultimately show ?thesis using store_binary_yields [of n buf "length ?a + length ?b + 1" m ?s] r(3-5) by simp
qed

section \<open>Division\<close>

lemma is_zero_value: "bigint_wf v \<Longrightarrow> bigint_is_zero v \<longleftrightarrow> ival v = 0"
  using normalized_zero_iff [OF bigint_wf_limbs] by (simp add: bigint_is_zero_def ival_def)

lemma den_zero_value: "bigint_wf v \<Longrightarrow> length (bigint_limbs v) = 1 \<and> bigint_limbs v ! 0 = 0 \<longleftrightarrow> ival v = 0"
  using is_zero_value [of v] by (simp add: bigint_is_zero_def limbs_is_zero_def)

lemma mkbigint_sign_irrelevant:
  assumes "normalized q"
  shows "sm_int (s \<and> \<not> (length q = 1 \<and> q ! 0 = 0)) (lval q) = sm_int s (lval q)"
  using normalized_zero_iff [OF assms] by (auto simp: limbs_is_zero_def sm_int_def)

lemma div_value:
  assumes "bigint_wf a" "bigint_wf b" "ival b \<noteq> 0" "divmod_safe (bigint_limbs a) (bigint_limbs b)"
  shows "yields m (length (bigint_limbs a)) (bigint_div m a b) (ival a sdiv ival b)"
proof -
  let ?a = "bigint_limbs a" and ?b = "bigint_limbs b"
  let ?s = "bigint_is_negative a \<noteq> bigint_is_negative b"
  have nz: "\<not> (length ?b = 1 \<and> ?b ! 0 = 0)" "lval ?b \<noteq> 0"
    using den_zero_value [OF assms(2)] assms(3) by (simp_all add: ival_def)
  have n: "?a \<noteq> []" "normalized ?a" "normalized ?b" using assms by (simp_all add: bigint_wf_limbs)
  show ?thesis
  proof (cases "bigint_divmod_abs_limbs m ?a ?b True False")
    case None
    then have "\<not> mem_ok m" using divmod_granted [of m ?b ?a True False] n(3) nz(2) by (auto simp: mem_ok_def)
    then show ?thesis using None nz(1) by (simp add: bigint_div_def Let_def yields_def)
  next
    case (Some res)
    then obtain q where q: "fst res = Some q" "normalized q" "lval q = lval ?a div lval ?b"
      using divmod_correct [OF n(1,3) nz(2) assms(4) Some] by (auto simp: divmod_post_def)
    have v: "sm_int (?s \<and> \<not> (length q = 1 \<and> q ! 0 = 0)) (lval q) = ival a sdiv ival b"
      unfolding mkbigint_sign_irrelevant [OF q(2)] unfolding q(3) signed_divide_int_def ival_def
      by (auto simp: sm_int_def sgn_if zdiv_int)
    have "length q \<le> length ?a" using normalized_length_mono [OF n(2) q(2)] q(3) by simp
    from mkbigint_limbs_yields [OF this, of m "?s \<and> \<not> (length q = 1 \<and> q ! 0 = 0)"]
    show ?thesis using Some q(1) nz(1) n(1) unfolding v by (cases res) (auto simp: bigint_div_def Let_def)
  qed
qed

lemma mod_value:
  assumes "bigint_wf a" "bigint_wf b" "ival b \<noteq> 0" "divmod_safe (bigint_limbs a) (bigint_limbs b)"
  shows "yields m (length (bigint_limbs a)) (bigint_mod m a b) (ival a smod ival b)"
proof -
  let ?a = "bigint_limbs a" and ?b = "bigint_limbs b"
  let ?s = "bigint_is_negative a"
  have nz: "\<not> (length ?b = 1 \<and> ?b ! 0 = 0)" "lval ?b \<noteq> 0"
    using den_zero_value [OF assms(2)] assms(3) by (simp_all add: ival_def)
  have n: "?a \<noteq> []" "normalized ?a" "normalized ?b" using assms by (simp_all add: bigint_wf_limbs)
  show ?thesis
  proof (cases "bigint_divmod_abs_limbs m ?a ?b False True")
    case None
    then have "\<not> mem_ok m" using divmod_granted [of m ?b ?a False True] n(3) nz(2) by (auto simp: mem_ok_def)
    then show ?thesis using None nz(1) by (simp add: bigint_mod_def Let_def yields_def)
  next
    case (Some res)
    then obtain r where r: "snd res = Some r" "normalized r" "lval r = lval ?a mod lval ?b"
      using divmod_correct [OF n(1,3) nz(2) assms(4) Some] by (auto simp: divmod_post_def)
    have v: "sm_int (?s \<and> \<not> (length r = 1 \<and> r ! 0 = 0)) (lval r) = ival a smod ival b"
      unfolding mkbigint_sign_irrelevant [OF r(2)] unfolding r(3) signed_modulo_int_def ival_def
      by (auto simp: sm_int_def sgn_if zmod_int)
    have "length r \<le> length ?a" using normalized_length_mono [OF n(2) r(2)] r(3) by simp
    from mkbigint_limbs_yields [OF this, of m "?s \<and> \<not> (length r = 1 \<and> r ! 0 = 0)"]
    show ?thesis using Some r(1) nz(1) n(1) unfolding v by (cases res) (auto simp: bigint_mod_def Let_def)
  qed
qed

lemma div_mod_by_zero:
  assumes "bigint_wf b" "ival b = 0"
  shows "bigint_div m a b = Inl (js_mkerr ''Division by zero'')" "bigint_mod m a b = Inl (js_mkerr ''Division by zero'')"
  using den_zero_value [OF assms(1)] assms(2) by (simp_all add: bigint_div_def bigint_mod_def Let_def)

section \<open>Negation, comparison, powers of two\<close>

lemma neg_value:
  assumes "bigint_wf a"
  shows "yields m (length (bigint_limbs a)) (bigint_neg m a) (- ival a)"
proof -
  let ?l = "bigint_limbs a"
  have f: "bigint_wf (bigint_finish_payload ?l (length ?l) (\<not> bigint_is_negative a))"
    "ival (bigint_finish_payload ?l (length ?l) (\<not> bigint_is_negative a)) = - ival a"
    using finish_payload_value(1,2) [of "length ?l" ?l "\<not> bigint_is_negative a"] bigint_wf_length [OF assms] assms
    by (auto simp: ival_def sm_int_def)
  show ?thesis
  proof (cases "bigint_alloc_unary_payload m (length ?l)")
    case (Inl e)
    then show ?thesis using alloc_rooted_cases(4) [OF Inl] by (simp add: bigint_neg_def Let_def yields_def)
  next
    case (Inr c)
    then show ?thesis using f by (simp add: bigint_neg_def Let_def yields_def)
  qed
qed

lemma compare_value:
  assumes "bigint_wf a" "bigint_wf b"
  shows "bigint_compare a b = sgn (ival a - ival b)"
proof -
  have c: "bigint_cmp_abs_limbs (bigint_limbs a) (bigint_limbs b) = sgn (int (lval (bigint_limbs a)) - int (lval (bigint_limbs b)))"
    using assms by (intro cmp_abs_sgn) simp_all
  show ?thesis
  proof (cases "bigint_is_negative a = bigint_is_negative b")
    case True
    then show ?thesis using c by (auto simp: bigint_compare_def Let_def ival_def sm_int_def sgn_if)
  next
    case False
    then show ?thesis
      using bigint_wf_negative [OF assms(1)] bigint_wf_negative [OF assms(2)] by (auto simp: bigint_compare_def Let_def)
  qed
qed

lemma is_odd_value:
  assumes "bigint_wf v"
  shows "bigint_is_odd v \<longleftrightarrow> odd (ival v)"
proof -
  obtain x xs where l: "bigint_limbs v = x # xs" using assms by (cases "bigint_limbs v") auto
  have "x AND 1 \<noteq> 0 \<longleftrightarrow> bit x 0" using and_exp_eq_0_iff_not_bit [of x 0] by simp
  also have "\<dots> \<longleftrightarrow> odd (uint x)" by (simp add: bit_unsigned_iff flip: bit_0)
  finally show ?thesis by (simp add: bigint_is_odd_def l ival_def sm_int_def)
qed

lemma pow2_value:
  "yields m (unat bits div 32 + 1) (bigint_pow2 m bits) (2 ^ unat bits)"
  "bigint_pow2 m bits = Inr x \<Longrightarrow> \<exists>n y. bigint_limbs x = replicate n 0 @ [y]"
proof -
  define k where "k = unat bits div 32"
  define r where "r = unat bits mod 32"
  have r: "r < 32" by (simp add: r_def)
  have pb: "unat (2 ^ r :: u32) = 2 ^ r"
    using r power_strict_increasing [of r 32 "2 :: nat"] unat_shl [of r "1 :: u32"] by simp
  define l where "l = replicate k 0 @ [2 ^ r :: u32]"
  have lv: "lval l = 2 ^ unat bits" unfolding shift_split k_def [symmetric] r_def [symmetric] by (simp add: l_def lval_append pb)
  have nl: "normalized l" using pb unat_eq_zero [of "2 ^ r :: u32"] by (auto simp: l_def normalized_def)
  have sz: "\<not> k > SIZE_MAX - 1"
    using div_times_less_eq_dividend [of "unat bits" 32] unat_lt_B64 [of bits] unfolding k_def SIZE_MAX_def by linarith
  have upd: "(replicate (k + 1) 0)[k := push_bit r 1] = l"
    by (simp add: l_def list_update_append flip: replicate_append_same)
  have e: "bigint_pow2 m bits = (if heap_ok m ((k + 1) * 4) then js_mkbigint_limbs m l False else Inl oom)"
    using sz upd unfolding bigint_pow2_def Let_def unat_shr_5 unat_and_31 k_def [symmetric] r_def [symmetric] limb_alloc_def
    by simp
  show "yields m (unat bits div 32 + 1) (bigint_pow2 m bits) (2 ^ unat bits)"
    using mkbigint_limbs_yields [of l "k + 1" m False] unfolding e
    by (simp add: lv) (auto simp: l_def k_def yields_def mem_ok_def)
  assume x: "bigint_pow2 m bits = Inr x"
  then have "x = bigint_finish_payload l (length l) False" "length l \<le> UINT32_MAX"
    using nl normalize_id [OF nl] alloc_payload_cases(1) unfolding e
    by (auto simp: js_mkbigint_limbs_def Let_def l_def split: if_splits sum.splits)
  then have "bigint_limbs x = l" using finish_payload_value(3) [of "length l" l False] normalize_id [OF nl] by (simp add: l_def)
  then show "\<exists>n y. bigint_limbs x = replicate n 0 @ [y]" by (auto simp: l_def)
qed

section \<open>Shifts\<close>

lemma yields_self: "bigint_wf v \<Longrightarrow> ival v = x \<Longrightarrow> yields m c (Inr v) x"
  by (simp add: yields_def)

lemma shift_left_value:
  assumes "bigint_wf v"
  shows "yields m (length (bigint_limbs v) + unat shift div 32 + 1) (bigint_shift_left m v shift) (ival v * 2 ^ unat shift)"
proof -
  let ?l = "bigint_limbs v"
  define c where "c = length ?l + unat shift div 32 + 1"
  consider (zero) "shift = 0 \<or> limbs_is_zero ?l"
    | (huge) "shift \<noteq> 0" "\<not> limbs_is_zero ?l" "unat shift div 32 > SIZE_MAX - length ?l - 1"
    | (go) "shift \<noteq> 0" "\<not> limbs_is_zero ?l" "\<not> unat shift div 32 > SIZE_MAX - length ?l - 1" by blast
  then have "yields m c (bigint_shift_left m v shift) (ival v * 2 ^ unat shift)"
  proof cases
    case zero
    then have "bigint_shift_left m v shift = Inr v" by (auto simp: bigint_shift_left_def Let_def)
    moreover have "ival v * 2 ^ unat shift = ival v" using zero is_zero_value [OF assms] by (auto simp: bigint_is_zero_def)
    ultimately show ?thesis using assms by (simp add: yields_self)
  next
    case huge
    then have "bigint_shift_left m v shift = Inl oom" by (simp add: bigint_shift_left_def Let_def unat_shr_5)
    moreover have "c > UINT32_MAX" using huge(3) unfolding c_def UINT32_MAX_def SIZE_MAX_def by linarith
    ultimately show ?thesis by (simp add: yields_def)
  next
    case go
    obtain buf n where r: "bigint_shift_left_abs ?l shift = (buf, n)" by force
    note sv = shift_left_abs_value [OF bigint_wf_nonempty [OF assms] r]
    have "0 < n" using sv(4) by (auto simp: normalized_def)
    moreover have "length buf \<le> buffer_limbs c" "length buf = c" using sv(3) by (simp_all add: c_def buffer_limbs_def)
    moreover have "bigint_shift_left m v shift = bigint_store bigint_alloc_unary_payload m c (buf, n) (bigint_is_negative v)"
      using go by (simp add: bigint_shift_left_def Let_def unat_shr_5 r c_def)
    moreover have "ival v * 2 ^ unat shift = sm_int (bigint_is_negative v) (lval (take n buf))"
      unfolding sv(1) by (simp add: ival_def sm_int_def)
    ultimately show ?thesis using store_unary_yields [of n buf c m "bigint_is_negative v"] sv(2) by simp
  qed
  then show ?thesis by (simp only: c_def)
qed

lemma floor_neg_div:
  fixes v s :: nat
  assumes "0 < s"
  shows "- int v div int s = - int (v div s + (if v mod s \<noteq> 0 then 1 else 0))"
proof -
  have "v mod s = 0 \<longleftrightarrow> int v mod int s = 0" by (metis of_nat_eq_0_iff zmod_int)
  then show ?thesis by (simp add: zdiv_zminus1_eq_if zdiv_int assms)
qed

lemma add_u32_inplace_shape:
  assumes "xs \<noteq> []" "length xs \<le> capacity"
  shows "normalized (bigint_add_u32_inplace xs capacity v)" and "length (bigint_add_u32_inplace xs capacity v) \<le> capacity"
proof -
  obtain r c where rc: "add_u32_loop xs (ucast v) = (r, c)" by force
  have len: "length r = length xs" using add_u32_loop_value [OF rc] by simp
  define r' where "r' = (if c \<noteq> 0 \<and> length xs < capacity then r @ [ucast c] else r)"
  have e: "bigint_add_u32_inplace xs capacity v = bigint_normalize_limbs r'" by (simp add: bigint_add_u32_inplace_def rc r'_def)
  have "r' \<noteq> []" "length r' \<le> capacity" using assms len by (auto simp: r'_def)
  then show "normalized (bigint_add_u32_inplace xs capacity v)" "length (bigint_add_u32_inplace xs capacity v) \<le> capacity"
    unfolding e using length_normalize_le [of r'] by (auto intro: normalized_normalize)
qed

lemma shift_right_value:
  assumes "bigint_wf v"
  shows "yields m (length (bigint_limbs v) + 1) (bigint_shift_right m v shift) (ival v div 2 ^ unat shift)"
proof (cases "shift = 0 \<or> limbs_is_zero (bigint_limbs v)")
  case True
  then have "bigint_shift_right m v shift = Inr v" by (auto simp: bigint_shift_right_def Let_def)
  moreover have "ival v div 2 ^ unat shift = ival v" using True is_zero_value [OF assms] by (auto simp: bigint_is_zero_def)
  ultimately show ?thesis using assms by (simp add: yields_self)
next
  case False
  let ?l = "bigint_limbs v" and ?neg = "bigint_is_negative v"
  define k where "k = unat shift div 32"
  define c where "c = (if k \<ge> length ?l then 1 else length ?l - k + (if ?neg then 1 else 0))"
  obtain out n lost where r: "bigint_shift_right_abs ?l shift = ((out, n), lost)" by (metis surj_pair)
  note sv = shift_right_abs_value [OF bigint_wf_nonempty [OF assms] r]
  have n0: "0 < n" using sv(4) by (auto simp: normalized_def)
  have lo: "length out \<le> c" "0 < c" using sv(5) by (auto simp: c_def k_def)
  define res where "res = (if ?neg \<and> lost then (let a = bigint_add_u32_inplace (take n out) c 1 in (a, length a)) else (out, n))"
  have res: "0 < snd res \<and> snd res \<le> length (fst res) \<and> length (fst res) \<le> c \<and> normalized (take (snd res) (fst res)) \<and>
      lval (take (snd res) (fst res)) = lval ?l div 2 ^ unat shift + (if ?neg \<and> lost then 1 else 0)"
  proof (cases "?neg \<and> lost")
    case True
    have bd: "lval (take n out) + unat (1 :: u32) < B32 ^ c"
    proof (cases "k \<ge> length ?l")
      case far: True
      then have "out = [0]" "c = 1" using r by (auto simp: bigint_shift_right_abs_def Let_def unat_shr_5 c_def k_def split: if_splits)
      then show ?thesis by (cases n) simp_all
    next
      case False
      then have c: "c = Suc (length out)" using sv(5) True by (simp add: c_def k_def)
      have "lval (take n out) < B32 ^ length (take n out)" by (rule lval_bound)
      also have "\<dots> \<le> B32 ^ length out" by (intro power_increasing) auto
      finally show ?thesis using one_le_power [of B32 "length out"] by (simp add: c)
    qed
    let ?a = "bigint_add_u32_inplace (take n out) c 1"
    have ne: "take n out \<noteq> []" "length (take n out) \<le> c" using n0 sv(2) lo by auto
    note sh = add_u32_inplace_shape [OF ne, of 1]
    have "lval ?a = lval ?l div 2 ^ unat shift + 1" using add_u32_inplace_value [OF bd ne(2)] sv(1) by simp
    moreover have "0 < length ?a" using sh(1) by (auto simp: normalized_def)
    ultimately show ?thesis using True sh by (simp add: res_def Let_def)
  next
    case False
    then have "res = (out, n)" by (auto simp: res_def)
    then show ?thesis using False n0 sv lo by auto
  qed
  have st: "bigint_shift_right m v shift = bigint_store bigint_alloc_unary_payload m c (fst res, snd res)
      (?neg \<and> \<not> limbs_is_zero (take (snd res) (fst res)))"
    using False r lo unfolding bigint_shift_right_def Let_def unat_shr_5 k_def [symmetric] c_def [symmetric]
    by (auto simp: res_def Let_def buffer_limbs_def)
  have "sm_int (?neg \<and> \<not> limbs_is_zero (take (snd res) (fst res))) (lval (take (snd res) (fst res)))
      = sm_int ?neg (lval (take (snd res) (fst res)))"
    using normalized_zero_iff res by (auto simp: sm_int_def)
  also have "\<dots> = ival v div 2 ^ unat shift"
    using res sv(3) floor_neg_div [of "2 ^ unat shift" "lval ?l"] by (auto simp: ival_def sm_int_def zdiv_int)
  finally have val: "sm_int (?neg \<and> \<not> limbs_is_zero (take (snd res) (fst res))) (lval (take (snd res) (fst res)))
      = ival v div 2 ^ unat shift" .
  have "yields m c (bigint_shift_right m v shift) (ival v div 2 ^ unat shift)"
    unfolding st val [symmetric] using res by (intro store_unary_yields) (auto simp: buffer_limbs_def)
  moreover have "c \<le> length ?l + 1" by (auto simp: c_def)
  ultimately show ?thesis by (rule yields_mono)
qed

section \<open>Bitwise operators\<close>

text \<open>The width leaves a sign bit above both operands, and never exceeds one limb more than either.\<close>

lemma width_bounds:
  fixes bits :: nat
  defines "w \<equiv> (bits + 1 + 31) div 32"
  shows "0 < w" "bits \<le> 32 * w - 1" "w \<le> bits div 32 + 1"
proof -
  have w: "w = bits div 32 + 1" by (simp add: w_def)
  show "0 < w" "w \<le> bits div 32 + 1" by (simp_all add: w)
  show "bits \<le> 32 * w - 1" unfolding w using dividend_less_times_div [of 32 bits] by simp
qed

lemma bitlen_le_length:
  assumes "limbs \<noteq> []"
  shows "bigint_abs_bitlen_limbs limbs \<le> 32 * length limbs"
proof -
  have "length (bigint_normalize_limbs limbs) \<le> length limbs" by (rule length_normalize_le)
  moreover have "0 < length (bigint_normalize_limbs limbs)" using normalized_normalize [OF assms] by (auto simp: normalized_def)
  ultimately show ?thesis
    by (cases "length (bigint_normalize_limbs limbs)") (auto simp: bigint_abs_bitlen_limbs_def Let_def)
qed

lemma bitlen_abs_less:
  assumes "limbs \<noteq> []" "bigint_abs_bitlen_limbs limbs \<le> n"
  shows "lval limbs < 2 ^ n"
proof (cases "lval limbs = 0")
  case False
  have "lval limbs < 2 ^ bigint_abs_bitlen_limbs limbs" using bitlen_bounds(2) [OF assms(1) False] .
  also have "\<dots> \<le> 2 ^ n" using assms(2) by (intro power_increasing) auto
  finally show ?thesis .
qed simp

lemma to_magnitude_store:
  assumes "limbs \<noteq> []" "s = signed_take_bit (32 * length limbs - 1) (int (lval limbs))"
    and "bigint_twos_complement_to_magnitude limbs = (out, n, neg)"
  shows "0 < n" "n \<le> length out" "length out = length limbs" "sm_int neg (lval (take n out)) = s"
proof -
  note v = to_magnitude_value [OF assms(1,3), folded assms(2)]
  show "0 < n" using v(4) by (auto simp: normalized_def)
  show "n \<le> length out" "length out = length limbs" by (fact v)+
  show "sm_int neg (lval (take n out)) = s" using v(1,2) by (auto simp: sm_int_def)
qed

lemma bitwise_value:
  assumes "bigint_wf a" "bigint_wf b"
  shows "yields m (max (length (bigint_limbs a)) (length (bigint_limbs b)) + 1)
    (bigint_bitwise_binary m a b op) (bitop_int op (ival a) (ival b))"
proof -
  let ?a = "bigint_limbs a" and ?b = "bigint_limbs b"
  let ?an = "bigint_is_negative a" and ?bn = "bigint_is_negative b"
  define bits where "bits = max (bigint_abs_bitlen_limbs ?a) (bigint_abs_bitlen_limbs ?b)"
  define w where "w = (bits + 1 + 31) div 32"
  note wb = width_bounds [of bits, folded w_def]
  define r where "r = bitwise_loop op ?a ?an ?b ?bn 0 w 1 1"
  obtain out n neg where m: "bigint_twos_complement_to_magnitude r = (out, n, neg)" by (metis prod_cases3)
  have lt: "lval ?a < 2 ^ (32 * w - 1)" "lval ?b < 2 ^ (32 * w - 1)"
    using wb(2) assms by (auto intro!: bitlen_abs_less simp: bits_def)
  have "(2 :: nat) ^ (32 * w - 1) \<le> 2 ^ (32 * w)" by (intro power_increasing) auto
  then have lt': "lval ?a < B32 ^ w" "lval ?b < B32 ^ w" unfolding pow_B32(2) using lt less_le_trans by blast+
  have abs: "\<bar>ival a\<bar> < 2 ^ (32 * w - 1)" "\<bar>ival b\<bar> < 2 ^ (32 * w - 1)"
    using lt unfolding ival_abs by (simp_all flip: of_nat_power)
  have len: "length r = w" by (simp add: r_def bitwise_loop_twos)
  have "int (lval r) = take_bit (32 * w) (bitop_int op (ival a) (ival b))"
    unfolding r_def bitwise_loop_twos using twos_limbs_value [OF lt'(1), of ?an] twos_limbs_value [OF lt'(2), of ?bn]
    by (simp add: lval_map2_bitop bitop_take_bit ival_def sm_int_def)
  moreover have "signed_take_bit (32 * w - 1) (take_bit (32 * w) (bitop_int op (ival a) (ival b))) =
      signed_take_bit (32 * w - 1) (bitop_int op (ival a) (ival b))"
    using wb(1) by (auto simp: signed_take_bit_take_bit)
  moreover have "signed_take_bit (32 * w - 1) (bitop_int op (ival a) (ival b)) = bitop_int op (ival a) (ival b)"
    using abs by (intro bitop_signed_range) auto
  ultimately have s: "bitop_int op (ival a) (ival b) = signed_take_bit (32 * length r - 1) (int (lval r))" by (simp only: len)
  note M = to_magnitude_store [OF _ s m]
  have "r \<noteq> []" using len wb(1) by auto
  then have "yields m w (bigint_store bigint_alloc_binary_payload m w (out, n) neg) (bitop_int op (ival a) (ival b))"
    using store_binary_yields [of n out w m neg] M len by (simp add: buffer_limbs_def)
  moreover have "bigint_bitwise_binary m a b op = bigint_store bigint_alloc_binary_payload m w (out, n) neg"
    using m wb(1) unfolding bigint_bitwise_binary_def Let_def max_if bits_def [symmetric] w_def [symmetric] by (simp add: r_def)
  moreover have "w \<le> max (length ?a) (length ?b) + 1"
  proof -
    have "bits \<le> 32 * max (length ?a) (length ?b)"
      using bitlen_le_length [of ?a] bitlen_le_length [of ?b] assms by (auto simp: bits_def)
    then have "bits div 32 \<le> max (length ?a) (length ?b)" using div_le_mono [of bits _ 32] by fastforce
    then show ?thesis using wb(3) by simp
  qed
  ultimately show ?thesis by (simp add: yields_mono)
qed

lemma bitnot_value:
  assumes "bigint_wf v"
  shows "yields m (length (bigint_limbs v) + 1) (bigint_bitnot m v) (NOT (ival v))"
proof -
  let ?l = "bigint_limbs v" and ?neg = "bigint_is_negative v"
  define bits where "bits = bigint_abs_bitlen_limbs ?l"
  define w where "w = (bits + 1 + 31) div 32"
  note wb = width_bounds [of bits, folded w_def]
  define r where "r = bitnot_loop ?l ?neg 0 w 1"
  obtain out n neg where m: "bigint_twos_complement_to_magnitude r = (out, n, neg)" by (metis prod_cases3)
  have lt: "lval ?l < 2 ^ (32 * w - 1)" using wb(2) assms by (auto intro!: bitlen_abs_less simp: bits_def)
  have "(2 :: nat) ^ (32 * w - 1) \<le> 2 ^ (32 * w)" by (intro power_increasing) auto
  then have lt': "lval ?l < B32 ^ w" unfolding pow_B32(2) using lt less_le_trans by blast
  have abs: "\<bar>ival v\<bar> < 2 ^ (32 * w - 1)" using lt unfolding ival_abs by (simp flip: of_nat_power)
  have len: "length r = w" by (simp add: r_def bitnot_loop_twos)
  have "int (lval r) = take_bit (32 * w) (NOT (take_bit (32 * w) (ival v)))"
    unfolding r_def bitnot_loop_twos using twos_limbs_value [OF lt', of ?neg] by (simp add: lval_map_not ival_def sm_int_def)
  then have "int (lval r) = take_bit (32 * w) (NOT (ival v))" by (simp add: take_bit_not_take_bit)
  moreover have "signed_take_bit (32 * w - 1) (take_bit (32 * w) (NOT (ival v))) = signed_take_bit (32 * w - 1) (NOT (ival v))"
    using wb(1) by (auto simp: signed_take_bit_take_bit)
  moreover have "signed_take_bit (32 * w - 1) (NOT (ival v)) = NOT (ival v)"
    using abs by (intro signed_take_bit_int_eq_self) (auto simp: not_int_def)
  ultimately have s: "NOT (ival v) = signed_take_bit (32 * length r - 1) (int (lval r))" by (simp only: len)
  note M = to_magnitude_store [OF _ s m]
  have "r \<noteq> []" using len wb(1) by auto
  then have "yields m w (bigint_store bigint_alloc_unary_payload m w (out, n) neg) (NOT (ival v))"
    using store_unary_yields [of n out w m neg] M len by (simp add: buffer_limbs_def)
  moreover have "bigint_bitnot m v = bigint_store bigint_alloc_unary_payload m w (out, n) neg"
    using m wb(1) unfolding bigint_bitnot_def Let_def bits_def [symmetric] w_def [symmetric] by (simp add: r_def)
  moreover have "w \<le> length ?l + 1"
  proof -
    have "bits div 32 \<le> length ?l" using bitlen_le_length [of ?l] assms div_le_mono [of bits "32 * length ?l" 32] by (simp add: bits_def)
    then show ?thesis using wb(3) by simp
  qed
  ultimately show ?thesis by (simp add: yields_mono)
qed

section \<open>Canonical form\<close>

lemma canonical:
  assumes "bigint_wf a" "bigint_wf b" "ival a = ival b"
  shows "bigint_limbs a = bigint_limbs b" "p_sign a = p_sign b"
proof -
  have v: "lval (bigint_limbs a) = lval (bigint_limbs b)" using assms(3) ival_abs [of a] ival_abs [of b] by simp
  note n = bigint_wf_limbs [OF assms(1)] bigint_wf_limbs [OF assms(2)]
  have "length (bigint_limbs a) = length (bigint_limbs b)"
    using normalized_length_mono [OF n] normalized_length_mono [OF n(2,1)] v by simp
  then show "bigint_limbs a = bigint_limbs b" using v by (rule lval_inj)
  show "p_sign a = p_sign b"
    using assms bigint_wf_negative [OF assms(1)] bigint_wf_negative [OF assms(2)] by (auto simp: bigint_wf_def bigint_is_negative_def)
qed

section \<open>Machine integers\<close>

lemma u64_limbs_value:
  fixes x :: u64
  defines "l \<equiv> [ucast (x AND 0xffffffff), ucast (drop_bit 32 x)] :: limbs"
  shows "lval (take (if l ! 1 = 0 then 1 else 2) l) = unat x" and "0 < length (take (if l ! 1 = 0 then 1 else 2) l)"
    "length (take (if l ! 1 = 0 then 1 else 2) l) \<le> 2"
proof -
  have lo: "unat (ucast (x AND 0xffffffff) :: u32) = unat x mod B32" by (simp add: unat_ops)
  have hi: "unat (ucast (drop_bit 32 x) :: u32) = unat x div B32"
    using unat_lt_B64 [of x] by (simp add: unat_ops less_mult_imp_div_less del: unat_lt_B64)
  have "lval l = unat x" by (simp add: l_def lo hi)
  moreover have "l ! 1 = 0 \<Longrightarrow> unat x div B32 = 0" using hi by (simp add: l_def)
  ultimately show "lval (take (if l ! 1 = 0 then 1 else 2) l) = unat x" by (auto simp: l_def lo hi)
  show "0 < length (take (if l ! 1 = 0 then 1 else 2) l)" "length (take (if l ! 1 = 0 then 1 else 2) l) \<le> 2" by (simp_all add: l_def)
qed

lemma from_uint64_value: "yields m 2 (bigint_from_uint64 m x) (int (unat x))"
  unfolding bigint_from_uint64_def Let_def
  using mkbigint_limbs_yields [OF u64_limbs_value(3) [of x], of m False] unfolding u64_limbs_value(1) by simp

lemma take_bit_uint64: "take_bit 64 (uint (x :: u64)) = uint x"
  using unsigned_less [of x, where ?'a = int] by (simp add: take_bit_int_eq_self_iff)

lemma int64_magnitude:
  fixes x :: u64
  assumes "sint x < 0"
  shows "- (x + 1) + 1 = - x" and "int (unat (- x)) = - sint x"
proof -
  show "- (x + 1) + 1 = - x" by simp
  have x: "x \<noteq> 0" using assms by auto
  have "bit x 63" using assms bit_last_iff [of x] by simp
  then have s: "sint x = uint x - 2 ^ 64"
    using signed_take_bit_eq_take_bit_minus [of 63 "uint x"] by (simp add: sint_uint bit_uint_iff take_bit_uint64)
  have "uint x mod 2 ^ 64 = uint x" using take_bit_uint64 [of x] by (simp only: take_bit_eq_mod)
  moreover have "uint x \<noteq> 0" using x by (simp add: uint_0_iff)
  ultimately have "uint (- x) = 2 ^ 64 - uint x" by (simp add: uint_word_ariths zmod_zminus1_eq_if)
  then show "int (unat (- x)) = - sint x" using s by simp
qed

lemma from_int64_value: "yields m 2 (bigint_from_int64 m x) (sint x)"
proof (cases "sint x < 0")
  case True
  then show ?thesis
    using mkbigint_limbs_yields [OF u64_limbs_value(3) [of "- x"], of m True] int64_magnitude [OF True]
    unfolding u64_limbs_value(1) bigint_from_int64_def Let_def by simp
next
  case False
  have "\<not> bit x 63" using False bit_last_iff [of x] by simp
  then have "sint x = int (unat x)"
    using signed_take_bit_eq_take_bit_minus [of 63 "uint x"] by (simp add: sint_uint bit_uint_iff take_bit_uint64)
  then show ?thesis
    using False mkbigint_limbs_yields [OF u64_limbs_value(3) [of x], of m False]
    unfolding u64_limbs_value(1) bigint_from_int64_def Let_def by simp
qed

lemma unat_two_limbs: "unat (ucast x OR push_bit 32 (ucast y) :: u64) = unat (x :: u32) + B32 * unat (y :: u32)"
  using unat_shl_or [of "ucast y :: u64" 32 "ucast x"] by (simp add: or.commute)

lemma low_u64_value:
  assumes "bigint_wf v"
  shows "unat (bigint_low_u64 v) = lval (bigint_limbs v) mod 2 ^ 64"
proof -
  consider x where "bigint_limbs v = [x]" | x y zs where "bigint_limbs v = x # y # zs"
    using assms by (cases "bigint_limbs v"; cases "tl (bigint_limbs v)") auto
  then show ?thesis
  proof cases
    case (1 x)
    then show ?thesis using unat_lt_B32 [of x] by (simp add: bigint_low_u64_def del: unat_lt_B32)
  next
    case (2 x y zs)
    have "unat x + B32 * unat y < 2 ^ 64" using unat_le_B32 [of x] unat_le_B32 [of y] by simp
    moreover have "lval (bigint_limbs v) = unat x + B32 * unat y + 2 ^ 64 * lval zs" using 2 by simp
    ultimately have "lval (bigint_limbs v) mod 2 ^ 64 = unat x + B32 * unat y" by (simp only: mod_mult_self2 mod_less)
    then show ?thesis using 2 by (simp add: bigint_low_u64_def unat_two_limbs)
  qed
qed

lemma to_uint64_wrapping_value:
  assumes "bigint_wf v"
  shows "\<exists>w. bigint_to_uint64_wrapping (JsBigInt v) = Some w \<and> int (unat w) = ival v mod 2 ^ 64"
proof -
  have l: "uint (bigint_low_u64 v) = int (lval (bigint_limbs v)) mod 2 ^ 64"
    using arg_cong [OF low_u64_value [OF assms], of int] by (simp add: zmod_int)
  show ?thesis
  proof (cases "bigint_is_negative v")
    case True
    have "uint (- bigint_low_u64 v) = (- uint (bigint_low_u64 v)) mod 2 ^ 64" by (simp add: uint_word_ariths)
    then show ?thesis using True l by (simp add: ival_def mod_minus_eq)
  qed (simp add: l ival_def)
qed

lemma parse_abs_u64_value:
  assumes "bigint_wf v"
  shows "if lval (bigint_limbs v) < 2 ^ 64 then \<exists>w. bigint_parse_abs_u64 v = Some w \<and> unat w = lval (bigint_limbs v)
    else bigint_parse_abs_u64 v = None"
proof -
  consider x where "bigint_limbs v = [x]" | x y where "bigint_limbs v = [x, y]" | "length (bigint_limbs v) > 2"
    using assms by (cases "bigint_limbs v"; cases "tl (bigint_limbs v)"; cases "tl (tl (bigint_limbs v))") auto
  then show ?thesis
  proof cases
    case (1 x)
    have "unat x < 2 ^ 64" using unat_lt_B32 [of x] by (simp del: unat_lt_B32)
    then show ?thesis using 1 by (simp add: bigint_parse_abs_u64_def)
  next
    case (2 x y)
    have "unat x + B32 * unat y < 2 ^ 64" using unat_le_B32 [of x] unat_le_B32 [of y] by simp
    then show ?thesis using 2 by (simp add: bigint_parse_abs_u64_def unat_two_limbs)
  next
    case 3
    have n: "normalized (bigint_limbs v)" using assms by (rule bigint_wf_limbs)
    have "B32 ^ 2 \<le> B32 ^ (length (bigint_limbs v) - 1)" using 3 by (intro power_increasing) auto
    also have "\<dots> \<le> lval (bigint_limbs v)" using n 3 by (intro lval_last_pos) (auto simp: normalized_def)
    finally have "\<not> lval (bigint_limbs v) < 2 ^ 64" by simp
    then show ?thesis using 3 by (simp add: bigint_parse_abs_u64_def Let_def)
  qed
qed

lemma to_uint64_checked_value:
  assumes "bigint_wf v"
  shows "if 0 \<le> ival v \<and> ival v < 2 ^ 64 then \<exists>w. bigint_to_uint64_checked (JsBigInt v) = Some w \<and> uint w = ival v
    else bigint_to_uint64_checked (JsBigInt v) = None"
proof (cases "bigint_is_negative v")
  case True
  then show ?thesis using bigint_wf_negative [OF assms] by (simp add: bigint_parse_u64_def)
next
  case False
  then have i: "ival v = int (lval (bigint_limbs v))" by (simp add: ival_def)
  have u: "uint w = int (unat w)" for w :: u64 by simp
  show ?thesis using parse_abs_u64_value [OF assms] False
    by (auto simp: bigint_parse_u64_def i u simp del: of_nat_unat uint_nat split: if_splits)
qed

lemma sint_minus_small:
  fixes w :: u64
  assumes "uint w \<le> 2 ^ 63"
  shows "sint (- w) = - uint w" and "uint w < 2 ^ 63 \<Longrightarrow> sint w = uint w"
proof -
  have pos: "0 \<le> uint w" by simp
  have "sint (word_of_int (- uint w) :: u64) = signed_take_bit 63 (- uint w)" by (subst signed_of_int) simp
  also have "\<dots> = - uint w"
    using assms le_less_trans [of "- uint w" 0 "2 ^ 63"] by (intro signed_take_bit_int_eq_self) simp_all
  finally show "sint (- w) = - uint w" by simp
  assume "uint w < 2 ^ 63"
  then have "signed_take_bit 63 (uint w) = uint w" using pos by (intro signed_take_bit_int_eq_self) linarith+
  then show "sint w = uint w" by (simp add: sint_uint)
qed

lemma to_int64_checked_value:
  assumes "bigint_wf v"
  shows "if - (2 ^ 63) \<le> ival v \<and> ival v < 2 ^ 63 then \<exists>w. bigint_to_int64_checked (JsBigInt v) = Some w \<and> sint w = ival v
    else bigint_to_int64_checked (JsBigInt v) = None"
proof (cases "bigint_parse_abs_u64 v")
  case None
  then have "\<not> lval (bigint_limbs v) < 2 ^ 64" using parse_abs_u64_value [OF assms] by (auto split: if_splits)
  then have "\<not> \<bar>ival v\<bar> < 2 ^ 64" unfolding ival_abs by simp
  then show ?thesis using None by auto
next
  case (Some w)
  have w: "uint w = \<bar>ival v\<bar>"
    unfolding ival_abs using parse_abs_u64_value [OF assms] Some by (auto simp: uint_nat simp del: of_nat_unat split: if_splits)
  have cmp: "w > 0x7fffffffffffffff \<longleftrightarrow> 2 ^ 63 \<le> \<bar>ival v\<bar>" "w > 0x8000000000000000 \<longleftrightarrow> 2 ^ 63 < \<bar>ival v\<bar>"
    unfolding word_less_def w [symmetric] by auto
  have neg: "bigint_is_negative v \<longleftrightarrow> ival v < 0" using assms by (rule bigint_wf_negative)
  show ?thesis
  proof (cases "ival v < 0")
    case True
    then have nz: "w \<noteq> 0" using w by auto
    have "- (w - 1) - 1 = - w" by simp
    then show ?thesis using True nz Some cmp neg w sint_minus_small(1) [of w] by auto
  next
    case False
    then show ?thesis using Some cmp neg w sint_minus_small(2) [of w] by auto
  qed
qed

end
