(* ===== verification/Bigint_Double.thy ===== *)
theory Bigint_Double
  imports Bigint
begin

text \<open>
  Conversions between BigInts and doubles, from \<open>src/src/modules/bigint.c\<close>. A double is its IEEE 754
  bit pattern; a double the code computes is its sign, an integer significand and a power of two.
\<close>

unbundle bit_operations_syntax

section \<open>Doubles\<close>

definition dbl_exp_bits :: "u64 \<Rightarrow> nat" where
  "dbl_exp_bits b = unat (drop_bit 52 b AND 0x7ff)"

definition dbl_frac :: "u64 \<Rightarrow> nat" where
  "dbl_frac b = unat (b AND 0xfffffffffffff)"

definition dbl_sign :: "u64 \<Rightarrow> bool" where
  "dbl_sign b = bit b 63"

definition dbl_isfinite :: "u64 \<Rightarrow> bool" where
  "dbl_isfinite b \<longleftrightarrow> dbl_exp_bits b \<noteq> 0x7ff"

text \<open>The magnitude of a finite double, in units of the smallest subnormal \<open>2 ^ -1074\<close>.\<close>

definition dbl_scaled :: "u64 \<Rightarrow> nat" where
  "dbl_scaled b =
     (if dbl_exp_bits b = 0 then dbl_frac b
      else (2 ^ 52 + dbl_frac b) * 2 ^ (dbl_exp_bits b - 1))"

definition dbl_is_integral :: "u64 \<Rightarrow> bool" where
  "dbl_is_integral b \<longleftrightarrow> dbl_scaled b mod 2 ^ 1074 = 0"

definition dbl_int :: "u64 \<Rightarrow> int" where
  "dbl_int b = sm_int (dbl_sign b) (dbl_scaled b div 2 ^ 1074)"

datatype cdouble = Finite bool nat nat | HugeVal bool

section \<open>To double\<close>

definition bigint_to_double :: "bigint_payload \<Rightarrow> cdouble" where
  "bigint_to_double v =
     (let limbs = bigint_limbs v;
          bit_length = bigint_abs_bitlen_limbs limbs
      in if bit_length = 0 then Finite False 0 0
         else
           let discarded_bits = (if bit_length > 53 then bit_length - 53 else 0);
               significand = bigint_extract_u64 limbs discarded_bits;
               (significand, bit_length) =
                 (if discarded_bits \<noteq> 0 \<and> bigint_should_round_up limbs discarded_bits significand
                  then let significand = significand + 1
                       in if significand = push_bit 53 1
                          then (drop_bit 1 significand, bit_length + 1)
                          else (significand, bit_length)
                  else (significand, bit_length));
               neg = bigint_is_negative v
           in if bit_length \<le> 53 then Finite neg (unat significand) 0
              else if bit_length > 1024 then HugeVal neg
              else Finite neg (unat significand) (bit_length - 53))"

section \<open>From double\<close>

definition DOUBLE_LIMB_CAP :: nat where "DOUBLE_LIMB_CAP = 33"

fun dbl_fill :: "nat \<Rightarrow> nat \<Rightarrow> u32 list \<Rightarrow> nat \<Rightarrow> limbs \<Rightarrow> limbs outcome" where
  "dbl_fill word_shift bit_shift [] i limbs = Inr limbs"
| "dbl_fill word_shift bit_shift (part # parts) i limbs =
     (if part = 0 then dbl_fill word_shift bit_shift parts (Suc i) limbs
      else let dst = word_shift + i
           in if dst \<ge> DOUBLE_LIMB_CAP then Inl (js_mkerr ''BigInt is too large'')
              else let limbs = limbs[dst := limbs ! dst OR push_bit bit_shift part]
                   in if bit_shift \<noteq> 0
                      then if dst + 1 \<ge> DOUBLE_LIMB_CAP then Inl (js_mkerr ''BigInt is too large'')
                           else dbl_fill word_shift bit_shift parts (Suc i)
                                  (limbs[dst + 1 := limbs ! (dst + 1) OR drop_bit (32 - bit_shift) part])
                      else dbl_fill word_shift bit_shift parts (Suc i) limbs)"

definition bigint_from_integral_double :: "mem \<Rightarrow> u64 \<Rightarrow> bigint_payload outcome" where
  "bigint_from_integral_double m value =
     (if \<not> dbl_isfinite value \<or> \<not> dbl_is_integral value
      then Inl (js_mkerr ''Cannot convert non-integral double to BigInt'')
      else
        let negative = dbl_sign value
        in if dbl_scaled value = 0 then bigint_from_uint64 m 0
           else
             let exp_bits = unat (drop_bit 52 value AND 0x7ff)
             in if exp_bits = 0 then bigint_from_uint64 m 0
                else
                  let mantissa = (value AND 0x000fffffffffffff) OR push_bit 52 1;
                      exp = int exp_bits - 1023
                  in if exp < 52 then
                       let magnitude = drop_bit (nat (52 - exp)) mantissa
                       in js_mkbigint_limbs m
                            (take (if magnitude > 0xffffffff then 2 else 1)
                               [ucast (magnitude AND 0xffffffff), ucast (drop_bit 32 magnitude)])
                            negative
                     else
                       let shift = nat (exp - 52);
                           parts = [ucast (mantissa AND 0xffffffff), ucast (drop_bit 32 mantissa)]
                       in case dbl_fill (shift div 32) (shift mod 32) parts 0 (replicate DOUBLE_LIMB_CAP 0) of
                            Inl e \<Rightarrow> Inl e
                          | Inr limbs \<Rightarrow> js_mkbigint_limbs m (bigint_normalize_limbs limbs) negative)"

section \<open>The rounding is to nearest, ties to even\<close>

lemma extract_u64_value:
  assumes "off div 32 < length limbs" "lval limbs div 2 ^ off < 2 ^ 64"
  shows "unat (bigint_extract_u64 limbs off) = lval limbs div 2 ^ off"
proof (rule bit_eqI)
  fix i
  show "bit (unat (bigint_extract_u64 limbs off)) i = bit (lval limbs div 2 ^ off) i"
  proof (cases "i < 64")
    case True
    then show ?thesis using extract_u64_bit [OF assms(1) True]
      by (simp add: bit_unsigned_iff drop_bit_eq_div [symmetric] bit_drop_bit_eq add.commute)
  next
    case False
    have "\<not> bit (lval limbs div 2 ^ off) i"
    proof
      assume "bit (lval limbs div 2 ^ off) i"
      then have "2 ^ i \<le> lval limbs div 2 ^ off" by (rule bit_nat_le)
      moreover have "(2 :: nat) ^ 64 \<le> 2 ^ i" using False by (intro power_increasing) auto
      ultimately show False using assms(2) by linarith
    qed
    moreover have "\<not> bit (bigint_extract_u64 limbs off) i"
      using False bit_imp_le_length [of "bigint_extract_u64 limbs off" i] by auto
    ultimately show ?thesis by (simp add: bit_unsigned_iff)
  qed
qed

lemma should_round_up_value:
  assumes "0 < d"
  shows "bigint_should_round_up limbs d s \<longleftrightarrow>
    2 ^ (d - 1) < lval limbs mod 2 ^ d \<or> 2 ^ (d - 1) = lval limbs mod 2 ^ d \<and> odd s"
proof -
  obtain k where d: "d = Suc k" using assms by (cases d) auto
  have od: "s AND 1 \<noteq> 0 \<longleftrightarrow> odd s" by (simp add: and_one_eq odd_iff_mod_2_eq_one)
  have "lval limbs mod 2 ^ Suc k = lval limbs mod 2 ^ k + (if bit (lval limbs) k then 2 ^ k else 0)"
    using take_bit_Suc_from_most [of k "lval limbs"] by (simp add: take_bit_eq_mod)
  moreover obtain r where r: "lval limbs mod 2 ^ k = r" "r < 2 ^ k" by simp
  ultimately have m: "lval limbs mod 2 ^ Suc k = r + (if bit (lval limbs) k then 2 ^ k else 0)" by simp
  show ?thesis
    unfolding bigint_should_round_up_def Let_def test_bit_value any_bits_below_value od d m using r
    by (cases "bit (lval limbs) k") auto
qed

lemma nearest_even:
  fixes V d q u :: nat
  assumes "0 < d" "q = V div 2 ^ d"
    and "u = (if 2 ^ (d - 1) < V mod 2 ^ d \<or> 2 ^ (d - 1) = V mod 2 ^ d \<and> odd q then 1 else 0)"
  shows "2 * \<bar>int ((q + u) * 2 ^ d) - int V\<bar> \<le> 2 ^ d"
    and "2 * \<bar>int ((q + u) * 2 ^ d) - int V\<bar> = 2 ^ d \<Longrightarrow> even (q + u)"
proof -
  define h where "h = (2 :: nat) ^ (d - 1)"
  define r where "r = V mod 2 ^ d"
  have d: "2 ^ d = 2 * h" using assms(1) unfolding h_def by (cases d) simp_all
  have r: "r < 2 * h" unfolding r_def d [symmetric] by simp
  have V: "V = q * (2 * h) + r" unfolding assms(2) r_def d [symmetric] by (simp only: div_mult_mod_eq)
  have u: "u = (if h < r \<or> h = r \<and> odd q then 1 else 0)" using assms(3) by (simp add: h_def r_def)
  have D: "int ((q + u) * 2 ^ d) - int V = int u * (2 * int h) - int r" unfolding d V by (simp add: algebra_simps)
  have p: "(2 :: int) ^ d = 2 * int h" using arg_cong [OF d, of int] by simp
  show "2 * \<bar>int ((q + u) * 2 ^ d) - int V\<bar> \<le> 2 ^ d" unfolding D p using r by (auto simp: u)
  show "2 * \<bar>int ((q + u) * 2 ^ d) - int V\<bar> = 2 ^ d \<Longrightarrow> even (q + u)" unfolding D p using r by (auto simp: u split: if_splits)
qed

text \<open>The rounded significand, before the renormalisation of an all-ones significand.\<close>

definition rounded :: "nat \<Rightarrow> nat \<Rightarrow> nat" where
  "rounded V d = (let q = V div 2 ^ d
     in q + (if d \<noteq> 0 \<and> (2 ^ (d - 1) < V mod 2 ^ d \<or> 2 ^ (d - 1) = V mod 2 ^ d \<and> odd q) then 1 else 0))"

lemma rounded_nearest:
  shows "2 * \<bar>int (rounded V d * 2 ^ d) - int V\<bar> \<le> (if d = 0 then 0 else 2 ^ d)"
    and "d \<noteq> 0 \<Longrightarrow> 2 * \<bar>int (rounded V d * 2 ^ d) - int V\<bar> = 2 ^ d \<Longrightarrow> even (rounded V d)"
proof -
  show "2 * \<bar>int (rounded V d * 2 ^ d) - int V\<bar> \<le> (if d = 0 then 0 else 2 ^ d)"
  proof (cases "d = 0")
    case False
    then show ?thesis using nearest_even(1) [of d _ V, OF _ refl refl] by (simp add: rounded_def Let_def)
  qed (simp add: rounded_def)
  assume "d \<noteq> 0" "2 * \<bar>int (rounded V d * 2 ^ d) - int V\<bar> = 2 ^ d"
  then show "even (rounded V d)"
    using nearest_even(2) [of d _ V, OF _ refl refl] by (simp add: rounded_def Let_def)
qed

lemma to_double_cases:
  assumes "bigint_wf v" "ival v \<noteq> 0"
  defines "V \<equiv> lval (bigint_limbs v)" and "bl \<equiv> bigint_abs_bitlen_limbs (bigint_limbs v)"
  defines "r \<equiv> rounded V (bl - 53)"
  shows "r \<le> 2 ^ 53" and "53 < bl \<Longrightarrow> 2 ^ 52 \<le> V div 2 ^ (bl - 53)"
    and "bigint_to_double v =
      (if bl \<le> 53 then Finite (bigint_is_negative v) r 0
       else if r = 2 ^ 53 then (if bl + 1 > 1024 then HugeVal (bigint_is_negative v) else Finite (bigint_is_negative v) (2 ^ 52) (bl - 52))
       else if bl > 1024 then HugeVal (bigint_is_negative v) else Finite (bigint_is_negative v) r (bl - 53))"
proof -
  let ?l = "bigint_limbs v"
  have V0: "V \<noteq> 0" using assms(2) by (simp add: V_def ival_def)
  have ne: "?l \<noteq> []" using assms(1) by simp
  note b = bitlen_bounds [OF ne V0 [unfolded V_def], folded V_def bl_def]
  define d where "d = bl - 53"
  define q where "q = V div 2 ^ d"
  have qlt: "q < 2 ^ 53"
  proof -
    have "V < 2 ^ (53 + d)" using less_le_trans [OF b(2)] power_increasing [of bl "53 + d" "2 :: nat"] by (simp add: d_def)
    then show ?thesis unfolding q_def by (intro less_mult_imp_div_less) (simp add: power_add)
  qed
  show qge: "53 < bl \<Longrightarrow> 2 ^ 52 \<le> V div 2 ^ (bl - 53)"
  proof -
    assume "53 < bl"
    then have x: "bl - 1 = 52 + (bl - 53)" by simp
    have "(2 :: nat) ^ 52 * 2 ^ (bl - 53) = 2 ^ (bl - 1)" unfolding x by (simp only: power_add)
    then have "2 ^ 52 * 2 ^ (bl - 53) \<le> V" using b(1) by simp
    then have "2 ^ 52 * 2 ^ (bl - 53) div 2 ^ (bl - 53) \<le> V div 2 ^ (bl - 53)" by (rule div_le_mono)
    then show ?thesis by simp
  qed
  have "d div 32 < length ?l"
  proof -
    have "bl \<le> 32 * length ?l" unfolding bl_def using ne by (rule bitlen_le_length)
    then have "d < 32 * length ?l" using b(3) by (simp add: d_def) 
    then show ?thesis by (simp add: less_mult_imp_div_less mult.commute)
  qed
  then have ex: "unat (bigint_extract_u64 ?l d) = q"
    using extract_u64_value [of d ?l] qlt by (simp add: V_def [symmetric] q_def)
  define up where "up \<longleftrightarrow> d \<noteq> 0 \<and> bigint_should_round_up ?l d (bigint_extract_u64 ?l d)"
  have od: "odd (bigint_extract_u64 ?l d) \<longleftrightarrow> odd q" unfolding ex [symmetric] by (simp add: bit_unsigned_iff flip: bit_0)
  have up: "up \<longleftrightarrow> d \<noteq> 0 \<and> (2 ^ (d - 1) < V mod 2 ^ d \<or> 2 ^ (d - 1) = V mod 2 ^ d \<and> odd q)"
    using should_round_up_value [of d ?l "bigint_extract_u64 ?l d"] unfolding up_def od V_def [symmetric] by auto
  have r: "r = (if up then q + 1 else q)" unfolding r_def rounded_def Let_def d_def [symmetric] q_def [symmetric] up by auto
  show "r \<le> 2 ^ 53" using qlt by (simp add: r)
  have s1: "unat (bigint_extract_u64 ?l d + 1) = q + 1" using qlt by (subst unat_add_fits) (simp_all add: ex)
  have e: "bigint_extract_u64 ?l d + 1 = push_bit 53 1 \<longleftrightarrow> q + 1 = 2 ^ 53"
    by (simp add: word_unat_eq_iff s1)
  have half: "unat (drop_bit 1 (bigint_extract_u64 ?l d + 1)) = 2 ^ 52" if "q + 1 = 2 ^ 53"
    using that by (simp only: unat_shr s1) simp
  have D: "(if bl > 53 then bl - 53 else 0) = d" by (simp add: d_def)
  have d0: "d = 0 \<longleftrightarrow> bl \<le> 53" by (simp add: d_def)
  have bl0: "bl \<noteq> 0" using b(3) by simp
  show "bigint_to_double v =
      (if bl \<le> 53 then Finite (bigint_is_negative v) r 0
       else if r = 2 ^ 53 then (if bl + 1 > 1024 then HugeVal (bigint_is_negative v) else Finite (bigint_is_negative v) (2 ^ 52) (bl - 52))
       else if bl > 1024 then HugeVal (bigint_is_negative v) else Finite (bigint_is_negative v) r (bl - 53))"
  proof (cases up)
    case True
    then have nd: "d \<noteq> 0" "\<not> bl \<le> 53" using up d0 by auto
    show ?thesis
      unfolding bigint_to_double_def Let_def bl_def [symmetric] D up_def [symmetric] e
      using True nd bl0 half s1 by (auto simp: r)
  next
    case False
    then show ?thesis
      unfolding bigint_to_double_def Let_def bl_def [symmetric] D up_def [symmetric] e
      using bl0 ex qlt by (auto simp: r d_def)
  qed
qed

text \<open>
  What a nearest-even conversion of the integer \<open>x\<close> returns: \<open>d\<close> is the number of bits that do not
  fit the 53-bit significand. An infinity needs a magnitude at or above \<open>2 ^ 1024 - 2 ^ 970\<close>, the
  midpoint between the largest double and the next power of two.
\<close>

definition nearest_double :: "int \<Rightarrow> nat \<Rightarrow> cdouble \<Rightarrow> bool" where
  "nearest_double x d c \<longleftrightarrow>
     (case c of
        Finite neg sig e \<Rightarrow>
          sig < 2 ^ 53 \<and> (x \<noteq> 0 \<longrightarrow> neg = (x < 0)) \<and>
          2 * \<bar>int (sig * 2 ^ e) - \<bar>x\<bar>\<bar> \<le> (if d = 0 then 0 else 2 ^ d) \<and>
          (d \<noteq> 0 \<and> 2 * \<bar>int (sig * 2 ^ e) - \<bar>x\<bar>\<bar> = 2 ^ d \<longrightarrow> even (sig * 2 ^ e div 2 ^ d))
      | HugeVal neg \<Rightarrow> neg = (x < 0) \<and> 2 ^ 1024 - 2 ^ 970 \<le> \<bar>x\<bar>)"

lemma huge_bound:
  fixes V :: nat
  assumes "r = rounded V 971" "r = 2 ^ 53"
  shows "2 ^ 1024 - 2 ^ 970 \<le> int V"
proof -
  have "2 * \<bar>int (r * 2 ^ 971) - int V\<bar> \<le> 2 ^ 971" using rounded_nearest(1) [of V 971] assms(1) by simp
  then show ?thesis unfolding assms(2) by simp
qed

lemma to_double_value:
  assumes "bigint_wf v"
  shows "nearest_double (ival v) (bigint_abs_bitlen_limbs (bigint_limbs v) - 53) (bigint_to_double v)"
proof (cases "ival v = 0")
  case True
  then have "lval (bigint_limbs v) = 0" by (simp add: ival_def)
  then have b0: "bigint_abs_bitlen_limbs (bigint_limbs v) = 0" using bitlen_zero [of "bigint_limbs v"] assms by simp
  then have "bigint_to_double v = Finite False 0 0" by (simp add: bigint_to_double_def Let_def)
  then show ?thesis by (simp add: nearest_double_def True b0)
next
  case False
  let ?l = "bigint_limbs v"
  define V where "V = lval ?l"
  define bl where "bl = bigint_abs_bitlen_limbs ?l"
  define r where "r = rounded V (bl - 53)"
  note T = to_double_cases [OF assms False, folded V_def bl_def, folded r_def]
  note R = rounded_nearest [where V = V and d = "bl - 53", folded r_def]
  have x: "\<bar>ival v\<bar> = int V" by (simp add: ival_abs V_def)
  have neg: "bigint_is_negative v = (ival v < 0)" using assms by (rule bigint_wf_negative)
  have big: "2 ^ 1024 - 2 ^ 970 \<le> int V" if "1024 < bl"
  proof -
    have V0: "lval ?l \<noteq> 0" using False by (simp add: ival_def)
    have "(2 :: nat) ^ 1024 \<le> 2 ^ (bl - 1)" using that by (intro power_increasing) auto
    also have "\<dots> \<le> V" using bitlen_bounds(1) [OF _ V0] assms by (simp add: V_def bl_def)
    finally have "int (2 ^ 1024) \<le> int V" by (simp only: of_nat_le_iff)
    then show ?thesis by simp
  qed
  consider (small) "bl \<le> 53" | (renorm) "53 < bl" "r = 2 ^ 53" "bl < 1024" | (renorm_inf) "53 < bl" "r = 2 ^ 53" "1024 \<le> bl"
    | (inf) "53 < bl" "r \<noteq> 2 ^ 53" "1024 < bl" | (norm) "53 < bl" "r \<noteq> 2 ^ 53" "bl \<le> 1024" by linarith
  then have "nearest_double (ival v) (bl - 53) (bigint_to_double v)"
  proof cases
    case small
    then have "r = V" "V < 2 ^ 53" using bitlen_abs_less [of ?l 53] assms by (simp_all add: r_def rounded_def V_def bl_def)
    then show ?thesis using small T(3) by (simp add: nearest_double_def neg x)
  next
    case renorm
    have e: "(2 :: nat) ^ 52 * 2 ^ (bl - 52) = r * 2 ^ (bl - 53)"
      using renorm(1) unfolding renorm(2) by (simp add: Suc_diff_Suc flip: power_Suc)
    then have c: "bigint_to_double v = Finite (bigint_is_negative v) (2 ^ 52) (bl - 52)" using renorm T(3) by simp
    have "even (r * 2 ^ (bl - 53) div 2 ^ (bl - 53))" unfolding renorm(2) by simp
    then show ?thesis unfolding nearest_double_def c cdouble.case e x using R renorm(1) neg by auto
  next
    case renorm_inf
    have "2 ^ 1024 - 2 ^ 970 \<le> int V"
    proof (cases "bl = 1024")
      case True
      then show ?thesis using huge_bound [of r V] renorm_inf(2) by (simp add: r_def)
    next
      case False
      then show ?thesis using big renorm_inf(3) by simp
    qed
    then show ?thesis using renorm_inf T(3) neg by (simp add: nearest_double_def x)
  next
    case inf
    then show ?thesis using T(3) neg big by (simp add: nearest_double_def x)
  next
    case norm
    have "r < 2 ^ 53" using T(1) norm(2) by simp
    then show ?thesis using norm T(3) R neg by (auto simp: nearest_double_def x)
  qed
  then show ?thesis by (simp only: bl_def)
qed

section \<open>The conversion from a double is exact\<close>

lemma shift_part:
  fixes p :: u32
  assumes "bs < 32"
  shows "unat (push_bit bs p) + B32 * (if bs = 0 then 0 else unat (drop_bit (32 - bs) p)) = unat p * 2 ^ bs"
proof (cases "bs = 0")
  case False
  have B: "B32 = 2 ^ bs * 2 ^ (32 - bs)" using assms by (simp add: power_add [symmetric])
  have d: "unat p div 2 ^ (32 - bs) = unat p * 2 ^ bs div B32" unfolding B div_mult2_eq by simp
  have "unat (push_bit bs p) = unat p * 2 ^ bs mod B32" using unat_shl [of bs p] by simp
  then show ?thesis using False unfolding unat_shr d by simp
qed simp

lemma or_low_high:
  fixes p h :: u32
  assumes "bs < 32" "unat h < 2 ^ bs"
  shows "unat (h OR push_bit bs p) = unat h + unat (push_bit bs p)"
proof -
  have "take_bit bs h = h" using assms(2) by (simp add: word_unat_eq_iff unat_low)
  then have "\<not> bit (push_bit bs p) m \<or> \<not> bit h m" for m
    by (metis bit_push_bit_iff bit_take_bit_iff linorder_not_le)
  then have d: "push_bit bs p + h = h OR push_bit bs p" by (subst disjunctive_add) (auto simp: or.commute)
  have e: "unat (push_bit bs p) = 2 ^ bs * (unat p mod 2 ^ (32 - bs))"
    using unat_shl [of bs p] assms(1) mult_mod_right [of "2 ^ bs" "unat p" "2 ^ (32 - bs)"] by (simp add: mult.commute power_add [symmetric])
  have "unat p mod 2 ^ (32 - bs) + 1 \<le> 2 ^ (32 - bs)" by (simp add: Suc_leI)
  then have "2 ^ bs * (unat p mod 2 ^ (32 - bs) + 1) \<le> 2 ^ bs * 2 ^ (32 - bs)" by (rule mult_le_mono2)
  also have "\<dots> = B32" using assms(1) by (simp add: power_add [symmetric])
  finally have "unat (push_bit bs p) + unat h < 2 ^ LENGTH(32)" using assms(2) by (simp add: e)
  from unat_add_fits [OF this] show ?thesis unfolding d by simp
qed

lemma high_part_small:
  fixes p :: u32
  assumes "0 < bs" "bs < 32"
  shows "unat (drop_bit (32 - bs) p) < 2 ^ bs"
proof -
  have "unat p < 2 ^ bs * 2 ^ (32 - bs)" using assms unat_lt_B32 [of p] by (simp add: power_add [symmetric])
  then show ?thesis by (simp add: unat_shr less_mult_imp_div_less)
qed

text \<open>One part: where the limb it lands in holds less than \<open>2 ^ bs\<close>, its scaled value is added.\<close>

lemma dbl_fill_step:
  assumes "bs < 32" "ws + i + 1 < 33" "length limbs = 33" "unat (limbs ! (ws + i)) < 2 ^ bs" "limbs ! (ws + i + 1) = 0"
  obtains limbs' where "dbl_fill ws bs (p # ps) i limbs = dbl_fill ws bs ps (Suc i) limbs'"
    and "length limbs' = 33" and "lval limbs' = lval limbs + B32 ^ (ws + i) * (unat p * 2 ^ bs)"
    and "unat (limbs' ! (ws + i + 1)) < 2 ^ bs" and "\<And>k. ws + i + 1 < k \<Longrightarrow> limbs' ! k = limbs ! k"
proof (cases "p = 0")
  case True
  then show ?thesis using assms by (intro that [of limbs]) simp_all
next
  case False
  define l1 where "l1 = limbs[ws + i := limbs ! (ws + i) OR push_bit bs p]"
  define l2 where "l2 = (if bs = 0 then l1 else l1[ws + i + 1 := limbs ! (ws + i + 1) OR drop_bit (32 - bs) p])"
  have u1: "lval l1 = lval limbs + B32 ^ (ws + i) * unat (push_bit bs p)"
    using lval_update [of "ws + i" limbs "limbs ! (ws + i) OR push_bit bs p"] assms or_low_high [OF assms(1,4), of p]
    by (simp add: l1_def distrib_left)
  have "lval l2 = lval l1 + B32 ^ (ws + i) * (B32 * (if bs = 0 then 0 else unat (drop_bit (32 - bs) p)))"
    using lval_update [of "ws + i + 1" l1 "drop_bit (32 - bs) p"] assms by (auto simp: l2_def l1_def)
  then have "lval l2 = lval limbs + B32 ^ (ws + i) * (unat (push_bit bs p) + B32 * (if bs = 0 then 0 else unat (drop_bit (32 - bs) p)))"
    unfolding u1 by (simp only: distrib_left ac_simps)
  then have v: "lval l2 = lval limbs + B32 ^ (ws + i) * (unat p * 2 ^ bs)" unfolding shift_part [OF assms(1)] .
  have "dbl_fill ws bs (p # ps) i limbs = dbl_fill ws bs ps (Suc i) l2"
    using False assms by (simp add: DOUBLE_LIMB_CAP_def l1_def l2_def Let_def)
  moreover have "unat (l2 ! (ws + i + 1)) < 2 ^ bs"
    using assms high_part_small [of bs p] by (auto simp: l1_def l2_def)
  ultimately show ?thesis using v assms by (intro that [of l2]) (auto simp: l1_def l2_def)
qed

lemma dbl_fill_value:
  assumes "bs < 32" "ws + 2 < 33"
  obtains limbs where "dbl_fill ws bs [p0, p1] 0 (replicate DOUBLE_LIMB_CAP 0) = Inr limbs"
    and "lval limbs = (unat p0 + B32 * unat p1) * 2 ^ (32 * ws + bs)" and "length limbs = 33"
proof -
  obtain l1 where l1: "dbl_fill ws bs [p0, p1] 0 (replicate DOUBLE_LIMB_CAP 0) = dbl_fill ws bs [p1] (Suc 0) l1"
    "length l1 = 33" "lval l1 = lval (replicate DOUBLE_LIMB_CAP 0) + B32 ^ (ws + 0) * (unat p0 * 2 ^ bs)"
    "unat (l1 ! (ws + 0 + 1)) < 2 ^ bs" "\<And>k. ws + 0 + 1 < k \<Longrightarrow> l1 ! k = replicate DOUBLE_LIMB_CAP 0 ! k"
    by (rule dbl_fill_step [of bs ws 0 "replicate DOUBLE_LIMB_CAP 0" p0 "[p1]"]) (use assms in \<open>simp_all add: DOUBLE_LIMB_CAP_def\<close>)
  have l1z: "l1 ! (ws + 2) = 0" using l1(5) [of "ws + 2"] assms(2) by (simp add: DOUBLE_LIMB_CAP_def)
  obtain l2 where l2: "dbl_fill ws bs [p1] (Suc 0) l1 = dbl_fill ws bs [] 2 l2"
    "length l2 = 33" "lval l2 = lval l1 + B32 ^ (ws + 1) * (unat p1 * 2 ^ bs)"
    using dbl_fill_step [of bs ws "Suc 0" l1 p1 "[]"] l1(2,4) l1z assms by (auto simp: numeral_2_eq_2 simp del: dbl_fill.simps)
  have "B32 ^ ws * 2 ^ bs = 2 ^ (32 * ws + bs)" by (simp add: power_add power_mult)
  then have "lval l2 = (unat p0 + B32 * unat p1) * 2 ^ (32 * ws + bs)" unfolding l2(3) l1(3) by (simp add: algebra_simps)
  then show ?thesis using l1(1) l2(1,2) by (intro that [of l2]) simp_all
qed

lemma mantissa_value:
  "unat ((b AND 0x000fffffffffffff) OR push_bit 52 1 :: u64) = 2 ^ 52 + dbl_frac b" "dbl_frac b < 2 ^ 52"
proof -
  have m: "b AND 0xfffffffffffff = take_bit 52 b" by (simp add: take_bit_eq_mask mask_eq_exp_minus_1)
  show f: "dbl_frac b < 2 ^ 52" unfolding dbl_frac_def m unat_low by simp
  have "unat (push_bit 52 1 OR (b AND 0xfffffffffffff) :: u64) = unat (1 :: u64) * 2 ^ 52 + unat (b AND 0xfffffffffffff)"
    using f by (intro unat_shl_or) (simp_all add: dbl_frac_def)
  then show "unat ((b AND 0x000fffffffffffff) OR push_bit 52 1 :: u64) = 2 ^ 52 + dbl_frac b"
    by (simp add: dbl_frac_def or.commute)
qed

lemma dbl_exp_bits_le: "dbl_exp_bits b < 2048"
proof -
  have "drop_bit 52 b AND 0x7ff = take_bit 11 (drop_bit 52 b)" by (simp add: take_bit_eq_mask mask_eq_exp_minus_1)
  then show ?thesis unfolding dbl_exp_bits_def by (simp only: unat_low) simp
qed

lemma dbl_integral_normal:
  assumes "dbl_is_integral b" "dbl_scaled b \<noteq> 0"
  shows "dbl_exp_bits b \<noteq> 0"
proof
  assume "dbl_exp_bits b = 0"
  then have "dbl_scaled b = dbl_frac b" by (simp add: dbl_scaled_def)
  moreover have "dbl_frac b < 2 ^ 1074" using mantissa_value(2) [of b] by (rule less_le_trans) (intro power_increasing, auto)
  ultimately show False using assms by (simp add: dbl_is_integral_def)
qed

lemma dbl_scaled_div:
  assumes "dbl_exp_bits b = e" "e \<noteq> 0"
  shows "e < 1075 \<Longrightarrow> dbl_scaled b div 2 ^ 1074 = (2 ^ 52 + dbl_frac b) div 2 ^ (1075 - e)"
    and "1075 \<le> e \<Longrightarrow> dbl_scaled b div 2 ^ 1074 = (2 ^ 52 + dbl_frac b) * 2 ^ (e - 1075)"
proof -
  define M where "M = 2 ^ 52 + dbl_frac b"
  have s: "dbl_scaled b = M * 2 ^ (e - 1)" using assms by (simp add: dbl_scaled_def M_def)
  { assume "e < 1075"
    then have x: "1074 = (e - 1) + (1075 - e)" using assms(2) by simp
    have "(2 :: nat) ^ 1074 = 2 ^ (e - 1) * 2 ^ (1075 - e)" by (subst x) (rule power_add)
    then have "dbl_scaled b div 2 ^ 1074 = M * 2 ^ (e - 1) div 2 ^ (e - 1) div 2 ^ (1075 - e)" unfolding s by (simp only: div_mult2_eq)
    also have "M * 2 ^ (e - 1) div 2 ^ (e - 1) = M" by (rule nonzero_mult_div_cancel_right) simp
    finally show "dbl_scaled b div 2 ^ 1074 = (2 ^ 52 + dbl_frac b) div 2 ^ (1075 - e)" unfolding M_def . }
  { assume "1075 \<le> e"
    then have x: "e - 1 = (e - 1075) + 1074" by simp
    have "dbl_scaled b = M * 2 ^ (e - 1075) * 2 ^ 1074" unfolding s x power_add by (simp only: mult.assoc)
    then have "dbl_scaled b div 2 ^ 1074 = M * 2 ^ (e - 1075) * 2 ^ 1074 div 2 ^ 1074" by (rule arg_cong)
    also have "\<dots> = M * 2 ^ (e - 1075)" by (rule nonzero_mult_div_cancel_right) simp
    finally show "dbl_scaled b div 2 ^ 1074 = (2 ^ 52 + dbl_frac b) * 2 ^ (e - 1075)" unfolding M_def . }
qed

lemma u64_parts_value:
  fixes x :: u64
  shows "unat (ucast (x AND 0xffffffff) :: u32) + B32 * unat (ucast (drop_bit 32 x) :: u32) = unat x"
proof -
  have "unat (ucast (drop_bit 32 x) :: u32) = unat x div B32"
    using unat_lt_B64 [of x] by (simp add: unat_ops less_mult_imp_div_less del: unat_lt_B64)
  then show ?thesis by (simp add: unat_ops)
qed

lemma u64_take_limbs:
  fixes x :: u64
  defines "l \<equiv> [ucast (x AND 0xffffffff), ucast (drop_bit 32 x)] :: limbs"
  shows "lval (take (if x > 0xffffffff then 2 else 1) l) = unat x"
proof (cases "x > 0xffffffff")
  case True
  then show ?thesis using u64_parts_value [of x] by (simp add: l_def)
next
  case False
  then have "unat x < B32" by (simp add: word_less_nat_alt)
  then show ?thesis using False by (simp add: l_def unat_ops)
qed

lemma from_integral_double_value:
  assumes "dbl_isfinite b" "dbl_is_integral b"
  shows "yields m 33 (bigint_from_integral_double m b) (dbl_int b)"
proof (cases "dbl_scaled b = 0")
  case True
  then have "bigint_from_integral_double m b = bigint_from_uint64 m 0" "dbl_int b = int (unat (0 :: u64))"
    using assms by (simp_all add: bigint_from_integral_double_def dbl_int_def)
  then show ?thesis using yields_mono [OF from_uint64_value [of m 0], of 33] by simp
next
  case False
  define e where "e = dbl_exp_bits b"
  define mant where "mant = ((b AND 0x000fffffffffffff) OR push_bit 52 1 :: u64)"
  have e: "e \<noteq> 0" "e < 2047"
    using dbl_integral_normal [OF assms(2) False] dbl_exp_bits_le [of b] assms(1) by (simp_all add: e_def dbl_isfinite_def)
  have mant: "unat mant = 2 ^ 52 + dbl_frac b" unfolding mant_def by (rule mantissa_value)
  note dv = dbl_scaled_div [OF e_def [symmetric] e(1)]
  note D = bigint_from_integral_double_def [of m b, unfolded Let_def, folded mant_def dbl_exp_bits_def, folded e_def]
  show ?thesis
  proof (cases "e < 1075")
    case True
    define x where "x = drop_bit (1075 - e) mant"
    have "nat (52 - (int e - 1023)) = 1075 - e" using True by simp
    then have "bigint_from_integral_double m b = js_mkbigint_limbs m
        (take (if x > 0xffffffff then 2 else 1) [ucast (x AND 0xffffffff), ucast (drop_bit 32 x)]) (dbl_sign b)"
      using assms False e True unfolding D by (simp add: x_def)
    moreover have "dbl_int b = sm_int (dbl_sign b) (unat x)" unfolding dbl_int_def dv(1) [OF True] x_def unat_shr mant ..
    ultimately show ?thesis
      using mkbigint_limbs_yields [of "take (if x > 0xffffffff then 2 else 1) [ucast (x AND 0xffffffff), ucast (drop_bit 32 x)]" 33 m "dbl_sign b"]
      unfolding u64_take_limbs by simp
  next
    case False
    define sh where "sh = e - 1075"
    have sh: "nat (int e - 1023 - 52) = sh" "sh \<le> 971" using False e by (simp_all add: sh_def)
    then have ws: "sh mod 32 < 32" "sh div 32 + 2 < 33" using div_le_mono [of sh 971 32] by simp_all
    obtain limbs where l: "dbl_fill (sh div 32) (sh mod 32) [ucast (mant AND 0xffffffff), ucast (drop_bit 32 mant)] 0 (replicate DOUBLE_LIMB_CAP 0) = Inr limbs"
      "lval limbs = (unat (ucast (mant AND 0xffffffff) :: u32) + B32 * unat (ucast (drop_bit 32 mant) :: u32)) * 2 ^ (32 * (sh div 32) + sh mod 32)"
      "length limbs = 33"
      by (rule dbl_fill_value [OF ws])
    have lv: "lval limbs = unat mant * 2 ^ sh" using l(2) unfolding u64_parts_value by simp
    have "bigint_from_integral_double m b = js_mkbigint_limbs m (bigint_normalize_limbs limbs) (dbl_sign b)"
      using assms \<open>dbl_scaled b \<noteq> 0\<close> e False l(1) sh(1) unfolding D by simp
    moreover have "dbl_int b = sm_int (dbl_sign b) (lval limbs)"
      unfolding dbl_int_def lv mant sh_def using dv(2) False by simp
    ultimately show ?thesis
      using mkbigint_limbs_yields [of "bigint_normalize_limbs limbs" 33 m "dbl_sign b"] length_normalize_le [of limbs] l(3) by simp
  qed
qed

lemma from_integral_double_rejects:
  "\<not> dbl_isfinite b \<or> \<not> dbl_is_integral b \<Longrightarrow>
     bigint_from_integral_double m b = Inl (js_mkerr ''Cannot convert non-integral double to BigInt'')"
  by (simp add: bigint_from_integral_double_def)

end
