(* ===== verification/Bigint_String.thy ===== *)
theory Bigint_String
  imports Bigint_Double
begin

text \<open>
  BigInt text conversions of \<open>src/src/modules/bigint.c\<close>, with the digit and whitespace tables of \<open>src/src/utils_portable.c\<close> and
  \<open>src/src/silver/lexer.c\<close>. Characters are bytes.
\<close>

unbundle bit_operations_syntax

section \<open>Characters\<close>

definition hex_digit :: "byte \<Rightarrow> int" where
  "hex_digit c =
     (if 0x30 \<le> c \<and> c \<le> 0x39 then uint c - 0x30
      else if 0x61 \<le> c \<and> c \<le> 0x66 then uint c - 0x61 + 10
      else if 0x41 \<le> c \<and> c \<le> 0x46 then uint c - 0x41 + 10
      else -1)"

definition is_space :: "byte \<Rightarrow> bool" where
  "is_space c \<longleftrightarrow> c = 9 \<or> c = 10 \<or> c = 13 \<or> c = 32"

section \<open>Parsing digits\<close>

fun mul_add_loop :: "u32 \<Rightarrow> limbs \<Rightarrow> u64 \<Rightarrow> limbs \<times> u64" where
  "mul_add_loop base [] carry = ([], carry)"
| "mul_add_loop base (x # xs) carry =
     (let cur = ucast x * ucast base + carry;
          (r, c) = mul_add_loop base xs (drop_bit 32 cur)
      in (ucast cur # r, c))"

abbreviation bad_digits :: js_error where
  "bad_digits \<equiv> js_mkerr ''Cannot convert string to BigInt''"

fun digits_loop :: "mem \<Rightarrow> u32 \<Rightarrow> bool \<Rightarrow> bytes \<Rightarrow> limbs \<Rightarrow> nat \<Rightarrow> bool \<Rightarrow> bool \<Rightarrow> (limbs \<times> bool \<times> bool) outcome" where
  "digits_loop m base allow_separators [] limbs cap has_digit prev_sep = Inr (limbs, has_digit, prev_sep)"
| "digits_loop m base allow_separators (ch # cs) limbs cap has_digit prev_sep =
     (if ch = 0x5F then
        if \<not> allow_separators \<or> \<not> has_digit \<or> prev_sep then Inl bad_digits
        else digits_loop m base allow_separators cs limbs cap has_digit True
      else
        let digit = hex_digit ch
        in if digit < 0 \<or> nat digit \<ge> unat base then Inl bad_digits
           else
             let (limbs, carry) = mul_add_loop base limbs (word_of_int digit)
             in if carry \<noteq> 0 then
                  (case append_carry_limbs m limbs cap carry of
                     None \<Rightarrow> Inl oom
                   | Some (limbs, cap) \<Rightarrow> digits_loop m base allow_separators cs limbs cap True False)
                else digits_loop m base allow_separators cs limbs cap True False)"

definition digits_base :: "bytes \<Rightarrow> u32 \<times> nat" where
  "digits_base digits =
     (if length digits \<ge> 2 \<and> digits ! 0 = 0x30 then
        let p = digits ! 1 OR 0x20
        in if p = 0x78 then (16, 2) else if p = 0x6F then (8, 2) else if p = 0x62 then (2, 2) else (10, 0)
      else (10, 0))"

definition bigint_from_string_digits :: "mem \<Rightarrow> bytes \<Rightarrow> bool \<Rightarrow> bool \<Rightarrow> bigint_payload outcome" where
  "bigint_from_string_digits m digits negative allow_separators =
     (if digits = [] then js_mkbigint_limbs m [0] False
      else
        let (base, start) = digits_base digits
        in if start \<ge> length digits then Inl bad_digits
           else
             let cap = length digits div 8 + 2;
                 cap = (if cap < 4 then 4 else cap)
             in case limb_alloc m cap of
                  None \<Rightarrow> Inl oom
                | Some limbs \<Rightarrow>
                    (case digits_loop m base allow_separators (drop start digits) (take 1 limbs) cap False False of
                       Inl e \<Rightarrow> Inl e
                     | Inr (limbs, has_digit, prev_sep) \<Rightarrow>
                         if \<not> has_digit \<or> prev_sep then Inl bad_digits
                         else js_mkbigint_limbs m limbs negative))"

definition js_mkbigint :: "mem \<Rightarrow> bytes \<Rightarrow> bool \<Rightarrow> bigint_payload outcome" where
  "js_mkbigint m digits negative = bigint_from_string_digits m digits negative True"

section \<open>Printing\<close>

definition u32_dec_len :: "u32 \<Rightarrow> nat" where
  "u32_dec_len v =
     (if v \<ge> 1000000000 then 10 else if v \<ge> 100000000 then 9 else if v \<ge> 10000000 then 8
      else if v \<ge> 1000000 then 7 else if v \<ge> 100000 then 6 else if v \<ge> 10000 then 5
      else if v \<ge> 1000 then 4 else if v \<ge> 100 then 3 else if v \<ge> 10 then 2 else 1)"

text \<open>The conversions \<open>%u\<close> and \<open>%09u\<close> of \<open>snprintf\<close>.\<close>

fun print_u :: "nat \<Rightarrow> bytes" where
  "print_u n = (if n < 10 then [word_of_nat (48 + n)] else print_u (n div 10) @ [word_of_nat (48 + n mod 10)])"

declare print_u.simps [simp del]

definition print_09u :: "nat \<Rightarrow> bytes" where
  "print_09u n = replicate (9 - length (print_u n)) 0x30 @ print_u n"

text \<open>Every division by a radix makes the number, or a run of leading zero limbs, smaller.\<close>

lemma div_small_progress:
  assumes "tmp \<noteq> []" "\<not> limbs_is_zero tmp" "1 < unat d" "bigint_div_small_inplace tmp d = (q, r)"
  shows "lval (bigint_normalize_limbs q) + length (bigint_normalize_limbs q) < lval tmp + length tmp"
proof -
  note v = div_small_value [OF _ assms(4)]
  have v1: "lval q = lval tmp div unat d" "length q = length tmp" using v assms(3) by simp_all
  have le: "length (bigint_normalize_limbs q) \<le> length tmp" using length_normalize_le [of q] v1(2) by simp
  show ?thesis
  proof (cases "lval tmp = 0")
    case False
    then have "lval q < lval tmp" using assms(3) by (simp add: v1(1) div_less_dividend)
    then show ?thesis using le by simp
  next
    case True
    have "q \<noteq> []" using v1(2) assms(1) by auto
    then have "limbs_is_zero (bigint_normalize_limbs q)"
      using normalized_zero_iff [OF normalized_normalize] True v1(1) by simp
    then have "length (bigint_normalize_limbs q) = 1" by (simp add: limbs_is_zero_def)
    moreover have "1 < length tmp"
      using assms(1,2) True by (cases tmp; cases "tl tmp") (auto simp: limbs_is_zero_def unat_eq_zero)
    ultimately show ?thesis using True v1(1) by simp
  qed
qed

text \<open>
  The division loop of the decimal conversion: the groups of nine digits, least significant
  first, with the capacity of the group buffer.
\<close>

function decimal_groups :: "mem \<Rightarrow> limbs \<Rightarrow> u32 list \<Rightarrow> nat \<Rightarrow> u32 list option" where
  "decimal_groups m tmp groups groups_cap =
     (if tmp = [] \<or> limbs_is_zero tmp then Some groups
      else case (if length groups = groups_cap then grow_u32_buffer m groups_cap else Some groups_cap) of
             None \<Rightarrow> None
           | Some groups_cap \<Rightarrow>
               let (tmp, rem) = bigint_div_small_inplace tmp 1000000000
               in decimal_groups m (bigint_normalize_limbs tmp) (groups @ [rem]) groups_cap)"
  by pat_completeness auto

termination
proof (relation "measure (\<lambda>(m, tmp, g, c). lval tmp + length tmp)")
  fix m :: mem and tmp tmp' :: limbs and groups :: "u32 list" and groups_cap x2 :: nat and x y rem
  assume "\<not> (tmp = [] \<or> limbs_is_zero tmp)" and d: "x = bigint_div_small_inplace tmp 1000000000" and xy: "(tmp', rem) = x"
  then show "((m, bigint_normalize_limbs tmp', groups @ [rem], x2), m, tmp, groups, groups_cap)
      \<in> measure (\<lambda>(m, tmp, g, c). lval tmp + length tmp)"
    using div_small_progress [of tmp 1000000000 tmp' rem] by simp
qed simp

declare decimal_groups.simps [simp del]

definition bigint_abs_to_decimal_string :: "mem \<Rightarrow> limbs \<Rightarrow> bytes option" where
  "bigint_abs_to_decimal_string m limbs =
     (if limbs_is_zero limbs then (if heap_ok m 2 then Some [0x30] else None)
      else case limb_dup m limbs of
             None \<Rightarrow> None
           | Some tmp \<Rightarrow>
               let groups_cap = length limbs * 2 + 1
               in if \<not> heap_ok m (groups_cap * 4) then None
                  else case decimal_groups m tmp [] groups_cap of
                         None \<Rightarrow> None
                       | Some groups \<Rightarrow>
                           let len = u32_dec_len (last groups) + (length groups - 1) * 9
                           in if \<not> heap_ok m (len + 1) then None
                              else Some (take len (print_u (unat (last groups)) @
                                     concat (map (\<lambda>g. print_09u (unat g)) (rev (butlast groups))))))"

definition digit_map :: "nat \<Rightarrow> byte" where
  "digit_map d = (if d < 10 then word_of_nat (48 + d) else word_of_nat (97 + d - 10))"

text \<open>The callers pass a radix from 2 to 36; with 0 or 1 the loop has no result.\<close>

function radix_digits :: "mem \<Rightarrow> u32 \<Rightarrow> limbs \<Rightarrow> bytes \<Rightarrow> nat \<Rightarrow> bytes option" where
  "radix_digits m radix tmp out out_cap =
     (if tmp = [] \<or> limbs_is_zero tmp then Some out
      else if unat radix \<le> 1 then None
      else case (if length out + 1 \<ge> out_cap
                 then (if heap_ok m (out_cap * 2) then Some (out_cap * 2) else None) else Some out_cap) of
             None \<Rightarrow> None
           | Some out_cap \<Rightarrow>
               let (tmp, rem) = bigint_div_small_inplace tmp radix
               in radix_digits m radix (bigint_normalize_limbs tmp) (out @ [digit_map (unat rem)]) out_cap)"
  by pat_completeness auto
termination
proof (relation "measure (\<lambda>(m, r, tmp, g, c). lval tmp + length tmp)")
  fix m :: mem and radix :: u32 and tmp tmp' :: limbs and out :: bytes and out_cap x2 :: nat and x rem
  assume "\<not> (tmp = [] \<or> limbs_is_zero tmp)" "\<not> unat radix \<le> 1" and d: "x = bigint_div_small_inplace tmp radix" and xy: "(tmp', rem) = x"
  then show "((m, radix, bigint_normalize_limbs tmp', out @ [digit_map (unat rem)], x2), m, radix, tmp, out, out_cap)
      \<in> measure (\<lambda>(m, r, tmp, g, c). lval tmp + length tmp)"
    using div_small_progress [of tmp radix tmp' rem] by simp
qed simp

declare radix_digits.simps [simp del]

text \<open>The digits come out least significant first and are reversed in place by swaps.\<close>

fun swap_loop :: "nat \<Rightarrow> nat \<Rightarrow> bytes \<Rightarrow> bytes" where
  "swap_loop i 0 out = out"
| "swap_loop i (Suc k) out =
     swap_loop (Suc i) k (out[i := out ! (length out - 1 - i), length out - 1 - i := out ! i])"

definition bigint_abs_to_radix_string :: "mem \<Rightarrow> limbs \<Rightarrow> u32 \<Rightarrow> bytes option" where
  "bigint_abs_to_radix_string m limbs radix =
     (if limbs_is_zero limbs then (if heap_ok m 2 then Some [0x30] else None)
      else case limb_dup m limbs of
             None \<Rightarrow> None
           | Some tmp \<Rightarrow>
               let out_cap = length limbs * 32 + 2
               in if \<not> heap_ok m out_cap then None
                  else case radix_digits m radix tmp [] out_cap of
                         None \<Rightarrow> None
                       | Some out \<Rightarrow> Some (swap_loop 0 (length out div 2) out))"

definition bigint_digits_len :: "mem \<Rightarrow> bigint_payload \<Rightarrow> nat" where
  "bigint_digits_len m v =
     (case bigint_abs_to_decimal_string m (bigint_limbs v) of None \<Rightarrow> 0 | Some digits \<Rightarrow> length digits)"

text \<open>\<open>strbigint\<close>: what it leaves in a buffer of \<open>len\<close> bytes (terminator included) and the length it returns.\<close>

definition strbigint :: "mem \<Rightarrow> bigint_payload \<Rightarrow> nat \<Rightarrow> bytes \<times> nat" where
  "strbigint m value len =
     (let neg = bigint_is_negative value
      in case bigint_abs_to_decimal_string m (bigint_limbs value) of
           None \<Rightarrow> ([], 0)
         | Some digits \<Rightarrow>
             let total = length digits + (if neg then 1 else 0)
             in if len = 0 then ([], total)
                else
                  let sgn = (if neg \<and> 0 < len - 1 then [0x2D] else []);
                      n = (if neg then 1 else 0);
                      avail = (if n < len then len - n - 1 else 0);
                      copy_len = (if length digits < avail then length digits else avail)
                  in (sgn @ take copy_len digits @ [0], total))"

section \<open>The parser implements the grammar\<close>

text \<open>
  The reference reading of a digit string: digits of the base, single separators between digits
  where they are allowed, at least one digit and no separator at the end.
\<close>

definition digit_of :: "nat \<Rightarrow> byte \<Rightarrow> nat option" where
  "digit_of base ch = (let d = hex_digit ch in if d < 0 \<or> nat d \<ge> base then None else Some (nat d))"

fun parse_digits :: "nat \<Rightarrow> bool \<Rightarrow> bytes \<Rightarrow> nat \<Rightarrow> bool \<Rightarrow> bool \<Rightarrow> nat option" where
  "parse_digits base sep [] acc has_digit prev_sep = (if has_digit \<and> \<not> prev_sep then Some acc else None)"
| "parse_digits base sep (ch # cs) acc has_digit prev_sep =
     (if ch = 0x5F then (if sep \<and> has_digit \<and> \<not> prev_sep then parse_digits base sep cs acc has_digit True else None)
      else case digit_of base ch of
             None \<Rightarrow> None
           | Some d \<Rightarrow> parse_digits base sep cs (acc * base + d) True False)"

lemma hex_digit_bound: "hex_digit ch < 16"
  by (auto simp: hex_digit_def word_le_def)

lemma mul_add_loop_value:
  assumes "unat carry < B32" "mul_add_loop base xs carry = (r, c)"
  shows "lval r + B32 ^ length xs * unat c = lval xs * unat base + unat carry \<and> length r = length xs \<and> unat c < B32"
  using assms
proof (induction xs arbitrary: carry r c)
  case (Cons x xs)
  define cur where "cur = (ucast x * ucast base + carry :: u64)"
  obtain r' where rec: "mul_add_loop base xs (drop_bit 32 cur) = (r', c)" and r: "r = ucast cur # r'"
    using Cons.prems(2) by (auto simp: Let_def cur_def split: prod.splits)
  have m: "unat x * unat base \<le> (B32 - 1) * (B32 - 1)" using unat_le_B32 [of x] unat_le_B32 [of base] by (intro mult_le_mono) auto
  have cur: "unat cur = unat x * unat base + unat carry" using m Cons.prems(1) by (simp add: cur_def unat_ops)
  have "unat (drop_bit 32 cur) < B32" unfolding unat_shr cur using m Cons.prems(1) by (intro less_mult_imp_div_less) simp
  note IH = Cons.IH [OF this rec]
  have "lval r + B32 ^ length (x # xs) * unat c = unat (ucast cur :: u32) + B32 * (lval r' + B32 ^ length xs * unat c)"
    by (simp add: r algebra_simps)
  also have "\<dots> = unat (ucast cur :: u32) + B32 * unat (drop_bit 32 cur) + B32 * (lval xs * unat base)"
    using IH by (simp only: distrib_left distrib_right ac_simps)
  also have "\<dots> = lval (x # xs) * unat base + unat carry" unfolding u64_split cur by (simp add: algebra_simps)
  finally show ?case using IH by (simp add: r)
qed simp

lemma append_carry_one:
  assumes "unat carry < B32" "carry \<noteq> 0" "length limbs < cap"
  shows "append_carry_limbs m limbs cap carry = Some (limbs @ [ucast carry], cap)"
proof -
  have "drop_bit 32 carry = 0" using assms(1) by (simp add: word_unat_eq_iff unat_shr)
  then show ?thesis using assms(2,3) by (simp add: append_carry_limbs.simps)
qed

lemma limbs_count_bound:
  assumes "normalized limbs" "lval limbs < 16 ^ k"
  shows "length limbs \<le> k div 8 + 1"
proof (rule ccontr)
  assume "\<not> length limbs \<le> k div 8 + 1"
  then have l: "k div 8 + 1 \<le> length limbs - 1" "1 < length limbs" by auto
  then have "B32 ^ (k div 8 + 1) \<le> B32 ^ (length limbs - 1)" by (intro power_increasing) auto
  also have "\<dots> \<le> lval limbs" using assms(1) l(2) by (intro lval_last_pos) (auto simp: normalized_def)
  also have "\<dots> < 16 ^ k" by (rule assms)
  also have "(16 :: nat) ^ k \<le> 16 ^ (8 * (k div 8 + 1))" using dividend_less_times_div [of 8 k] by (intro power_increasing) auto
  also have "\<dots> = B32 ^ (k div 8 + 1)" by (simp only: power_mult) simp
  finally show False by simp
qed

lemma normalized_if_large:
  assumes "xs \<noteq> []" "B32 ^ (length xs - 1) \<le> lval xs"
  shows "normalized xs"
proof (rule ccontr)
  assume "\<not> normalized xs"
  then have "last xs = 0" using assms(1) by (auto simp: normalized_def)
  then have "lval xs = lval (butlast xs)" using lval_snoc_last [OF assms(1)] by simp
  then show False using lval_bound [of "butlast xs"] assms(2) by simp
qed

text \<open>
  The capacity the parser allocates is enough for every digit string: a limb holds at least eight
  digits of any base up to 16, so the buffer never has to grow.
\<close>

lemma digit_step:
  assumes base: "1 < unat base" "unat base \<le> 16" and inv: "normalized limbs" "lval limbs < 16 ^ k"
    and cap: "k div 8 + 2 \<le> cap" and d: "d < unat base"
    and ma: "mul_add_loop base limbs (word_of_nat d) = (r, c)"
  obtains l where "(if c \<noteq> 0 then append_carry_limbs m r cap c else Some (r, cap)) = Some (l, cap)"
    and "lval l = lval limbs * unat base + d" and "normalized l" and "lval l < 16 ^ Suc k"
proof -
  have dw: "unat (word_of_nat d :: u64) = d" using base d by (simp add: unsigned_of_nat take_bit_nat_eq_self)
  have v: "lval r + B32 ^ length limbs * unat c = lval limbs * unat base + d" "length r = length limbs" "unat c < B32"
    using mul_add_loop_value [OF _ ma] base d by (simp_all add: dw)
  have ne: "limbs \<noteq> []" using inv(1) by (simp add: normalized_def)
  have "lval limbs * unat base + d < (lval limbs + 1) * unat base" using d by simp
  also have "\<dots> \<le> 16 ^ k * 16" using inv(2) base(2) by (intro mult_le_mono) auto
  finally have bd: "lval limbs * unat base + d < 16 ^ Suc k" by simp
  show ?thesis
  proof (cases "c = 0")
    case True
    have "normalized r"
    proof (cases "length limbs > 1")
      case big: True
      have "B32 ^ (length limbs - 1) \<le> lval limbs" using inv(1) big by (intro lval_last_pos) (auto simp: normalized_def)
      also have "\<dots> \<le> lval r" using v(1) True base(1) by (simp add: trans_le_add1)
      finally show ?thesis using v(2) ne by (intro normalized_if_large) auto
    next
      case False
      then show ?thesis using v(2) ne by (auto simp: normalized_def)
    qed
    then show ?thesis using True v bd by (intro that [of r]) simp_all
  next
    case False
    have "length r < cap" using limbs_count_bound [OF inv] cap v(2) by simp
    from append_carry_one [OF v(3) False this, of m] show ?thesis
      using False v bd by (intro that [of "r @ [ucast c]"])
        (auto simp: lval_append unat_ops normalized_def word_unat_eq_iff)
  qed
qed

lemma digits_loop_refines:
  assumes base: "1 < unat base" "unat base \<le> 16"
    and inv: "normalized limbs" "lval limbs < 16 ^ k" and cap: "(k + length cs) div 8 + 2 \<le> cap"
  shows "case parse_digits (unat base) sep cs (lval limbs) has prev of
      None \<Rightarrow> (\<forall>l h p. digits_loop m base sep cs limbs cap has prev = Inr (l, h, p) \<longrightarrow> \<not> h \<or> p)
        \<and> (\<forall>e. digits_loop m base sep cs limbs cap has prev = Inl e \<longrightarrow> e = bad_digits)
    | Some n \<Rightarrow> \<exists>l. digits_loop m base sep cs limbs cap has prev = Inr (l, True, False) \<and> lval l = n \<and> normalized l \<and> length l \<le> cap"
  using inv cap
proof (induction cs arbitrary: limbs k has prev)
  case Nil
  then show ?case using limbs_count_bound [OF Nil(1,2)] by auto
next
  case (Cons ch cs)
  have k8: "k div 8 + 2 \<le> cap" using Cons.prems(3) div_le_mono [of k "k + length (ch # cs)" 8] by linarith
  consider (sep) "ch = 0x5F" | (bad) "ch \<noteq> 0x5F" "digit_of (unat base) ch = None"
    | (dig) d where "ch \<noteq> 0x5F" "digit_of (unat base) ch = Some d" by (cases "digit_of (unat base) ch") auto
  then show ?case
  proof cases
    case sep
    have "(Suc k + length cs) div 8 + 2 \<le> cap" "lval limbs < 16 ^ Suc k" using Cons.prems by simp_all
    then have IH: "case parse_digits (unat base) sep cs (lval limbs) has True of
        None \<Rightarrow> (\<forall>l h p. digits_loop m base sep cs limbs cap has True = Inr (l, h, p) \<longrightarrow> \<not> h \<or> p)
          \<and> (\<forall>e. digits_loop m base sep cs limbs cap has True = Inl e \<longrightarrow> e = bad_digits)
      | Some n \<Rightarrow> \<exists>l. digits_loop m base sep cs limbs cap has True = Inr (l, True, False) \<and> lval l = n \<and> normalized l \<and> length l \<le> cap"
      using Cons.IH [OF Cons.prems(1), of "Suc k" has True] by simp
    show ?thesis
    proof (cases "sep \<and> has \<and> \<not> prev")
      case True
      then have "digits_loop m base sep (ch # cs) limbs cap has prev = digits_loop m base sep cs limbs cap has True"
        "parse_digits (unat base) sep (ch # cs) (lval limbs) has prev = parse_digits (unat base) sep cs (lval limbs) has True"
        using sep by simp_all
      then show ?thesis using IH by (simp only:)
    qed (use sep in auto)
  next
    case bad
    then show ?thesis by (auto simp: digit_of_def Let_def split: if_splits)
  next
    case (dig d)
    then have hd: "\<not> (hex_digit ch < 0 \<or> nat (hex_digit ch) \<ge> unat base)" "d = nat (hex_digit ch)" "d < unat base"
      by (auto simp: digit_of_def Let_def split: if_splits)
    then have w: "(word_of_int (hex_digit ch) :: u64) = word_of_nat d" by simp
    obtain r c where ma: "mul_add_loop base limbs (word_of_nat d) = (r, c)" by force
    obtain l where l: "(if c \<noteq> 0 then append_carry_limbs m r cap c else Some (r, cap)) = Some (l, cap)"
      "lval l = lval limbs * unat base + d" "normalized l" "lval l < 16 ^ Suc k"
      using digit_step [OF base Cons.prems(1,2) k8 hd(3) ma] by blast
    have "digits_loop m base sep (ch # cs) limbs cap has prev = digits_loop m base sep cs l cap True False"
      using dig(1) hd(1) ma l(1) by (auto simp: Let_def w split: if_splits)
    moreover have "parse_digits (unat base) sep (ch # cs) (lval limbs) has prev = parse_digits (unat base) sep cs (lval l) True False"
      using dig l(2) by simp
    moreover have "(Suc k + length cs) div 8 + 2 \<le> cap" using Cons.prems(3) by simp
    ultimately show ?thesis using Cons.IH [OF l(3,4), of True False] by (simp only:)
  qed
qed

definition digits_capacity :: "bytes \<Rightarrow> nat" where
  "digits_capacity digits = max 4 (length digits div 8 + 2)"

lemma digits_base_range:
  assumes "digits_base digits = (base, start)"
  shows "1 < unat base" "unat base \<le> 16" "start \<le> 2"
  using assms by (auto simp: digits_base_def Let_def split: if_splits)

lemma from_string_digits_refines:
  assumes "digits \<noteq> []" "digits_base digits = (base, start)" "start < length digits"
  shows "case parse_digits (unat base) sep (drop start digits) 0 False False of
      None \<Rightarrow> bigint_from_string_digits m digits neg sep \<in> {Inl bad_digits} \<union> (if mem_ok m then {} else {Inl oom})
    | Some n \<Rightarrow> yields m (digits_capacity digits) (bigint_from_string_digits m digits neg sep) (sm_int neg n)"
proof -
  define cap where "cap = digits_capacity digits"
  define cs where "cs = drop start digits"
  have capd: "(if length digits div 8 + 2 < 4 then 4 else length digits div 8 + 2) = cap" by (simp add: cap_def digits_capacity_def)
  have c: "(0 + length cs) div 8 + 2 \<le> cap" using div_le_mono [of "length cs" "length digits" 8] by (simp add: cap_def digits_capacity_def cs_def)
  have D: "bigint_from_string_digits m digits neg sep = (case limb_alloc m cap of
      None \<Rightarrow> Inl oom
    | Some limbs \<Rightarrow> (case digits_loop m base sep cs (take 1 limbs) cap False False of
         Inl e \<Rightarrow> Inl e
       | Inr (limbs, has_digit, prev_sep) \<Rightarrow> if \<not> has_digit \<or> prev_sep then Inl bad_digits else js_mkbigint_limbs m limbs neg))"
    using assms unfolding bigint_from_string_digits_def Let_def capd cs_def by simp
  show ?thesis unfolding cap_def [symmetric] cs_def [symmetric]
  proof (cases "limb_alloc m cap")
    case None
    then have "\<not> mem_ok m" by (auto simp: limb_alloc_def mem_ok_def Let_def split: if_splits)
    then show "case parse_digits (unat base) sep cs 0 False False of
      None \<Rightarrow> bigint_from_string_digits m digits neg sep \<in> {Inl bad_digits} \<union> (if mem_ok m then {} else {Inl oom})
    | Some n \<Rightarrow> yields m cap (bigint_from_string_digits m digits neg sep) (sm_int neg n)"
      using None D by (simp add: yields_def split: option.splits)
  next
    case (Some limbs)
    then have l: "take 1 limbs = [0]" using limb_alloc_some [OF Some] by (simp add: cap_def digits_capacity_def)
    have z: "lval [0] = 0" "lval [0] < 16 ^ 0" by simp_all
    have R: "case parse_digits (unat base) sep cs 0 False False of
      None \<Rightarrow> (\<forall>l h p. digits_loop m base sep cs [0] cap False False = Inr (l, h, p) \<longrightarrow> \<not> h \<or> p)
        \<and> (\<forall>e. digits_loop m base sep cs [0] cap False False = Inl e \<longrightarrow> e = bad_digits)
    | Some n \<Rightarrow> \<exists>l. digits_loop m base sep cs [0] cap False False = Inr (l, True, False) \<and> lval l = n \<and> normalized l \<and> length l \<le> cap"
      using digits_loop_refines [OF digits_base_range(1,2) [OF assms(2)] normalized_one z(2) c, where m = m and sep = sep and has = False and prev = False]
      unfolding z(1) .
    have D': "bigint_from_string_digits m digits neg sep = (case digits_loop m base sep cs [0] cap False False of
         Inl e \<Rightarrow> Inl e
       | Inr (limbs, has_digit, prev_sep) \<Rightarrow> if \<not> has_digit \<or> prev_sep then Inl bad_digits else js_mkbigint_limbs m limbs neg)"
      unfolding D Some option.case l ..
    show "case parse_digits (unat base) sep cs 0 False False of
      None \<Rightarrow> bigint_from_string_digits m digits neg sep \<in> {Inl bad_digits} \<union> (if mem_ok m then {} else {Inl oom})
    | Some n \<Rightarrow> yields m cap (bigint_from_string_digits m digits neg sep) (sm_int neg n)"
    proof (cases "parse_digits (unat base) sep cs 0 False False")
      case None
      then show ?thesis using R unfolding D' by (cases "digits_loop m base sep cs [0] cap False False") auto
    next
      case (Some n)
      then obtain l' where l': "digits_loop m base sep cs [0] cap False False = Inr (l', True, False)" "lval l' = n" "length l' \<le> cap"
        using R by auto
      have "0 < cap" by (simp add: cap_def digits_capacity_def)
      then show ?thesis using mkbigint_limbs_yields [OF l'(3), of m neg] Some l' unfolding D' by simp
    qed
  qed
qed

section \<open>Printing and reading back\<close>

lemma digit_of_dec:
  assumes "d < 10"
  shows "digit_of 10 (word_of_nat (48 + d)) = Some d" and "(word_of_nat (48 + d) :: byte) \<noteq> 0x5F"
proof -
  have "\<forall>d \<in> {..<10}. digit_of 10 (word_of_nat (48 + d)) = Some d \<and> (word_of_nat (48 + d) :: byte) \<noteq> 0x5F" by code_simp
  then show "digit_of 10 (word_of_nat (48 + d)) = Some d" and "(word_of_nat (48 + d) :: byte) \<noteq> 0x5F" using assms by auto
qed

lemma parse_print_u:
  "parse_digits 10 sep (print_u n @ rest) acc has prev = parse_digits 10 sep rest (acc * 10 ^ length (print_u n) + n) True False"
proof (induction n arbitrary: acc has prev rest rule: print_u.induct)
  case (1 n)
  show ?case
  proof (cases "n < 10")
    case True
    then show ?thesis using digit_of_dec [OF True] by (simp add: print_u.simps [of n])
  next
    case False
    have m: "n mod 10 < 10" by simp
    have "parse_digits 10 sep (print_u n @ rest) acc has prev
        = parse_digits 10 sep (print_u (n div 10) @ word_of_nat (48 + n mod 10) # rest) acc has prev"
      using False by (simp add: print_u.simps [of n])
    also have "\<dots> = parse_digits 10 sep rest ((acc * 10 ^ length (print_u (n div 10)) + n div 10) * 10 + n mod 10) True False"
      unfolding 1 [OF False] using digit_of_dec [OF m] by simp
    also have "(acc * 10 ^ length (print_u (n div 10)) + n div 10) * 10 + n mod 10 = acc * 10 ^ length (print_u n) + n"
      using False by (simp add: print_u.simps [of n] algebra_simps)
    finally show ?thesis .
  qed
qed

lemma print_u_length: "n < 10 ^ k \<Longrightarrow> 0 < k \<Longrightarrow> length (print_u n) \<le> k"
proof (induction n arbitrary: k rule: print_u.induct)
  case (1 n)
  show ?case
  proof (cases "n < 10")
    case True
    then show ?thesis using "1.prems" by (simp add: print_u.simps [of n])
  next
    case False
    obtain j where k: "k = Suc j" using "1.prems"(2) by (cases k) auto
    have "0 < j" using False "1.prems"(1) k by (cases j) auto
    moreover have "n div 10 < 10 ^ j" using "1.prems"(1) k by (simp add: less_mult_imp_div_less mult.commute)
    ultimately show ?thesis using "1.IH" [OF False, of j] False k by (simp add: print_u.simps [of n])
  qed
qed

lemma print_u_length_ge: "10 ^ k \<le> n \<Longrightarrow> k < length (print_u n)"
proof (induction n arbitrary: k rule: print_u.induct)
  case (1 n)
  show ?case
  proof (cases k)
    case 0
    then show ?thesis by (simp add: print_u.simps [of n])
  next
    case (Suc j)
    have "(10 :: nat) ^ 1 \<le> 10 ^ k" using Suc by (intro power_increasing) auto
    then have "\<not> n < 10" using "1.prems" by simp
    moreover have "10 ^ j \<le> n div 10" using "1.prems" Suc div_le_mono [of "10 ^ k" n 10] by simp
    ultimately show ?thesis using "1.IH" [of j] Suc by (simp add: print_u.simps [of n])
  qed
qed

lemma u32_dec_len_print: "u32_dec_len v = length (print_u (unat v))"
proof -
  have eq: "length (print_u n) = Suc k" if "10 ^ k \<le> n" "n < 10 ^ Suc k" for n k
    using print_u_length [of n "Suc k"] print_u_length_ge [of k n] that by simp
  have small: "length (print_u n) = 1" if "n < 10" for n using that by (simp add: print_u.simps [of n])
  have top: "unat v < 10 ^ 10" using unat_lt_B32 [of v] by (simp del: unat_lt_B32)
  show ?thesis
    unfolding u32_dec_len_def word_le_nat_alt
    using eq [of 1 "unat v"] eq [of 2 "unat v"] eq [of 3 "unat v"] eq [of 4 "unat v"] eq [of 5 "unat v"]
      eq [of 6 "unat v"] eq [of 7 "unat v"] eq [of 8 "unat v"] eq [of 9 "unat v"] small [of "unat v"] top by auto
qed

lemma print_09u_facts:
  assumes "n < 10 ^ 9"
  shows "length (print_09u n) = 9"
    and "parse_digits 10 sep (print_09u n @ rest) acc has prev = parse_digits 10 sep rest (acc * 10 ^ 9 + n) True False"
proof -
  have l: "length (print_u n) \<le> 9" using assms by (intro print_u_length) simp_all
  then show "length (print_09u n) = 9" by (simp add: print_09u_def)
  have z: "\<exists>h p. parse_digits 10 sep (replicate j 0x30 @ xs) acc has prev = parse_digits 10 sep xs (acc * 10 ^ j) h p" for j xs
  proof (induction j arbitrary: acc has prev)
    case (Suc j)
    have "digit_of 10 0x30 = Some 0" by code_simp
    then have "parse_digits 10 sep (replicate (Suc j) 0x30 @ xs) acc has prev = parse_digits 10 sep (replicate j 0x30 @ xs) (acc * 10) True False" by simp
    then show ?case using Suc [of "acc * 10" True False] by (simp add: algebra_simps)
  qed auto
  obtain h p where hp: "parse_digits 10 sep (print_09u n @ rest) acc has prev
      = parse_digits 10 sep (print_u n @ rest) (acc * 10 ^ (9 - length (print_u n))) h p"
    using z [of "9 - length (print_u n)" "print_u n @ rest"] by (auto simp: print_09u_def)
  have "acc * 10 ^ (9 - length (print_u n)) * 10 ^ length (print_u n) = acc * 10 ^ 9"
    using l by (simp only: mult.assoc power_add [symmetric]) simp
  then show "parse_digits 10 sep (print_09u n @ rest) acc has prev = parse_digits 10 sep rest (acc * 10 ^ 9 + n) True False"
    unfolding hp parse_print_u by (simp only:)
qed

text \<open>The value of a list of groups, least significant first.\<close>

fun gval :: "u32 list \<Rightarrow> nat" where
  "gval [] = 0"
| "gval (g # gs) = unat g + 10 ^ 9 * gval gs"

lemma gval_append: "gval (xs @ ys) = gval xs + 10 ^ (9 * length xs) * gval ys"
  by (induction xs) (simp_all add: algebra_simps power_add power_mult)

lemma decimal_groups_value:
  assumes "normalized tmp" "decimal_groups m tmp groups cap = Some gs"
  shows "\<exists>new. gs = groups @ new \<and> gval new = lval tmp \<and> (\<forall>g \<in> set new. unat g < 10 ^ 9)
    \<and> (if lval tmp = 0 then new = [] else new \<noteq> [] \<and> unat (last new) \<noteq> 0)"
  using assms
proof (induction m tmp groups cap rule: decimal_groups.induct)
  case (1 m tmp groups cap)
  show ?case
  proof (cases "limbs_is_zero tmp")
    case True
    then have "gs = groups" using "1.prems"(2) by (simp add: decimal_groups.simps [of m tmp])
    moreover have "lval tmp = 0" using True normalized_zero_iff [OF "1.prems"(1)] by simp
    ultimately show ?thesis by (intro exI [of _ "[]"]) simp
  next
    case False
    have ne: "tmp \<noteq> []" using "1.prems"(1) by (simp add: normalized_def)
    obtain q r where d: "bigint_div_small_inplace tmp 1000000000 = (q, r)" by force
    obtain cap' where c: "(if length groups = cap then grow_u32_buffer m cap else Some cap) = Some cap'"
      and rec: "decimal_groups m (bigint_normalize_limbs q) (groups @ [r]) cap' = Some gs"
      using "1.prems"(2) False ne d by (auto simp: decimal_groups.simps [of m tmp] split: option.splits)
    note v = div_small_value [OF _ d]
    have v': "lval q = lval tmp div 10 ^ 9" "unat r = lval tmp mod 10 ^ 9" "length q = length tmp" using v by simp_all
    have "q \<noteq> []" using v'(3) ne by auto
    then have nq: "normalized (bigint_normalize_limbs q)" by (rule normalized_normalize)
    have nz: "\<not> (tmp = [] \<or> limbs_is_zero tmp)" using ne False by simp
    obtain new where new: "gs = (groups @ [r]) @ new" "gval new = lval q" "\<forall>g \<in> set new. unat g < 10 ^ 9"
      "if lval q = 0 then new = [] else new \<noteq> [] \<and> unat (last new) \<noteq> 0"
      using "1.IH" [OF nz c d [symmetric] refl nq rec] by auto
    have lv: "lval tmp \<noteq> 0" using False normalized_zero_iff [OF "1.prems"(1)] by simp
    have "unat (last (r # new)) \<noteq> 0"
    proof (cases "lval q = 0")
      case True
      then show ?thesis using new(4) v' lv by (simp add: div_eq_0_iff)
    qed (use new(4) in simp)
    then show ?thesis using new v' lv by (intro exI [of _ "r # new"]) (auto simp: algebra_simps)
  qed
qed

text \<open>The group buffer never has to grow: a group takes more than 29 of the 32 bits of a limb.\<close>

lemma decimal_groups_total:
  assumes "normalized tmp" "2 ^ (29 * length groups) * lval tmp < 2 ^ (32 * k)" "cap = k * 2 + 1"
  shows "\<exists>gs. decimal_groups m tmp groups cap = Some gs"
  using assms
proof (induction m tmp groups cap rule: decimal_groups.induct)
  case (1 m tmp groups cap)
  show ?case
  proof (cases "limbs_is_zero tmp")
    case True
    then show ?thesis by (simp add: decimal_groups.simps [of m tmp])
  next
    case False
    have ne: "tmp \<noteq> []" using "1.prems"(1) by (simp add: normalized_def)
    have lv: "1 \<le> lval tmp" using False normalized_zero_iff [OF "1.prems"(1)] by simp
    have "2 ^ (29 * length groups) * 1 \<le> 2 ^ (29 * length groups) * lval tmp" using lv by (rule mult_le_mono2)
    then have "(2 :: nat) ^ (29 * length groups) < 2 ^ (32 * k)" using "1.prems"(2) by linarith
    then have "29 * length groups < 32 * k" by simp
    then have lt: "length groups < cap" using "1.prems"(3) by simp
    obtain q r where d: "bigint_div_small_inplace tmp 1000000000 = (q, r)" by force
    note v = div_small_value [OF _ d]
    have v': "lval q = lval tmp div 10 ^ 9" "length q = length tmp" using v by simp_all
    have "q \<noteq> []" using v'(2) ne by auto
    then have nq: "normalized (bigint_normalize_limbs q)" by (rule normalized_normalize)
    have nz: "\<not> (tmp = [] \<or> limbs_is_zero tmp)" using ne False by simp
    have c: "(if length groups = cap then grow_u32_buffer m cap else Some cap) = Some cap" using lt by simp
    have "2 ^ 29 * (lval tmp div 10 ^ 9) \<le> 10 ^ 9 * (lval tmp div 10 ^ 9)" by (intro mult_le_mono1) simp
    also have "\<dots> \<le> lval tmp" by simp
    finally have "2 ^ (29 * length groups) * (2 ^ 29 * lval q) \<le> 2 ^ (29 * length groups) * lval tmp" unfolding v' by (rule mult_le_mono2)
    moreover have "2 ^ (29 * length (groups @ [r])) * lval q = 2 ^ (29 * length groups) * (2 ^ 29 * lval q)" by (simp add: power_add)
    ultimately have "2 ^ (29 * length (groups @ [r])) * lval (bigint_normalize_limbs q) < 2 ^ (32 * k)"
      using "1.prems"(2) unfolding lval_normalize by linarith
    from "1.IH" [OF nz c d [symmetric] refl nq this "1.prems"(3)] obtain gs where
      "decimal_groups m (bigint_normalize_limbs q) (groups @ [r]) cap = Some gs" by blast
    then show ?thesis using nz c d lt by (simp add: decimal_groups.simps [of m tmp])
  qed
qed

lemma parse_groups:
  assumes "\<forall>g \<in> set gs. unat g < 10 ^ 9"
  shows "parse_digits 10 sep (concat (map (\<lambda>g. print_09u (unat g)) (rev gs))) acc True False
    = Some (acc * 10 ^ (9 * length gs) + gval gs)"
    and "length (concat (map (\<lambda>g. print_09u (unat g)) (rev gs))) = 9 * length gs"
proof -
  show "parse_digits 10 sep (concat (map (\<lambda>g. print_09u (unat g)) (rev gs))) acc True False = Some (acc * 10 ^ (9 * length gs) + gval gs)"
    using assms
  proof (induction gs arbitrary: acc rule: rev_induct)
    case (snoc g gs)
    then have g: "unat g < 10 ^ 9" by simp
    show ?case using snoc by (simp add: print_09u_facts(2) [OF g] gval_append algebra_simps power_add)
  qed simp
  show "length (concat (map (\<lambda>g. print_09u (unat g)) (rev gs))) = 9 * length gs"
    using assms by (induction gs) (simp_all add: print_09u_facts(1))
qed

lemma print_u_hd:
  assumes "n \<noteq> 0"
  shows "print_u n \<noteq> []" and "hd (print_u n) \<noteq> 0x30"
proof -
  have "print_u n \<noteq> [] \<and> hd (print_u n) \<noteq> 0x30" using assms
  proof (induction n rule: print_u.induct)
    case (1 n)
    show ?case
    proof (cases "n < 10")
      case True
      have "\<forall>d \<in> {1..<10}. (word_of_nat (48 + d) :: byte) \<noteq> 0x30" by code_simp
      then show ?thesis using True "1.prems" by (simp add: print_u.simps [of n])
    next
      case False
      then have "n div 10 \<noteq> 0" by (simp add: div_eq_0_iff)
      then show ?thesis using False "1.IH" by (simp add: print_u.simps [of n])
    qed
  qed
  then show "print_u n \<noteq> []" and "hd (print_u n) \<noteq> 0x30" by blast+
qed

lemma to_decimal_value:
  assumes "normalized limbs" "bigint_abs_to_decimal_string m limbs = Some s"
  shows "parse_digits 10 sep s 0 False False = Some (lval limbs)"
    and "s \<noteq> []" and "length s = 1 \<or> s ! 0 \<noteq> 0x30"
proof -
  have "parse_digits 10 sep s 0 False False = Some (lval limbs) \<and> s \<noteq> [] \<and> (length s = 1 \<or> s ! 0 \<noteq> 0x30)"
  proof (cases "limbs_is_zero limbs")
    case True
    have "digit_of 10 0x30 = Some 0" by code_simp
    then show ?thesis using True assms normalized_zero_iff [OF assms(1)]
      by (auto simp: bigint_abs_to_decimal_string_def split: if_splits)
  next
    case False
    have lv: "lval limbs \<noteq> 0" using False normalized_zero_iff [OF assms(1)] by simp
    have ne: "limbs \<noteq> []" using assms(1) by (simp add: normalized_def)
    obtain tmp gs where g: "limb_dup m limbs = Some tmp" "decimal_groups m tmp [] (length limbs * 2 + 1) = Some gs"
      and s: "s = take (u32_dec_len (last gs) + (length gs - 1) * 9)
        (print_u (unat (last gs)) @ concat (map (\<lambda>g. print_09u (unat g)) (rev (butlast gs))))"
      using assms(2) False by (auto simp: bigint_abs_to_decimal_string_def Let_def split: option.splits if_splits)
    have tmp: "tmp = limbs" using limb_dup_some [OF ne g(1)] .
    have G: "gval gs = lval limbs" "\<forall>g \<in> set gs. unat g < 10 ^ 9" "gs \<noteq> []" "unat (last gs) \<noteq> 0"
      using decimal_groups_value [OF assms(1) g(2) [unfolded tmp]] lv by auto
    have bl: "\<forall>g \<in> set (butlast gs). unat g < 10 ^ 9" using G(2) by (auto dest: in_set_butlastD)
    note P = parse_groups [OF bl]
    have s': "s = print_u (unat (last gs)) @ concat (map (\<lambda>g. print_09u (unat g)) (rev (butlast gs)))"
      unfolding s using P(2) by (simp add: u32_dec_len_print)
    have "gval gs = gval (butlast gs) + 10 ^ (9 * length (butlast gs)) * unat (last gs)"
      using gval_append [of "butlast gs" "[last gs]"] G(3) by simp
    then have "parse_digits 10 sep s 0 False False = Some (lval limbs)"
      unfolding s' parse_print_u using P(1) [of sep "unat (last gs)"] G(1) by (simp add: algebra_simps)
    then show ?thesis using print_u_hd [OF G(4)] by (simp add: s' nth_append hd_conv_nth)
  qed
  then show "parse_digits 10 sep s 0 False False = Some (lval limbs)" "s \<noteq> []" "length s = 1 \<or> s ! 0 \<noteq> 0x30" by blast+
qed

lemma to_decimal_total:
  assumes "normalized limbs" "mem_ok m"
  shows "\<exists>s. bigint_abs_to_decimal_string m limbs = Some s"
proof -
  have ne: "limbs \<noteq> []" using assms(1) by (simp add: normalized_def)
  have "2 ^ (29 * length ([] :: u32 list)) * lval limbs < 2 ^ (32 * length limbs)"
    using lval_bound [of limbs] by (simp add: pow_B32(2))
  from decimal_groups_total [OF assms(1) this refl, of m] obtain gs where
    "decimal_groups m limbs [] (length limbs * 2 + 1) = Some gs" by blast
  moreover have "limb_dup m limbs = Some limbs" using assms(2) ne by (simp add: limb_dup_def limb_alloc_def mem_ok_def)
  ultimately show ?thesis using assms(2) by (simp add: bigint_abs_to_decimal_string_def Let_def mem_ok_def)
qed

text \<open>Reading back what was printed gives the number, in either separator mode.\<close>

lemma decimal_roundtrip:
  assumes "normalized limbs" "bigint_abs_to_decimal_string m limbs = Some s"
  shows "yields m' (digits_capacity s) (bigint_from_string_digits m' s neg sep) (sm_int neg (lval limbs))"
proof -
  note v = to_decimal_value [OF assms]
  have "digits_base s = (10, 0)" using v(3) by (auto simp: digits_base_def)
  from from_string_digits_refines [OF v(2) this, where sep = sep and m = m' and neg = neg] show ?thesis using v(1) [of sep] v(2) by simp
qed

section \<open>Any radix\<close>

lemma swap_loop_length [simp]: "length (swap_loop i k out) = length out"
  by (induction k arbitrary: i out) simp_all

lemma swap_ends:
  assumes "length a = i" "length b = i" "out = a @ x # mid @ [y] @ b"
  shows "out[i := out ! (length out - 1 - i), length out - 1 - i := out ! i] = (a @ [y]) @ mid @ (x # b)"
proof -
  have l: "length out - 1 - i = length (a @ x # mid)" using assms by simp
  have "out ! i = x" "out ! length (a @ x # mid) = y" using assms by (simp_all add: nth_append)
  moreover have "out[i := y] = (a @ y # mid) @ y # b" using assms by (simp add: list_update_append)
  moreover have "((a @ y # mid) @ y # b)[length (a @ y # mid) := x] = (a @ y # mid) @ x # b" by (rule list_update_length)
  ultimately show ?thesis unfolding l by simp
qed

lemma swap_loop_middle:
  assumes "length a = i" "length b = i"
  shows "swap_loop i (length mid div 2) (a @ mid @ b) = a @ rev mid @ b"
  using assms
proof (induction "length mid div 2" arbitrary: i a b mid)
  case 0
  then have "length mid = 0 \<or> length mid = 1" by linarith
  then show ?case by (auto simp: length_Suc_conv)
next
  case (Suc k)
  then have "2 \<le> length mid" by simp
  then obtain x mid' y where mid: "mid = x # mid' @ [y]"
    by (metis One_nat_def Suc_1 Suc_le_length_iff append_butlast_last_id length_Cons list.size(3) not_less_eq_eq zero_le)
  have k: "k = length mid' div 2" using Suc.hyps(2) by (simp add: mid)
  note e = swap_ends [OF Suc.prems, of "a @ mid @ b" x mid' y]
  have "swap_loop i (Suc k) (a @ mid @ b) = swap_loop (Suc i) k ((a @ [y]) @ mid' @ (x # b))"
    using e by (simp only: swap_loop.simps) (simp add: mid)
  also have "\<dots> = (a @ [y]) @ rev mid' @ (x # b)" unfolding k using Suc.prems by (intro Suc.hyps(1)) (simp_all add: k)
  finally show ?case using Suc.hyps(2) by (simp add: mid)
qed

lemma swap_loop_rev: "swap_loop 0 (length out div 2) out = rev out"
  using swap_loop_middle [of "[]" 0 "[]" out] by simp

text \<open>The number a digit string stands for, most significant digit first.\<close>

definition digit_val :: "byte \<Rightarrow> nat" where
  "digit_val c = (if unat c < 58 then unat c - 48 else unat c - 87)"

definition radix_value :: "nat \<Rightarrow> bytes \<Rightarrow> nat" where
  "radix_value radix s = foldl (\<lambda>acc c. acc * radix + digit_val c) 0 s"

lemma digit_val_map: "d < 36 \<Longrightarrow> digit_val (digit_map d) = d"
proof -
  have "\<forall>d \<in> set [0..<36]. digit_val (digit_map d) = d" by code_simp
  then show "d < 36 \<Longrightarrow> digit_val (digit_map d) = d" by simp
qed

lemma radix_value_snoc: "radix_value radix (s @ [c]) = radix_value radix s * radix + digit_val c"
  by (simp add: radix_value_def)

lemma radix_value_append: "radix_value radix (s @ t) = radix_value radix s * radix ^ length t + radix_value radix t"
proof (induction t rule: rev_induct)
  case (snoc c t)
  have "radix_value radix (s @ t @ [c]) = radix_value radix (s @ t) * radix + digit_val c"
    using radix_value_snoc [of radix "s @ t" c] by simp
  then show ?case using snoc by (simp add: radix_value_snoc algebra_simps)
qed (simp add: radix_value_def)

lemma radix_digits_value:
  assumes "normalized tmp" "1 < unat radix" "unat radix \<le> 36" "radix_digits m radix tmp out cap = Some res"
  shows "\<exists>new. res = out @ new \<and> radix_value (unat radix) (rev new) = lval tmp
    \<and> (\<forall>c \<in> set new. digit_val c < unat radix)
    \<and> (if lval tmp = 0 then new = [] else new \<noteq> [] \<and> digit_val (last new) \<noteq> 0)"
  using assms
proof (induction m radix tmp out cap rule: radix_digits.induct)
  case (1 m radix tmp out cap)
  show ?case
  proof (cases "limbs_is_zero tmp")
    case True
    then have "res = out" using "1.prems"(4) by (simp add: radix_digits.simps [of m radix tmp])
    moreover have "lval tmp = 0" using True normalized_zero_iff [OF "1.prems"(1)] by simp
    ultimately show ?thesis by (intro exI [of _ "[]"]) (simp add: radix_value_def)
  next
    case False
    have ne: "tmp \<noteq> []" using "1.prems"(1) by (simp add: normalized_def)
    obtain q r where d: "bigint_div_small_inplace tmp radix = (q, r)" by force
    obtain cap' where c: "(if length out + 1 \<ge> cap then (if heap_ok m (cap * 2) then Some (cap * 2) else None) else Some cap) = Some cap'"
      and rec: "radix_digits m radix (bigint_normalize_limbs q) (out @ [digit_map (unat r)]) cap' = Some res"
      using "1.prems"(2,4) False ne d by (auto simp: radix_digits.simps [of m radix tmp] split: option.splits)
    have v: "lval q = lval tmp div unat radix" "unat r = lval tmp mod unat radix" "length q = length tmp"
      using div_small_value [OF _ d] "1.prems"(2) by simp_all
    have rr: "unat r < unat radix" using v(2) "1.prems"(2) by simp
    then have dv: "digit_val (digit_map (unat r)) = unat r" using "1.prems"(3) by (intro digit_val_map) simp
    have "q \<noteq> []" using v(3) ne by auto
    then have nq: "normalized (bigint_normalize_limbs q)" by (rule normalized_normalize)
    have nz: "\<not> (tmp = [] \<or> limbs_is_zero tmp)" "\<not> unat radix \<le> 1" using ne False "1.prems"(2) by simp_all
    obtain new where new: "res = (out @ [digit_map (unat r)]) @ new" "radix_value (unat radix) (rev new) = lval q"
      "\<forall>c \<in> set new. digit_val c < unat radix"
      "if lval q = 0 then new = [] else new \<noteq> [] \<and> digit_val (last new) \<noteq> 0"
      using "1.IH" [OF nz c d [symmetric] refl nq "1.prems"(2,3) rec] by auto
    have lv: "lval tmp \<noteq> 0" using False normalized_zero_iff [OF "1.prems"(1)] by simp
    have "digit_val (last (digit_map (unat r) # new)) \<noteq> 0"
    proof (cases "lval q = 0")
      case True
      then show ?thesis using new(4) v lv dv div_mult_mod_eq [of "lval tmp" "unat radix"] by simp
    qed (use new(4) in simp)
    then show ?thesis using new v lv dv rr by (intro exI [of _ "digit_map (unat r) # new"]) (auto simp: radix_value_snoc)
  qed
qed

lemma to_radix_value:
  assumes "normalized limbs" "1 < unat radix" "unat radix \<le> 36" "bigint_abs_to_radix_string m limbs radix = Some s"
  shows "radix_value (unat radix) s = lval limbs" and "\<forall>c \<in> set s. digit_val c < unat radix"
    and "s \<noteq> []" and "length s = 1 \<or> digit_val (s ! 0) \<noteq> 0"
proof -
  have "radix_value (unat radix) s = lval limbs \<and> (\<forall>c \<in> set s. digit_val c < unat radix) \<and> s \<noteq> [] \<and> (length s = 1 \<or> digit_val (s ! 0) \<noteq> 0)"
  proof (cases "limbs_is_zero limbs")
    case True
    then show ?thesis using assms normalized_zero_iff [OF assms(1)]
      by (auto simp: bigint_abs_to_radix_string_def radix_value_def digit_val_def split: if_splits)
  next
    case False
    have lv: "lval limbs \<noteq> 0" using False normalized_zero_iff [OF assms(1)] by simp
    have ne: "limbs \<noteq> []" using assms(1) by (simp add: normalized_def)
    obtain tmp out where g: "limb_dup m limbs = Some tmp" "radix_digits m radix tmp [] (length limbs * 32 + 2) = Some out"
      and s: "s = rev out"
      using assms(4) False by (auto simp: bigint_abs_to_radix_string_def Let_def swap_loop_rev split: option.splits if_splits)
    have tmp: "tmp = limbs" using limb_dup_some [OF ne g(1)] .
    from radix_digits_value [OF assms(1-3) g(2) [unfolded tmp]] lv show ?thesis
      by (auto simp: s hd_conv_nth [symmetric] hd_rev)
  qed
  then show "radix_value (unat radix) s = lval limbs" and "\<forall>c \<in> set s. digit_val c < unat radix"
    and "s \<noteq> []" and "length s = 1 \<or> digit_val (s ! 0) \<noteq> 0" by blast+
qed

end
