(* ===== verification/Bigint_Builtins.thy ===== *)
theory Bigint_Builtins
  imports Bigint_String
begin

text \<open>
  Exponentiation and the builtins of \<open>src/src/modules/bigint.c\<close>: \<open>BigInt()\<close>, \<open>BigInt.asIntN\<close>,
  \<open>BigInt.asUintN\<close>, \<open>toString\<close> and \<open>valueOf\<close>, with the conversions they make.
\<close>

section \<open>Exponentiation\<close>

text \<open>
  Square and multiply. The loop is given a number of rounds; \<open>None\<close> would be a loop that is still
  running, and \<open>exp_value\<close> below shows that the bit length of the exponent is enough. The source does
  not test the allocation of the initial \<open>1n\<close>: an error value there is read as a payload.
\<close>

fun exp_loop :: "nat \<Rightarrow> mem \<Rightarrow> bigint_payload \<Rightarrow> bigint_payload \<Rightarrow> bigint_payload \<Rightarrow> bigint_payload outcome option" where
  "exp_loop 0 m result b e = (if bigint_is_zero e then Some (Inr result) else None)"
| "exp_loop (Suc rounds) m result b e =
     (if bigint_is_zero e then Some (Inr result)
      else case (if bigint_is_odd e then bigint_mul m result b else Inr result) of
             Inl err \<Rightarrow> Some (Inl err)
           | Inr result \<Rightarrow>
               (case bigint_mul m b b of
                  Inl err \<Rightarrow> Some (Inl err)
                | Inr b \<Rightarrow>
                    (case bigint_shift_right m e 1 of
                       Inl err \<Rightarrow> Some (Inl err)
                     | Inr e \<Rightarrow> exp_loop rounds m result b e)))"

definition bigint_exp :: "mem \<Rightarrow> bigint_payload \<Rightarrow> bigint_payload \<Rightarrow> bigint_payload outcome option" where
  "bigint_exp m base exp =
     (if bigint_is_negative exp then Some (Inl (js_mkerr ''Exponent must be positive''))
      else if bigint_is_zero exp then Some (js_mkbigint m [0x31] False)
      else case js_mkbigint m [0x31] False of
             Inl err \<Rightarrow> Some (Inl undefined_behaviour)
           | Inr result \<Rightarrow> exp_loop (bigint_abs_bitlen_limbs (bigint_limbs exp)) m result base exp)"

section \<open>Builtins\<close>

text \<open>
  \<open>%.0f\<close> of a finite integral double prints its integer value exactly; a negative zero, which
  \<open>d < 0\<close> does not see, keeps its sign in print.
\<close>

definition print_0f :: "bool \<Rightarrow> nat \<Rightarrow> bytes" where
  "print_0f neg n = (if neg then 0x2D # print_u n else print_u n)"

fun bigint_from_value :: "mem \<Rightarrow> js_value \<Rightarrow> bigint_payload outcome" where
  "bigint_from_value m (JsBigInt v) = Inr v"
| "bigint_from_value m (JsNumber d) =
     (if \<not> dbl_isfinite d then Inl (js_mkerr ''Cannot convert Infinity or NaN to BigInt'')
      else if \<not> dbl_is_integral d then Inl (js_mkerr ''Cannot convert non-integer to BigInt'')
      else
        let neg = (dbl_sign d \<and> dbl_scaled d \<noteq> 0);
            buf = print_0f (dbl_sign d \<and> \<not> neg) (dbl_scaled d div 2 ^ 1074)
        in if \<not> heap_ok m (length buf + 1) then Inl oom else js_mkbigint m buf neg)"
| "bigint_from_value m (JsString str) =
     (let str = dropWhile is_space str;
          str = rev (dropWhile is_space (rev str))
      in if str = [] then js_mkbigint m [0x30] False
         else
           let neg = (hd str = 0x2D);
               str = (if hd str = 0x2D \<or> hd str = 0x2B then tl str else str)
           in if str = [] then Inl bad_digits else bigint_from_string_digits m str neg False)"
| "bigint_from_value m (JsBool b) = js_mkbigint m [if b then 0x31 else 0x30] False"
| "bigint_from_value m _ = Inl (js_mkerr ''Cannot convert to BigInt'')"

definition builtin_BigInt :: "mem \<Rightarrow> bool \<Rightarrow> js_value list \<Rightarrow> bigint_payload outcome" where
  "builtin_BigInt m new_target args =
     (if new_target then Inl (js_mkerr_type ''BigInt is not a constructor'')
      else case args of [] \<Rightarrow> js_mkbigint m [0x30] False | arg # _ \<Rightarrow> bigint_from_value m arg)"

definition bigint_to_u64 :: "bigint_payload \<Rightarrow> u64 outcome" where
  "bigint_to_u64 value =
     (case bigint_parse_u64 value of
        None \<Rightarrow> Inl (js_mkerr_range ''Invalid bits'')
      | Some out \<Rightarrow> Inr out)"

text \<open>
  \<open>to_number\<close> stands for \<open>js_to_number\<close> of the runtime. The limit \<open>18446744073709551615.0\<close> of the
  source is the double \<open>2 ^ 64\<close>; converting a larger or equal value to \<open>uint64_t\<close> is undefined.
\<close>

fun bigint_asint_bits :: "(js_value \<Rightarrow> u64) \<Rightarrow> js_value \<Rightarrow> u64 outcome" where
  "bigint_asint_bits to_number (JsBigInt v) = bigint_to_u64 v"
| "bigint_asint_bits to_number arg =
     (let bits = to_number arg
      in if \<not> dbl_isfinite bits \<or> (dbl_sign bits \<and> dbl_scaled bits \<noteq> 0) \<or> \<not> dbl_is_integral bits
         then Inl (js_mkerr_range ''Invalid bits'')
         else if dbl_scaled bits > 2 ^ 64 * 2 ^ 1074 then Inl (js_mkerr_range ''Invalid bits'')
         else if dbl_scaled bits div 2 ^ 1074 \<ge> 2 ^ 64 then Inl undefined_behaviour
         else Inr (word_of_nat (dbl_scaled bits div 2 ^ 1074)))"

text \<open>The reduction both builtins start with: the remainder made non-negative.\<close>

definition as_n_residue :: "mem \<Rightarrow> bigint_payload \<Rightarrow> u64 \<Rightarrow> (bigint_payload \<times> bigint_payload) outcome" where
  "as_n_residue m value bits =
     (case bigint_pow2 m bits of
        Inl e \<Rightarrow> Inl e
      | Inr mod_ \<Rightarrow>
          (case bigint_mod m value mod_ of
             Inl e \<Rightarrow> Inl e
           | Inr res \<Rightarrow>
               if bigint_is_negative res then
                 (case bigint_add m res mod_ of Inl e \<Rightarrow> Inl e | Inr adj \<Rightarrow> Inr (adj, mod_))
               else Inr (res, mod_)))"

definition builtin_BigInt_asIntN :: "mem \<Rightarrow> (js_value \<Rightarrow> u64) \<Rightarrow> js_value list \<Rightarrow> bigint_payload outcome" where
  "builtin_BigInt_asIntN m to_number args =
     (if length args < 2 then Inl (js_mkerr ''BigInt.asIntN requires 2 arguments'')
      else case bigint_asint_bits to_number (args ! 0) of
             Inl e \<Rightarrow> Inl e
           | Inr bits \<Rightarrow>
               (case args ! 1 of
                  JsBigInt value \<Rightarrow>
                    if bits = 0 then js_mkbigint m [0x30] False
                    else (case as_n_residue m value bits of
                            Inl e \<Rightarrow> Inl e
                          | Inr (res, mod_) \<Rightarrow>
                              (case bigint_pow2 m (bits - 1) of
                                 Inl e \<Rightarrow> Inl e
                               | Inr threshold \<Rightarrow>
                                   if bigint_compare res threshold \<ge> 0 then bigint_sub m res mod_ else Inr res))
                | _ \<Rightarrow> Inl (js_mkerr_type ''Cannot convert to BigInt'')))"

definition builtin_BigInt_asUintN :: "mem \<Rightarrow> (js_value \<Rightarrow> u64) \<Rightarrow> js_value list \<Rightarrow> bigint_payload outcome" where
  "builtin_BigInt_asUintN m to_number args =
     (if length args < 2 then Inl (js_mkerr ''BigInt.asUintN requires 2 arguments'')
      else case bigint_asint_bits to_number (args ! 0) of
             Inl e \<Rightarrow> Inl e
           | Inr bits \<Rightarrow>
               (case args ! 1 of
                  JsBigInt value \<Rightarrow>
                    if bits = 0 then js_mkbigint m [0x30] False
                    else (case as_n_residue m value bits of Inl e \<Rightarrow> Inl e | Inr (res, mod_) \<Rightarrow> Inr res)
                | _ \<Rightarrow> Inl (js_mkerr_type ''Cannot convert to BigInt'')))"

text \<open>
  \<open>unwrap\<close> stands for \<open>unwrap_primitive\<close> of the runtime; a radix argument is the double truncated to
  \<open>int\<close>, which is undefined outside the range of \<open>int\<close>.
\<close>

definition dbl_to_int :: "u64 \<Rightarrow> int option" where
  "dbl_to_int d =
     (let i = dbl_int d
      in if dbl_isfinite d \<and> - (2 ^ 31) \<le> i \<and> i < 2 ^ 31 then Some i else None)"

definition bigint_this :: "(js_value \<Rightarrow> js_value) \<Rightarrow> js_value \<Rightarrow> bigint_payload option" where
  "bigint_this unwrap this_val =
     (case this_val of
        JsBigInt v \<Rightarrow> Some v
      | _ \<Rightarrow> (case unwrap this_val of JsBigInt v \<Rightarrow> Some v | _ \<Rightarrow> None))"

definition toString_radix :: "js_value list \<Rightarrow> int outcome" where
  "toString_radix args =
     (case args of
        JsNumber d # _ \<Rightarrow>
          (case dbl_to_int d of
             None \<Rightarrow> Inl undefined_behaviour
           | Some radix \<Rightarrow>
               if radix < 2 \<or> radix > 36 then Inl (js_mkerr ''radix must be between 2 and 36'') else Inr radix)
      | _ \<Rightarrow> Inr 10)"

definition builtin_bigint_toString ::
  "mem \<Rightarrow> (js_value \<Rightarrow> js_value) \<Rightarrow> js_value \<Rightarrow> js_value list \<Rightarrow> bytes outcome" where
  "builtin_bigint_toString m unwrap this_val args =
     (case bigint_this unwrap this_val of
        None \<Rightarrow> Inl (js_mkerr ''toString called on non-BigInt'')
      | Some val \<Rightarrow>
          (case toString_radix args of
             Inl e \<Rightarrow> Inl e
           | Inr radix \<Rightarrow>
               let neg = bigint_is_negative val;
                   limbs = bigint_limbs val
               in case (if radix = 10 then bigint_abs_to_decimal_string m limbs
                        else bigint_abs_to_radix_string m limbs (word_of_int radix)) of
                    None \<Rightarrow> Inl oom
                  | Some digits \<Rightarrow>
                      if \<not> neg then Inr digits
                      else if \<not> heap_ok m (length digits + 2) then Inl oom
                      else Inr (0x2D # digits)))"

definition builtin_bigint_valueOf :: "(js_value \<Rightarrow> js_value) \<Rightarrow> js_value \<Rightarrow> js_value outcome" where
  "builtin_bigint_valueOf unwrap this_val =
     (case bigint_this unwrap this_val of
        None \<Rightarrow> Inl (js_mkerr ''valueOf called on non-BigInt'')
      | Some v \<Rightarrow> Inr (JsBigInt v))"

section \<open>Exponentiation is the integer power\<close>

lemma small_literal:
  "yields m 4 (js_mkbigint m [0x31] False) 1" "yields m 4 (js_mkbigint m [0x30] False) 0"
proof -
  have "digits_base [0x31] = (10, 0)" "parse_digits 10 True [0x31] 0 False False = Some 1"
    "digits_base [0x30] = (10, 0)" "parse_digits 10 True [0x30] 0 False False = Some 0" by code_simp+
  then show "yields m 4 (js_mkbigint m [0x31] False) 1" "yields m 4 (js_mkbigint m [0x30] False) 0"
    using from_string_digits_refines [of "[0x31]" 10 0, where sep = True and m = m and neg = False] from_string_digits_refines [of "[0x30]" 10 0, where sep = True and m = m and neg = False]
    by (simp_all add: js_mkbigint_def digits_capacity_def del: parse_digits.simps)
qed

lemma normalized_limbs_le:
  assumes "normalized limbs" "lval limbs < B32 ^ k" "0 < k"
  shows "length limbs \<le> k"
proof (rule ccontr)
  assume "\<not> length limbs \<le> k"
  then have l: "k \<le> length limbs - 1" "1 < length limbs" using assms(3) by auto
  have "B32 ^ k \<le> B32 ^ (length limbs - 1)" using l(1) by (intro power_increasing) auto
  also have "\<dots> \<le> lval limbs" using assms(1) l(2) by (intro lval_last_pos) (auto simp: normalized_def)
  finally show False using assms(2) by simp
qed

lemma wf_length_le: "bigint_wf v \<Longrightarrow> \<bar>ival v\<bar> < int (B32 ^ k) \<Longrightarrow> 0 < k \<Longrightarrow> length (bigint_limbs v) \<le> k"
  by (rule normalized_limbs_le) (simp_all only: bigint_wf_limbs ival_abs of_nat_less_iff)

lemma yields_case:
  assumes "yields m c r v" "\<And>x. bigint_wf x \<Longrightarrow> ival x = v \<Longrightarrow> Q (f x)"
    "\<not> (mem_ok m \<and> c \<le> UINT32_MAX) \<Longrightarrow> Q (g oom)"
  shows "Q (case r of Inl e \<Rightarrow> g e | Inr x \<Rightarrow> f x)"
  using assms by (auto simp: yields_def split: sum.splits)

lemma power_halves: "(if odd x then r * b else r) * (b * b) ^ (x div 2) = r * b ^ x" for r b :: int
proof -
  have "b ^ x = b ^ (2 * (x div 2) + x mod 2)" by simp
  also have "\<dots> = (b * b) ^ (x div 2) * b ^ (x mod 2)" unfolding power_add power_mult by (simp add: power2_eq_square)
  finally show ?thesis by (simp add: odd_iff_mod_2_eq_one)
qed

lemma abs_mult_less: "\<bar>a\<bar> < int (B32 ^ i) \<Longrightarrow> \<bar>b\<bar> < int (B32 ^ j) \<Longrightarrow> \<bar>a * b\<bar> < int (B32 ^ (i + j))"
  by (simp only: abs_mult power_add of_nat_mult) (rule mult_strict_mono', simp_all)

lemma mul_yields_small:
  assumes "bigint_wf a" "bigint_wf b" "\<bar>ival a\<bar> < int (B32 ^ i)" "\<bar>ival b\<bar> < int (B32 ^ j)" "0 < i" "0 < j" "i + j + 1 \<le> c"
  shows "yields m c (bigint_mul m a b) (ival a * ival b)"
  using mul_value [OF assms(1,2), of m] wf_length_le [OF assms(1,3,5)] wf_length_le [OF assms(2,4,6)] assms(7)
  by (elim yields_mono) linarith

lemma exp_loop_value:
  assumes "bigint_wf result" "bigint_wf b" "bigint_wf e" "0 \<le> ival e" "nat (ival e) < 2 ^ rounds"
    and "\<bar>ival result\<bar> < int (B32 ^ r)" "\<bar>ival b\<bar> < int (B32 ^ k)" "0 < r" "0 < k" "r + k * nat (ival e) \<le> n"
  shows "\<exists>out. exp_loop rounds m result b e = Some out \<and> yields m (2 * n + 1) out (ival result * ival b ^ nat (ival e))"
  using assms
proof (induction rounds arbitrary: result b e r k)
  case 0
  then show ?case using is_zero_value [OF "0.prems"(3)] by (auto simp: yields_def)
next
  case (Suc rounds)
  note p = Suc.prems
  show ?case
  proof (cases "bigint_is_zero e")
    case True
    then show ?thesis using is_zero_value [OF p(3)] p(1) by (auto simp: yields_def)
  next
    case False
    define x where "x = nat (ival e)"
    have x: "ival e = int x" "0 < x" using False is_zero_value [OF p(3)] p(4) by (auto simp: x_def)
    have kx: "k + r \<le> n" "k \<le> n" "x \<le> n" "0 < n"
    proof -
      have "k * 1 \<le> k * x" "1 * x \<le> k * x" using x(2) p(9) by (intro mult_le_mono; simp)+
      then have "k \<le> k * x" "x \<le> k * x" by (simp_all only: mult_1 mult_1_right)
      then show "k + r \<le> n" "k \<le> n" "x \<le> n" "0 < n" using p(8,10) unfolding x_def [symmetric] by linarith+
    qed
    define r1 where "r1 = (if odd x then bigint_mul m result b else Inr result)"
    define v1 where "v1 = (if odd x then ival result * ival b else ival result)"
    define k1 where "k1 = (if odd x then r + k else r)"
    have y1: "yields m (2 * n + 1) r1 v1"
      using mul_yields_small [OF p(1,2,6,7,8,9), of "2 * n + 1" m] kx p(1) by (auto simp: r1_def v1_def yields_self)
    have v1: "\<bar>v1\<bar> < int (B32 ^ k1)" using abs_mult_less [OF p(6,7)] p(6) by (simp add: v1_def k1_def)
    have y2: "yields m (2 * n + 1) (bigint_mul m b b) (ival b * ival b)"
      using mul_yields_small [OF p(2,2,7,7,9,9), of "2 * n + 1" m] kx by simp
    have le: "length (bigint_limbs e) + 1 \<le> 2 * n + 1 \<or> \<not> 2 * n + 1 \<le> UINT32_MAX"
    proof (cases "2 * n + 1 \<le> UINT32_MAX")
      case True
      then have "\<bar>ival e\<bar> < int (B32 ^ 1)" using kx(3) x(1) by (simp add: UINT32_MAX_def)
      from wf_length_le [OF p(3) this] show ?thesis using kx(4) by simp
    qed simp
    have y3: "yields m (2 * n + 1) (bigint_shift_right m e 1) (int (x div 2))"
      using shift_right_value [OF p(3), of m 1] le x(1) by (auto simp: yields_def zdiv_int split: sum.splits)
    have step: "exp_loop (Suc rounds) m result b e = (case r1 of Inl err \<Rightarrow> Some (Inl err)
        | Inr result \<Rightarrow> (case bigint_mul m b b of Inl err \<Rightarrow> Some (Inl err)
        | Inr b \<Rightarrow> (case bigint_shift_right m e 1 of Inl err \<Rightarrow> Some (Inl err)
        | Inr e \<Rightarrow> exp_loop rounds m result b e)))"
      using False is_odd_value [OF p(3)] x(1) by (simp add: r1_def)
    let ?Q = "\<lambda>res. \<exists>out. res = Some out \<and> yields m (2 * n + 1) out (ival result * ival b ^ nat (ival e))"
    have core: "?Q (exp_loop rounds m result' b' e')"
      if w: "bigint_wf result'" "ival result' = v1" "bigint_wf b'" "ival b' = ival b * ival b" "bigint_wf e'" "ival e' = int (x div 2)"
      for result' b' e'
    proof -
      have e5: "nat (ival e') < 2 ^ rounds" using p(5) unfolding w(6) x_def [symmetric] nat_int by (simp add: less_mult_imp_div_less)
      have "k1 + (k + k) * (x div 2) = r + k * x"
        by (cases "odd x") (auto simp: k1_def algebra_simps elim!: oddE evenE)
      then have e10: "k1 + (k + k) * nat (ival e') \<le> n" using p(10) w(6) by (simp only: x_def [symmetric] nat_int)
      have e7: "\<bar>ival b'\<bar> < int (B32 ^ (k + k))" unfolding w(4) by (rule abs_mult_less [OF p(7,7)])
      have val: "ival result' * ival b' ^ nat (ival e') = ival result * ival b ^ nat (ival e)"
        unfolding v1_def w(2,4,6) nat_int x_def [symmetric] by (rule power_halves)
      have e: "0 < k1" "0 < k + k" "\<bar>ival result'\<bar> < int (B32 ^ k1)" "0 \<le> ival e'"
        using p(8,9) v1 w(2,6) by (simp_all add: k1_def)
      show ?thesis using Suc.IH [OF w(1,3,5) e(4) e5 e(3) e7 e(1,2) e10] unfolding val .
    qed
    have bad: "\<not> (mem_ok m \<and> 2 * n + 1 \<le> UINT32_MAX) \<Longrightarrow> ?Q (Some (Inl oom))" by (simp add: yields_def)
    show ?thesis unfolding step 
      by (rule yields_case [OF y1], rule yields_case [OF y2], rule yields_case [OF y3], rule core) (assumption | rule bad)+
  qed
qed

text \<open>
  The number of rounds given to the loop is the bit length of the exponent, so it always ends. A
  refused allocation of the initial \<open>1n\<close> is the only way to anything else than the power or \<open>oom\<close>.
\<close>

lemma exp_value:
  assumes "bigint_wf base" "bigint_wf exp" "0 \<le> ival exp"
    and n: "n = 1 + length (bigint_limbs base) * nat (ival exp)"
  shows "\<exists>out. bigint_exp m base exp = Some out \<and>
    (yields m (2 * n + 1) out (ival base ^ nat (ival exp)) \<or> out = Inl undefined_behaviour \<and> \<not> mem_ok m)"
proof (cases "bigint_is_zero exp")
  case True
  then have "ival exp = 0" using is_zero_value [OF assms(2)] by simp
  then show ?thesis using True small_literal(1) [of m] bigint_wf_negative [OF assms(2)]
    by (auto simp: bigint_exp_def yields_def UINT32_MAX_def split: sum.splits)
next
  case False
  have neg: "\<not> bigint_is_negative exp" using bigint_wf_negative [OF assms(2)] assms(3) by simp
  show ?thesis
  proof (cases "js_mkbigint m [0x31] False")
    case (Inl e)
    then show ?thesis using False neg small_literal(1) [of m] by (auto simp: bigint_exp_def yields_def UINT32_MAX_def)
  next
    case (Inr one)
    have one: "bigint_wf one" "ival one = 1" using small_literal(1) [of m] Inr by (simp_all add: yields_def)
    have le: "lval (bigint_limbs exp) < 2 ^ bigint_abs_bitlen_limbs (bigint_limbs exp)"
      by (rule bitlen_bounds(2)) (use False is_zero_value [OF assms(2)] assms(2) in \<open>simp_all add: ival_def\<close>)
    have "nat (ival exp) = lval (bigint_limbs exp)" using ival_abs [of exp] assms(3) by simp
    then have e5: "nat (ival exp) < 2 ^ bigint_abs_bitlen_limbs (bigint_limbs exp)" using le by simp
    have e7: "\<bar>ival base\<bar> < int (B32 ^ length (bigint_limbs base))" using lval_bound [of "bigint_limbs base"] by (simp only: ival_abs of_nat_less_iff)
    have e6: "\<bar>ival one\<bar> < int (B32 ^ 1)" by (simp add: one)
    from exp_loop_value [OF one(1) assms(1,2,3) e5 e6 e7 _ _ eq_refl [OF n [symmetric]], of m] show ?thesis
      using False neg Inr one(2) bigint_wf_pos [OF assms(1)] by (auto simp: bigint_exp_def)
  qed
qed

section \<open>Reduction modulo a power of two\<close>

lemma smod_to_mod:
  assumes "0 < (b :: int)"
  shows "(if a smod b < 0 then a smod b + b else a smod b) = a mod b"
proof -
  define c :: int where "c = of_bool (sgn a \<noteq> sgn b \<and> \<not> b dvd a)"
  have e: "a mod b = a smod b + b * c" unfolding c_def by (rule modulo_int_eq_signed_modulo_int)
  have c: "c = 0 \<or> c = 1" by (auto simp: c_def)
  show ?thesis using c e assms pos_mod_bound [of b a] pos_mod_sign [of b a] by auto
qed

lemma pow2_length_le: "bigint_wf v \<Longrightarrow> 0 \<le> ival v \<Longrightarrow> ival v \<le> 2 ^ n \<Longrightarrow> length (bigint_limbs v) \<le> n div 32 + 1"
proof (rule wf_length_le)
  assume a: "0 \<le> ival v" "ival v \<le> 2 ^ n"
  have "n < 32 * (n div 32 + 1)" using dividend_less_times_div [of 32 n] by simp
  then have "(2 :: int) ^ n < 2 ^ (32 * (n div 32 + 1))" by (intro power_strict_increasing) simp_all
  also have "\<dots> = int (B32 ^ (n div 32 + 1))" by (simp only: power_mult) simp
  finally show "\<bar>ival v\<bar> < int (B32 ^ (n div 32 + 1))" using a by linarith
qed simp_all

definition as_n_capacity :: "bigint_payload \<Rightarrow> u64 \<Rightarrow> nat" where
  "as_n_capacity value bits = max (length (bigint_limbs value)) (unat bits div 32 + 1) + 1"

lemma as_n_residue_value:
  assumes "bigint_wf value"
  shows "case as_n_residue m value bits of
      Inl e \<Rightarrow> e = oom \<and> \<not> (mem_ok m \<and> as_n_capacity value bits \<le> UINT32_MAX)
    | Inr (res, mod_) \<Rightarrow> bigint_wf res \<and> bigint_wf mod_ \<and> ival mod_ = 2 ^ unat bits \<and> ival res = ival value mod 2 ^ unat bits"
    (is "?P (as_n_residue m value bits)")
proof -
  let ?c = "as_n_capacity value bits"
  have c: "unat bits div 32 + 1 + 1 \<le> ?c" "length (bigint_limbs value) \<le> ?c" by (simp_all add: as_n_capacity_def)
  show ?thesis
  proof (cases "bigint_pow2 m bits")
    case (Inl e)
    then show ?thesis using pow2_value(1) [of m bits] c(1) by (auto simp: as_n_residue_def yields_def)
  next
    case (Inr md)
    have md: "bigint_wf md" "ival md = 2 ^ unat bits" using pow2_value(1) [of m bits] Inr by (simp_all add: yields_def)
    have safe: "divmod_safe (bigint_limbs value) (bigint_limbs md)" using pow2_value(2) [OF Inr] divmod_safe_pow2 by auto
    have y: "yields m ?c (bigint_mod m value md) (ival value smod 2 ^ unat bits)"
      using mod_value [OF assms md(1) _ safe, of m] md(2) c(2) by (auto elim: yields_mono)
    have step: "as_n_residue m value bits = (case bigint_mod m value md of Inl e \<Rightarrow> Inl e
        | Inr res \<Rightarrow> if bigint_is_negative res then
            (case bigint_add m res md of Inl e \<Rightarrow> Inl e | Inr adj \<Rightarrow> Inr (adj, md)) else Inr (res, md))"
      using Inr by (simp add: as_n_residue_def)
    note sm = smod_to_mod [of "2 ^ unat bits" "ival value"]
    show ?thesis unfolding step
    proof (rule yields_case [where Q = ?P, OF y])
      fix res assume r: "bigint_wf res" "ival res = ival value smod 2 ^ unat bits"
      show "?P (if bigint_is_negative res then (case bigint_add m res md of Inl e \<Rightarrow> Inl e | Inr adj \<Rightarrow> Inr (adj, md)) else Inr (res, md))"
      proof (cases "bigint_is_negative res")
        case False
        then show ?thesis using r md sm bigint_wf_negative [OF r(1)] by simp
      next
        case True
        have n: "ival res < 0" using True bigint_wf_negative [OF r(1)] by simp
        have "\<bar>ival res\<bar> \<le> 2 ^ unat bits" using smod_int_range [of "2 ^ unat bits" "ival value"] r(2) by auto
        then have "length (bigint_limbs res) \<le> length (bigint_limbs md)"
          using normalized_length_mono [OF bigint_wf_limbs [OF md(1)] bigint_wf_limbs [OF r(1)]] ival_abs [of res] ival_abs [of md] md(2) by simp
        moreover have "length (bigint_limbs md) \<le> unat bits div 32 + 1" using pow2_length_le [OF md(1), of "unat bits"] md(2) by simp
        ultimately have "yields m ?c (bigint_add m res md) (ival res + ival md)"
          using add_value [OF r(1) md(1), of m] c(1) by (elim yields_mono) simp
        then show ?thesis using True n r md sm by (auto simp: yields_def split: sum.splits)
      qed
    qed simp
  qed
qed

lemma as_n_literal: "yields m c (js_mkbigint m [0x30] False) 0"
  using small_literal(2) [of m] by (auto simp: yields_def UINT32_MAX_def split: sum.splits)

lemma asUintN_value:
  assumes "bigint_asint_bits to_number a = Inr bits" "bigint_wf v"
  shows "yields m (as_n_capacity v bits) (builtin_BigInt_asUintN m to_number [a, JsBigInt v]) (ival v mod 2 ^ unat bits)"
proof (cases "bits = 0")
  case True
  then show ?thesis using assms(1) as_n_literal by (simp add: builtin_BigInt_asUintN_def)
next
  case False
  then show ?thesis using as_n_residue_value [OF assms(2), of m bits] assms(1)
    by (auto simp: builtin_BigInt_asUintN_def yields_def split: sum.splits)
qed

text \<open>The value of an \<open>n\<close>-bit two's complement integer.\<close>

definition as_int_n :: "nat \<Rightarrow> int \<Rightarrow> int" where
  "as_int_n n v = (if n = 0 then 0 else (v + 2 ^ (n - 1)) mod 2 ^ n - 2 ^ (n - 1))"

lemma as_int_n_mod:
  assumes "0 < n"
  shows "as_int_n n v = (if v mod 2 ^ n \<ge> 2 ^ (n - 1) then v mod 2 ^ n - 2 ^ n else v mod 2 ^ n)"
proof -
  define r where "r = v mod 2 ^ n"
  have p: "(2 :: int) ^ n = 2 * 2 ^ (n - 1)" using assms by (cases n) simp_all
  have r: "0 \<le> r" "r < 2 ^ n" by (simp_all add: r_def)
  have "(v + 2 ^ (n - 1)) mod 2 ^ n = (r + 2 ^ (n - 1)) mod 2 ^ n" by (simp add: r_def mod_simps)
  also have "\<dots> = (if r \<ge> 2 ^ (n - 1) then r + 2 ^ (n - 1) - 2 ^ n else r + 2 ^ (n - 1))"
  proof (cases "r \<ge> 2 ^ (n - 1)")
    case True
    have "(r + 2 ^ (n - 1)) mod 2 ^ n = (r + 2 ^ (n - 1) - 2 ^ n) mod 2 ^ n" by simp
    also have "\<dots> = r + 2 ^ (n - 1) - 2 ^ n" using True r p by (intro mod_pos_pos_trivial) simp_all
    finally show ?thesis using True by simp
  next
    case False
    then show ?thesis using r p by (simp add: mod_pos_pos_trivial)
  qed
  finally show ?thesis using assms p unfolding r_def [symmetric] by (simp add: as_int_n_def)
qed

lemma unat_pred: "bits \<noteq> 0 \<Longrightarrow> unat (bits - 1 :: u64) = unat bits - 1"
  by (rule unat_minus_one)

lemma asIntN_value:
  assumes "bigint_asint_bits to_number a = Inr bits" "bigint_wf v"
  shows "yields m (as_n_capacity v bits) (builtin_BigInt_asIntN m to_number [a, JsBigInt v]) (as_int_n (unat bits) (ival v))"
proof (cases "bits = 0")
  case True
  then show ?thesis using assms(1) as_n_literal by (simp add: builtin_BigInt_asIntN_def as_int_n_def)
next
  case False
  let ?n = "unat bits"
  have pos: "0 < ?n" using False by (simp add: unat_gt_0)
  show ?thesis
  proof (cases "as_n_residue m v bits")
    case (Inl e)
    then show ?thesis using as_n_residue_value [OF assms(2), of m bits] assms(1) False
      by (simp add: builtin_BigInt_asIntN_def yields_def)
  next
    case (Inr p)
    obtain res md where p: "p = (res, md)" by force
    have r: "bigint_wf res" "bigint_wf md" "ival md = 2 ^ ?n" "ival res = ival v mod 2 ^ ?n"
      using as_n_residue_value [OF assms(2), of m bits] Inr p by simp_all
    have c: "?n div 32 + 1 + 1 \<le> as_n_capacity v bits" by (simp add: as_n_capacity_def)
    have "(?n - 1) div 32 \<le> ?n div 32" by (rule div_le_mono) simp
    then have yp: "yields m (as_n_capacity v bits) (bigint_pow2 m (bits - 1)) (2 ^ (?n - 1))"
      using pow2_value(1) [of m "bits - 1"] c unfolding unat_pred [OF False] by (elim yields_mono) simp
    have l: "length (bigint_limbs res) \<le> ?n div 32 + 1" "length (bigint_limbs md) \<le> ?n div 32 + 1"
      using pow2_length_le [OF r(1), of ?n] pow2_length_le [OF r(2), of ?n] r(3,4) by (simp_all add: order_less_imp_le)
    then have ys: "yields m (as_n_capacity v bits) (bigint_sub m res md) (ival res - ival md)"
      using sub_value [OF r(1,2), of m] c by (elim yields_mono) simp
    have step: "builtin_BigInt_asIntN m to_number [a, JsBigInt v] = (case bigint_pow2 m (bits - 1) of Inl e \<Rightarrow> Inl e
        | Inr threshold \<Rightarrow> if bigint_compare res threshold \<ge> 0 then bigint_sub m res md else Inr res)"
      using assms(1) False Inr p by (simp add: builtin_BigInt_asIntN_def)
    show ?thesis unfolding step
    proof (rule yields_case [where Q = "\<lambda>r. yields m (as_n_capacity v bits) r (as_int_n ?n (ival v))", OF yp])
      fix t assume t: "bigint_wf t" "ival t = 2 ^ (?n - 1)"
      have "bigint_compare res t \<ge> 0 \<longleftrightarrow> ival t \<le> ival res" unfolding compare_value [OF r(1) t(1)] by (auto simp: sgn_if)
      then show "yields m (as_n_capacity v bits) (if bigint_compare res t \<ge> 0 then bigint_sub m res md else Inr res) (as_int_n ?n (ival v))"
        using ys r t by (auto simp: as_int_n_mod [OF pos] yields_self)
    qed (simp add: yields_def)
  qed
qed

section \<open>Conversions of values\<close>

lemma print_u_digits:
  "parse_digits 10 sep (print_u n) 0 False False = Some n" "print_u n \<noteq> []" "digits_base (print_u n) = (10, 0)"
proof -
  show "parse_digits 10 sep (print_u n) 0 False False = Some n" using parse_print_u [of sep n "[]" 0] by simp
  show ne: "print_u n \<noteq> []" by (simp add: print_u.simps [of n])
  have "length (print_u n) = 1 \<or> print_u n ! 0 \<noteq> 0x30"
    using print_u_hd [of n] by (cases "n = 0") (auto simp: hd_conv_nth print_u.simps [of 0])
  then show "digits_base (print_u n) = (10, 0)" by (auto simp: digits_base_def)
qed

lemma mkbigint_print_u: "yields m (digits_capacity (print_u n)) (js_mkbigint m (print_u n) neg) (sm_int neg n)"
  using from_string_digits_refines [OF print_u_digits(2) [of n] print_u_digits(3), where sep = True and m = m and neg = neg]
    print_u_digits(1) [of True n] print_u_digits(2) [of n]
  by (simp add: js_mkbigint_def)

lemma dbl_scaled_bound:
  assumes "dbl_isfinite d"
  shows "dbl_scaled d div 2 ^ 1074 < 10 ^ 309"
proof -
  have e: "dbl_exp_bits d - 1 \<le> 2045" using assms dbl_exp_bits_le [of d] by (simp add: dbl_isfinite_def)
  have "dbl_scaled d \<le> (2 ^ 52 + dbl_frac d) * 2 ^ (dbl_exp_bits d - 1)" by (simp add: dbl_scaled_def)
  also have "\<dots> < 2 ^ 53 * 2 ^ 2045"
  proof (rule less_le_trans)
    show "(2 ^ 52 + dbl_frac d) * 2 ^ (dbl_exp_bits d - 1) < 2 ^ 53 * 2 ^ (dbl_exp_bits d - 1)"
      using mantissa_value(2) [of d] by simp
    show "2 ^ 53 * 2 ^ (dbl_exp_bits d - 1) \<le> (2 ^ 53 * 2 ^ 2045 :: nat)"
      using e by (intro mult_le_mono order_refl power_increasing) simp_all
  qed
  also have "\<dots> = 2 ^ 1024 * 2 ^ 1074" by (simp only: power_add [symmetric]) simp
  finally have "dbl_scaled d div 2 ^ 1074 < 2 ^ 1024" by (rule less_mult_imp_div_less)
  also have "(2 :: nat) ^ 1024 < 10 ^ 309" by simp
  finally show ?thesis .
qed

lemma from_number_value:
  assumes "dbl_isfinite d" "dbl_is_integral d" "dbl_sign d \<Longrightarrow> dbl_scaled d \<noteq> 0"
  shows "yields m 40 (bigint_from_value m (JsNumber d)) (dbl_int d)"
proof -
  let ?n = "dbl_scaled d div 2 ^ 1074"
  have "length (print_u ?n) \<le> 309" using dbl_scaled_bound [OF assms(1)] by (intro print_u_length) simp_all
  then have c: "digits_capacity (print_u ?n) \<le> 40" using div_le_mono [of "length (print_u ?n)" 309 8] by (simp add: digits_capacity_def)
  have neg: "(dbl_sign d \<and> dbl_scaled d \<noteq> 0) = dbl_sign d" using assms(3) by auto
  show ?thesis
  proof (cases "heap_ok m (length (print_u ?n) + 1)")
    case True
    then show ?thesis using yields_mono [OF mkbigint_print_u c, of m "dbl_sign d"] assms(1,2) neg
      by (simp add: print_0f_def dbl_int_def Let_def)
  next
    case False
    then have "\<not> mem_ok m" by (auto simp: mem_ok_def)
    then show ?thesis using False assms(1,2) neg by (simp add: print_0f_def yields_def Let_def)
  qed
qed

text \<open>\<open>BigInt(-0)\<close> prints the negative zero as \<open>-0\<close>, which is no digit string.\<close>

lemma from_negative_zero:
  assumes "mem_ok m"
  shows "bigint_from_value m (JsNumber 0x8000000000000000) = Inl bad_digits"
proof -
  define z :: u64 where "z = 0x8000000000000000"
  have x: "dbl_exp_bits z = 0" "dbl_frac z = 0" "dbl_sign z" unfolding z_def by code_simp+
  then have d: "dbl_isfinite z" "dbl_scaled z = 0" "dbl_is_integral z"
    by (simp_all add: dbl_isfinite_def dbl_scaled_def dbl_is_integral_def)
  have p: "print_u 0 = [0x30]" "digits_base [0x2D, 0x30] = (10, 0)" "parse_digits 10 True [0x2D, 0x30] 0 False False = None" by code_simp+
  from from_string_digits_refines [of "[0x2D, 0x30]" 10 0, where sep = True and m = m and neg = False] p assms
  have "js_mkbigint m [0x2D, 0x30] False = Inl bad_digits" by (simp add: js_mkbigint_def del: parse_digits.simps)
  moreover have "heap_ok m 3" using assms by (simp add: mem_ok_def)
  ultimately show ?thesis unfolding z_def [symmetric] using d x(3) p(1) by (simp add: print_0f_def Let_def numeral_3_eq_3)
qed

lemma parse_digits_chars:
  "parse_digits base False s acc h p = Some n \<Longrightarrow> c \<in> set s \<Longrightarrow> digit_of base c \<noteq> None"
  by (induction base "False" s acc h p rule: parse_digits.induct) (auto split: if_splits option.splits)

lemma dec_char: "digit_of 10 c \<noteq> None \<Longrightarrow> \<not> is_space c \<and> c \<noteq> 0x2D \<and> c \<noteq> 0x2B"
  by (auto simp: digit_of_def hex_digit_def is_space_def Let_def split: if_splits)

lemma trim_id:
  assumes "s \<noteq> []" "\<not> is_space (hd s)" "\<not> is_space (last s)"
  shows "dropWhile is_space s = s" "rev (dropWhile is_space (rev s)) = s"
proof -
  show "dropWhile is_space s = s" using assms(1,2) by (cases s) simp_all
  show "rev (dropWhile is_space (rev s)) = s" using assms(1,3) by (cases s rule: rev_cases) simp_all
qed

lemma toString_decimal:
  "builtin_bigint_toString m unwrap (JsBigInt v) [] =
     (case bigint_abs_to_decimal_string m (bigint_limbs v) of
        None \<Rightarrow> Inl oom
      | Some digits \<Rightarrow>
          if \<not> bigint_is_negative v then Inr digits
          else if \<not> heap_ok m (length digits + 2) then Inl oom else Inr (0x2D # digits))"
  by (simp add: builtin_bigint_toString_def bigint_this_def toString_radix_def Let_def)

text \<open>\<open>BigInt(x.toString())\<close> is \<open>x\<close>.\<close>

lemma toString_roundtrip:
  assumes "bigint_wf v" "builtin_bigint_toString m unwrap (JsBigInt v) [] = Inr s"
  shows "yields m' (digits_capacity s) (bigint_from_value m' (JsString s)) (ival v)"
proof -
  obtain d where d: "bigint_abs_to_decimal_string m (bigint_limbs v) = Some d"
    and s: "s = (if bigint_is_negative v then 0x2D # d else d)"
    using assms(2) unfolding toString_decimal by (auto split: option.splits if_splits)
  note n = bigint_wf_limbs [OF assms(1)]
  note t = to_decimal_value [OF n d]
  have ch: "\<not> is_space c \<and> c \<noteq> 0x2D \<and> c \<noteq> 0x2B" if "c \<in> set d" for c
    using dec_char parse_digits_chars [OF t(1) [of False] that] by blast
  have "\<not> is_space 0x2D" by (simp add: is_space_def)
  then have e: "s \<noteq> []" "\<not> is_space (hd s)" "\<not> is_space (last s)" using ch t(2) by (auto simp: s)
  have "hd d \<noteq> 0x2D" "hd d \<noteq> 0x2B" using ch t(2) by auto
  then have "bigint_from_value m' (JsString s) = bigint_from_string_digits m' d (bigint_is_negative v) False"
    using e trim_id [OF e] t(2) by (auto simp: Let_def s)
  moreover have "digits_capacity d \<le> digits_capacity s"
    unfolding digits_capacity_def by (intro max.mono add_mono div_le_mono) (simp_all add: s)
  ultimately show ?thesis using yields_mono [OF decimal_roundtrip [OF n d]] by (simp add: ival_def)
qed

lemma toString_total:
  assumes "bigint_wf v" "mem_ok m"
  shows "\<exists>s. builtin_bigint_toString m unwrap (JsBigInt v) [] = Inr s"
  using to_decimal_total [OF bigint_wf_limbs [OF assms(1)] assms(2)] assms(2)
  unfolding toString_decimal by (auto simp: mem_ok_def)

text \<open>
  The width argument: an integral double below \<open>2 ^ 64\<close> is taken as it is, and the double
  \<open>2 ^ 64\<close> itself passes the range test of the source.
\<close>

lemma asint_bits_not_bigint:
  assumes "\<And>v. a \<noteq> JsBigInt v" "to_number a = bits"
  shows "bigint_asint_bits to_number a =
    (if \<not> dbl_isfinite bits \<or> (dbl_sign bits \<and> dbl_scaled bits \<noteq> 0) \<or> \<not> dbl_is_integral bits
     then Inl (js_mkerr_range ''Invalid bits'')
     else if dbl_scaled bits > 2 ^ 64 * 2 ^ 1074 then Inl (js_mkerr_range ''Invalid bits'')
     else if dbl_scaled bits div 2 ^ 1074 \<ge> 2 ^ 64 then Inl undefined_behaviour
     else Inr (word_of_nat (dbl_scaled bits div 2 ^ 1074)))"
proof (cases a)
  case (JsBigInt v)
  then show ?thesis using assms(1) by blast
qed (simp_all only: bigint_asint_bits.simps Let_def assms(2) [symmetric])

lemma asint_bits_number:
  assumes "\<And>v. a \<noteq> JsBigInt v" "to_number a = d" "dbl_isfinite d" "dbl_is_integral d" "dbl_int d = int n" "n < 2 ^ 64"
  shows "bigint_asint_bits to_number a = Inr (word_of_nat n)"
proof -
  have n: "dbl_scaled d div 2 ^ 1074 = n" and s: "\<not> (dbl_sign d \<and> dbl_scaled d \<noteq> 0)"
  proof -
    have z: "dbl_sign d \<Longrightarrow> dbl_scaled d div 2 ^ 1074 = 0" using assms(5) by (simp add: dbl_int_def sm_int_def)
    then show "dbl_scaled d div 2 ^ 1074 = n" using assms(5) by (cases "dbl_sign d") (simp_all add: dbl_int_def)
    show "\<not> (dbl_sign d \<and> dbl_scaled d \<noteq> 0)"
      using z assms(4) div_mult_mod_eq [of "dbl_scaled d" "2 ^ 1074"] unfolding dbl_is_integral_def by auto
  qed
  have "dbl_scaled d = n * 2 ^ 1074" using assms(4) div_mult_mod_eq [of "dbl_scaled d" "2 ^ 1074"] n unfolding dbl_is_integral_def by simp
  then have "\<not> dbl_scaled d > 2 ^ 64 * 2 ^ 1074" using assms(6) by (simp only: not_less mult_le_mono1 less_imp_le)
  moreover have "\<not> 2 ^ 64 \<le> n" using assms(6) by (simp only: not_le)
  ultimately show ?thesis unfolding asint_bits_not_bigint [of a to_number, OF assms(1,2)] n using assms(3,4) s
    by (simp only: simp_thms if_False if_True)
qed

lemma asint_bits_2_64:
  assumes "to_number a = 0x43F0000000000000" "\<And>v. a \<noteq> JsBigInt v"
  shows "bigint_asint_bits to_number a = Inl undefined_behaviour"
proof -
  define z :: u64 where "z = 0x43F0000000000000"
  have "dbl_exp_bits z = 1087" "dbl_frac z = 0" "\<not> dbl_sign z" unfolding z_def by code_simp+
  then have d: "dbl_isfinite z" "dbl_scaled z = 2 ^ 52 * 2 ^ 1086" "\<not> dbl_sign z"
    by (simp_all add: dbl_isfinite_def dbl_scaled_def)
  have e: "(2 :: nat) ^ 52 * 2 ^ 1086 = 2 ^ 64 * 2 ^ 1074" by (simp only: power_add [symmetric]) simp
  have f: "dbl_scaled z = 2 ^ 64 * 2 ^ 1074" "dbl_is_integral z" "dbl_scaled z div 2 ^ 1074 = 2 ^ 64"
    unfolding dbl_is_integral_def d(2) e by simp_all
  show ?thesis unfolding asint_bits_not_bigint [of a to_number, OF assms(2,1)] z_def [symmetric] f(3)
    by (simp only: d(1,3) f(1,2) simp_thms if_False if_True less_irrefl order_refl)
qed

end
