(* ===== verification/Utf8.thy ===== *)
theory Utf8
  imports Ant_Prelude
begin

text \<open>
  UTF-8 routines of \<open>src/src/utf8.c\<close> and \<open>src/include/utf8.h\<close>: sequence lengths, validation, the
  Latin-1 conversions and the streaming decoder behind \<open>TextDecoder\<close> and \<open>Buffer\<close>. A pointer into a
  string is the list of the bytes from there to the end. \<open>utf8proc_encode_char\<close> of the library
  utf8proc is a parameter; \<open>utf8_encoder\<close> states its documented behaviour on scalar values.
\<close>

unbundle bit_operations_syntax

section \<open>The encoding\<close>

text \<open>The UTF-8 form of a code point, by the definition of the encoding.\<close>

definition byte_of :: "nat \<Rightarrow> byte" where
  "byte_of n = word_of_nat n"

definition utf8_bytes :: "nat \<Rightarrow> bytes" where
  "utf8_bytes cp =
     (if cp < 0x80 then [byte_of cp]
      else if cp < 0x800 then [byte_of (0xC0 + cp div 64), byte_of (0x80 + cp mod 64)]
      else if cp < 0x10000 then
        [byte_of (0xE0 + cp div 4096), byte_of (0x80 + cp div 64 mod 64), byte_of (0x80 + cp mod 64)]
      else
        [byte_of (0xF0 + cp div 262144), byte_of (0x80 + cp div 4096 mod 64),
         byte_of (0x80 + cp div 64 mod 64), byte_of (0x80 + cp mod 64)])"

definition scalar :: "nat \<Rightarrow> bool" where
  "scalar cp \<longleftrightarrow> cp < 0xD800 \<or> 0xE000 \<le> cp \<and> cp < 0x110000"

definition utf8_encoder :: "(nat \<Rightarrow> bytes) \<Rightarrow> bool" where
  "utf8_encoder enc \<longleftrightarrow> (\<forall>cp < 0x110000. scalar cp \<longrightarrow> enc cp = utf8_bytes cp)"

section \<open>Sequence lengths\<close>

definition utf8_sequence_length :: "byte \<Rightarrow> int" where
  "utf8_sequence_length first_byte =
     (if first_byte AND 0x80 = 0 then 1
      else if first_byte AND 0xE0 = 0xC0 then 2
      else if first_byte AND 0xF0 = 0xE0 then 3
      else if first_byte AND 0xF8 = 0xF0 then 4
      else -1)"

definition utf8_char_len_at :: "bytes \<Rightarrow> nat \<Rightarrow> nat" where
  "utf8_char_len_at str pos =
     (if pos \<ge> length str then 1
      else
        let seq = utf8_sequence_length (str ! pos)
        in if seq \<le> 0 then 1
           else if pos + nat seq > length str then length str - pos
           else nat seq)"

function utf8_strlen_loop :: "bytes \<Rightarrow> nat \<Rightarrow> nat" where
  "utf8_strlen_loop [] count = count"
| "utf8_strlen_loop (c # s) count =
     (let seq_len = utf8_sequence_length c
      in if seq_len \<le> 0 \<or> nat seq_len > length (c # s) then utf8_strlen_loop s (count + 1)
         else utf8_strlen_loop (drop (nat seq_len) (c # s)) (count + 1))"
  by pat_completeness auto
termination
  by (relation "measure (\<lambda>(s, _). length s)") auto

definition utf8_strlen :: "bytes \<Rightarrow> nat" where
  "utf8_strlen str = utf8_strlen_loop str 0"

section \<open>Latin-1\<close>

fun latin1_loop :: "bytes \<Rightarrow> bytes" where
  "latin1_loop [] = []"
| "latin1_loop (b # src) =
     (if b < 0x80 then b # latin1_loop src
      else (0xc0 OR drop_bit 6 b) # (0x80 OR (b AND 0x3f)) # latin1_loop src)"

definition latin1_to_utf8 :: "mem \<Rightarrow> bytes \<Rightarrow> bytes option" where
  "latin1_to_utf8 m src =
     (if length src > SIZE_MAX div 2 then None
      else if \<not> heap_ok m (if length src = 0 then 1 else length src * 2) then None
      else Some (latin1_loop src))"

text \<open>The loop gives up (\<open>None\<close>) at the first byte that is not the form of a Latin-1 character.\<close>

fun utf8_to_latin1_loop :: "bytes \<Rightarrow> bytes \<Rightarrow> bytes option" where
  "utf8_to_latin1_loop [] out = Some out"
| "utf8_to_latin1_loop (first # src) out =
     (if first < 0x80 then utf8_to_latin1_loop src (out @ [first])
      else case src of
             [] \<Rightarrow> None
           | second # src' \<Rightarrow>
               if (first = 0xc2 \<or> first = 0xc3) \<and> second AND 0xc0 = 0x80
               then utf8_to_latin1_loop src' (out @ [push_bit 6 (first AND 0x1f) OR (second AND 0x3f)])
               else None)"

text \<open>The returned buffer and the value of \<open>*is_latin1\<close>.\<close>

definition utf8_to_latin1 :: "mem \<Rightarrow> bytes \<Rightarrow> bytes option \<times> bool" where
  "utf8_to_latin1 m src =
     (if \<not> heap_ok m (if length src = 0 then 1 else length src) then (None, True)
      else case utf8_to_latin1_loop src [] of None \<Rightarrow> (None, False) | Some out \<Rightarrow> (Some out, True))"

section \<open>Validation\<close>

text \<open>Continuation bytes a lead byte asks for, and the range of the first of them.\<close>

definition validate_lead :: "byte \<Rightarrow> (nat \<times> byte \<times> byte) option" where
  "validate_lead c =
     (if c \<ge> 0xc2 \<and> c \<le> 0xdf then Some (1, 0x80, 0xbf)
      else if c = 0xe0 then Some (2, 0xa0, 0xbf)
      else if c \<ge> 0xe1 \<and> c \<le> 0xec then Some (2, 0x80, 0xbf)
      else if c = 0xed then Some (2, 0x80, 0x9f)
      else if c = 0xee \<or> c = 0xef then Some (2, 0x80, 0xbf)
      else if c = 0xf0 then Some (3, 0x90, 0xbf)
      else if c \<ge> 0xf1 \<and> c \<le> 0xf3 then Some (3, 0x80, 0xbf)
      else if c = 0xf4 then Some (3, 0x80, 0x8f)
      else None)"

fun utf8_validate_bytes :: "bytes \<Rightarrow> bool" where
  "utf8_validate_bytes [] = True"
| "utf8_validate_bytes (c # s) =
     (if c < 0x80 then utf8_validate_bytes s
      else case validate_lead c of
             None \<Rightarrow> False
           | Some (cont, lo, hi) \<Rightarrow>
               if length (c # s) \<le> cont then False
               else if s ! 0 < lo \<or> s ! 0 > hi then False
               else if list_ex (\<lambda>b. b < 0x80 \<or> b > 0xbf) (take (cont - 1) (drop 1 s)) then False
               else utf8_validate_bytes (drop cont s))"

section \<open>The WHATWG decoder\<close>

record utf8_dec =
  ignore_bom :: bool
  bom_seen :: bool
  pend_buf :: bytes
  pend_pos :: nat

text \<open>
  The jump table: an ASCII byte, a byte that starts nothing, or a lead byte with the number of
  continuation bytes, the range of the first one and the mask of the payload bits.
\<close>

datatype utf8_label = L_ASCII | L_BAD | L_LEAD nat byte byte byte

definition utf8_tbl :: "byte \<Rightarrow> utf8_label" where
  "utf8_tbl b =
     (if b \<le> 0x7F then L_ASCII
      else if b \<le> 0xBF then L_BAD
      else if b \<le> 0xC1 then L_BAD
      else if b \<le> 0xDF then L_LEAD 1 0x80 0xBF 0x1F
      else if b = 0xE0 then L_LEAD 2 0xA0 0xBF 0x0F
      else if b \<le> 0xEC then L_LEAD 2 0x80 0xBF 0x0F
      else if b = 0xED then L_LEAD 2 0x80 0x9F 0x0F
      else if b \<le> 0xEF then L_LEAD 2 0x80 0xBF 0x0F
      else if b = 0xF0 then L_LEAD 3 0x90 0xBF 0x07
      else if b \<le> 0xF3 then L_LEAD 3 0x80 0xBF 0x07
      else if b = 0xF4 then L_LEAD 3 0x80 0x8F 0x07
      else L_BAD)"

abbreviation FFFD :: bytes where
  "FFFD \<equiv> [0xEF, 0xBF, 0xBD]"

text \<open>
  \<open>whatwg_dispatch\<close> is the \<open>goto *tbl[src[i]]\<close> with the remaining bytes, \<open>whatwg_cont\<close> the label
  \<open>cont\<close>. The result is the decoder state and the output; \<open>None\<close> is the return value \<open>-1\<close>.
\<close>

function (sequential)
  whatwg_dispatch :: "(nat \<Rightarrow> bytes) \<Rightarrow> bool \<Rightarrow> bool \<Rightarrow> utf8_dec \<Rightarrow> bytes \<Rightarrow> bytes \<Rightarrow> utf8_dec \<times> bytes option" and
  whatwg_cont :: "(nat \<Rightarrow> bytes) \<Rightarrow> bool \<Rightarrow> bool \<Rightarrow> utf8_dec \<Rightarrow> bytes \<Rightarrow> nat \<Rightarrow> byte \<Rightarrow> byte \<Rightarrow> u32 \<Rightarrow> bytes \<Rightarrow> bytes
    \<Rightarrow> utf8_dec \<times> bytes option"
where
  "whatwg_dispatch enc fatal stream dec out [] = (dec, Some out)"
| "whatwg_dispatch enc fatal stream dec out (c # src) =
     (case utf8_tbl c of
        L_ASCII \<Rightarrow> whatwg_dispatch enc fatal stream (dec\<lparr>bom_seen := True\<rparr>) (out @ [c]) src
      | L_BAD \<Rightarrow>
          if fatal then (dec, None)
          else whatwg_dispatch enc fatal stream (dec\<lparr>bom_seen := True\<rparr>) (out @ FFFD) src
      | L_LEAD bc lo hi m \<Rightarrow> whatwg_cont enc fatal stream dec out bc lo hi (ucast (c AND m)) [c] src)"
| "whatwg_cont enc fatal stream dec out 0 lo hi cp pb src =
     (if \<not> bom_seen dec \<and> cp = 0xFEFF \<and> \<not> ignore_bom dec
      then whatwg_dispatch enc fatal stream (dec\<lparr>bom_seen := True\<rparr>) out src
      else whatwg_dispatch enc fatal stream (dec\<lparr>bom_seen := True\<rparr>) (out @ enc (unat cp)) src)"
| "whatwg_cont enc fatal stream dec out (Suc bc) lo hi cp pb [] =
     (if stream then (dec\<lparr>pend_pos := length pb, pend_buf := pb\<rparr>, Some out)
      else if fatal then (dec, None)
      else (dec, Some (out @ FFFD)))"
| "whatwg_cont enc fatal stream dec out (Suc bc) lo hi cp pb (b # src) =
     (if b < lo \<or> b > hi then
        if fatal then (dec, None)
        else whatwg_dispatch enc fatal stream (dec\<lparr>bom_seen := True\<rparr>) (out @ FFFD) (b # src)
      else whatwg_cont enc fatal stream dec out bc 0x80 0xBF (push_bit 6 cp OR ucast (b AND 0x3F)) (pb @ [b]) src)"
  by pat_completeness auto
termination
  by (relation "measure (\<lambda>x. case x of Inl (_, _, _, _, _, src) \<Rightarrow> 2 * length src
        | Inr (_, _, _, _, _, _, _, _, _, _, src) \<Rightarrow> 2 * length src + 1)") auto

definition utf8_whatwg_decode :: "(nat \<Rightarrow> bytes) \<Rightarrow> utf8_dec \<Rightarrow> bytes \<Rightarrow> bool \<Rightarrow> bool \<Rightarrow> utf8_dec \<times> bytes option" where
  "utf8_whatwg_decode enc dec src fatal stream = whatwg_dispatch enc fatal stream dec [] src"

section \<open>Bytes as numbers\<close>

text \<open>Comparisons of bytes with literals, read as natural numbers.\<close>

lemmas byte_nat = word_less_nat_alt word_le_nat_alt word_unat_eq_iff unat_of_nat

lemma unat_byte_of [simp]: "n < 256 \<Longrightarrow> unat (byte_of n) = n"
  by (simp add: byte_of_def unat_of_nat)

lemma byte_of_unat: "unat b = n \<Longrightarrow> b = byte_of n"
  by (auto simp: byte_of_def)

lemma validate_lead_nat:
  "validate_lead c =
     (let n = unat c in
      if 0xc2 \<le> n \<and> n \<le> 0xdf then Some (1, 0x80, 0xbf)
      else if n = 0xe0 then Some (2, 0xa0, 0xbf)
      else if 0xe1 \<le> n \<and> n \<le> 0xec then Some (2, 0x80, 0xbf)
      else if n = 0xed then Some (2, 0x80, 0x9f)
      else if n = 0xee \<or> n = 0xef then Some (2, 0x80, 0xbf)
      else if n = 0xf0 then Some (3, 0x90, 0xbf)
      else if 0xf1 \<le> n \<and> n \<le> 0xf3 then Some (3, 0x80, 0xbf)
      else if n = 0xf4 then Some (3, 0x80, 0x8f)
      else None)"
  unfolding validate_lead_def Let_def by (simp add: word_le_nat_alt word_unat_eq_iff)

text \<open>A well-formed multi-byte sequence: a lead byte with its continuation bytes in range.\<close>

definition lead_ok :: "byte \<Rightarrow> bytes \<Rightarrow> bool" where
  "lead_ok c t \<longleftrightarrow> (case validate_lead c of
      None \<Rightarrow> False
    | Some (cont, lo, hi) \<Rightarrow> length t = cont \<and> lo \<le> t ! 0 \<and> t ! 0 \<le> hi \<and> (\<forall>b \<in> set (tl t). 0x80 \<le> b \<and> b \<le> 0xbf))"

lemma six_bits:
  "x < 64 \<Longrightarrow> (y * 64 + x) div 64 = (y :: nat)" "x < 64 \<Longrightarrow> (y * 64 + x) mod 64 = (x :: nat)"
  "(y :: nat) div 4096 = y div 64 div 64" "(y :: nat) div 262144 = y div 64 div 64 div 64"
  by (simp_all flip: div_mult2_eq)

lemma utf8_bytes_two: "2 \<le> k \<Longrightarrow> k < 32 \<Longrightarrow> x < 64 \<Longrightarrow> utf8_bytes (k * 64 + x) = [byte_of (0xC0 + k), byte_of (0x80 + x)]"
  by (simp add: utf8_bytes_def six_bits)

lemma utf8_bytes_three:
  assumes "k = 0 \<longrightarrow> 32 \<le> x1" "k < 16" "x1 < 64" "x2 < 64"
  shows "utf8_bytes ((k * 64 + x1) * 64 + x2) = [byte_of (0xE0 + k), byte_of (0x80 + x1), byte_of (0x80 + x2)]"
proof -
  have lo: "\<not> (k * 64 + x1) * 64 + x2 < 0x800" "\<not> (k * 64 + x1) * 64 + x2 < 0x80" using assms by (cases "k = 0"; simp)+
  have hi: "(k * 64 + x1) * 64 + x2 < 0x10000" using assms(2-4) by simp
  show ?thesis unfolding utf8_bytes_def by (simp only: lo hi if_False if_True six_bits assms)
qed

lemma utf8_bytes_four:
  assumes "k = 0 \<longrightarrow> 16 \<le> x1" "x1 < 64" "x2 < 64" "x3 < 64"
  shows "utf8_bytes (((k * 64 + x1) * 64 + x2) * 64 + x3) = [byte_of (0xF0 + k), byte_of (0x80 + x1), byte_of (0x80 + x2), byte_of (0x80 + x3)]"
proof -
  have lo: "\<not> ((k * 64 + x1) * 64 + x2) * 64 + x3 < 0x10000" "\<not> ((k * 64 + x1) * 64 + x2) * 64 + x3 < 0x800" "\<not> ((k * 64 + x1) * 64 + x2) * 64 + x3 < 0x80"
    using assms by (cases "k = 0"; simp)+
  show ?thesis unfolding utf8_bytes_def by (simp only: lo if_False six_bits assms)
qed

text \<open>The three shapes of a multi-byte sequence, with the six-bit digits of its code point.\<close>

lemma lead_okE:
  assumes "lead_ok c t"
  obtains (two) k x where "c = byte_of (0xC0 + k)" "t = [byte_of (0x80 + x)]" "2 \<le> k" "k < 32" "x < 64"
  | (three) k x1 x2 where "c = byte_of (0xE0 + k)" "t = [byte_of (0x80 + x1), byte_of (0x80 + x2)]"
      "k < 16" "x1 < 64" "x2 < 64" "k = 0 \<longrightarrow> 32 \<le> x1" "k = 13 \<longrightarrow> x1 < 32"
  | (four) k x1 x2 x3 where "c = byte_of (0xF0 + k)" "t = [byte_of (0x80 + x1), byte_of (0x80 + x2), byte_of (0x80 + x3)]"
      "k \<le> 4" "x1 < 64" "x2 < 64" "x3 < 64" "k = 0 \<longrightarrow> 16 \<le> x1" "k = 4 \<longrightarrow> x1 < 16"
proof -
  define n where "n = unat c"
  have cb: "unat c = n" by (simp add: n_def)
  consider (a) "0xc2 \<le> n" "n \<le> 0xdf" "length t = 1" | (b) "0xe0 \<le> n" "n \<le> 0xef" "length t = 2" | (c) "0xf0 \<le> n" "n \<le> 0xf4" "length t = 3"
    using assms unfolding lead_ok_def validate_lead_nat cb Let_def by (auto split: if_splits)
  then show ?thesis
  proof cases
    case a
    then obtain b where t: "t = [b]" by (auto simp: length_Suc_conv)
    have b: "0x80 \<le> unat b" "unat b \<le> 0xbf"
      using assms a by (auto simp: lead_ok_def validate_lead_nat cb Let_def t word_le_nat_alt split: if_splits)
    have "0xC0 \<le> n" using a by simp
    then obtain k x where k: "n = 0xC0 + k" "unat b = 0x80 + x" using b(1) le_Suc_ex by metis
    show ?thesis using a b k cb by (intro two [of k x]) (simp_all add: t byte_of_unat)
  next
    case b
    then obtain b1 b2 where t: "t = [b1, b2]" by (auto simp: length_Suc_conv numeral_2_eq_2)
    have r: "0x80 \<le> unat b1" "unat b1 \<le> 0xbf" "0x80 \<le> unat b2" "unat b2 \<le> 0xbf"
        "n = 0xe0 \<longrightarrow> 0xa0 \<le> unat b1" "n = 0xed \<longrightarrow> unat b1 \<le> 0x9f"
      using assms b by (auto simp: lead_ok_def validate_lead_nat cb Let_def t word_le_nat_alt split: if_splits)
    obtain k x1 x2 where k: "n = 0xE0 + k" "unat b1 = 0x80 + x1" "unat b2 = 0x80 + x2"
      using b(1) r(1,3) le_Suc_ex by metis
    show ?thesis using b r k cb by (intro three [of k x1 x2]) (auto simp: t byte_of_unat)
  next
    case c
    then obtain b1 b2 b3 where t: "t = [b1, b2, b3]" by (auto simp: length_Suc_conv numeral_3_eq_3)
    have r: "0x80 \<le> unat b1" "unat b1 \<le> 0xbf" "0x80 \<le> unat b2" "unat b2 \<le> 0xbf" "0x80 \<le> unat b3" "unat b3 \<le> 0xbf"
        "n = 0xf0 \<longrightarrow> 0x90 \<le> unat b1" "n = 0xf4 \<longrightarrow> unat b1 \<le> 0x8f"
      using assms c by (auto simp: lead_ok_def validate_lead_nat cb Let_def t word_le_nat_alt split: if_splits)
    obtain k x1 x2 x3 where k: "n = 0xF0 + k" "unat b1 = 0x80 + x1" "unat b2 = 0x80 + x2" "unat b3 = 0x80 + x3"
      using c(1) r(1,3,5) le_Suc_ex by metis
    show ?thesis using c r k cb by (intro four [of k x1 x2 x3]) (auto simp: t byte_of_unat)
  qed
qed

text \<open>The code point of a sequence, as a number and as the decoders compute it.\<close>

definition cp_mask :: "nat \<Rightarrow> byte" where
  "cp_mask cont = (if cont = 1 then 0x1F else if cont = 2 then 0x0F else 0x07)"

definition cp_fold :: "byte \<Rightarrow> byte \<Rightarrow> bytes \<Rightarrow> u32" where
  "cp_fold c m t = foldl (\<lambda>cp b. push_bit 6 cp OR ucast (b AND 0x3F)) (ucast (c AND m)) t"

lemma unat_ucast_byte [simp]: "unat (ucast (b :: byte) :: u32) = unat b"
proof -
  have "unat b < 2 ^ 32" using unat_lt_B8 [of b] by (simp del: unat_lt_B8)
  then show ?thesis by (simp add: unsigned_ucast_eq take_bit_nat_eq_self)
qed

lemma byte_masks:
  "b AND 0x3F = take_bit 6 b" "b AND 0x1F = take_bit 5 b" "b AND 0x0F = take_bit 4 b" "b AND 0x07 = take_bit 3 (b :: byte)"
  by (simp_all add: take_bit_eq_mask mask_eq_exp_minus_1)

lemma six_bit_step:
  assumes "unat cp < 2 ^ 26" "x < 64"
  shows "unat (push_bit 6 cp OR ucast (byte_of (0x80 + x) AND 0x3F) :: u32) = unat cp * 64 + x"
proof -
  have "unat (ucast (byte_of (0x80 + x) AND 0x3F) :: u32) = x" using assms(2) by (simp add: byte_masks unat_low mod_add_eq [symmetric])
  then show ?thesis using assms unat_shl_or [of cp 6 "ucast (byte_of (0x80 + x) AND 0x3F)"] by simp
qed

lemma lead_ok_value:
  assumes "lead_ok c t"
  shows "0x80 \<le> unat (cp_fold c (cp_mask (length t)) t)" "scalar (unat (cp_fold c (cp_mask (length t)) t))"
    and "utf8_bytes (unat (cp_fold c (cp_mask (length t)) t)) = c # t"
proof -
  let ?cp = "cp_fold c (cp_mask (length t)) t"
  have "0x80 \<le> unat ?cp \<and> scalar (unat ?cp) \<and> utf8_bytes (unat ?cp) = c # t"
    using assms
  proof (cases rule: lead_okE)
    case (two k x)
    have "unat (ucast (c AND 0x1F) :: u32) = k" using two by (simp add: byte_masks unat_low mod_add_eq [symmetric])
    then have cp: "unat ?cp = k * 64 + x" using two six_bit_step [of "ucast (c AND 0x1F)" x] by (simp add: cp_fold_def cp_mask_def)
    show ?thesis unfolding cp using two by (simp add: utf8_bytes_two scalar_def)
  next
    case (three k x1 x2)
    have "unat (ucast (c AND 0x0F) :: u32) = k" using three by (simp add: byte_masks unat_low mod_add_eq [symmetric])
    then have "unat (push_bit 6 (ucast (c AND 0x0F)) OR ucast (byte_of (0x80 + x1) AND 0x3F) :: u32) = k * 64 + x1"
      using three six_bit_step [of "ucast (c AND 0x0F)" x1] by simp
    then have cp: "unat ?cp = (k * 64 + x1) * 64 + x2"
      using three six_bit_step [of "push_bit 6 (ucast (c AND 0x0F)) OR ucast (byte_of (0x80 + x1) AND 0x3F)" x2]
      by (simp add: cp_fold_def cp_mask_def)
    have "scalar ((k * 64 + x1) * 64 + x2)"
    proof -
      consider "k < 13" | "k = 13" | "14 \<le> k" by linarith
      then show ?thesis using three by cases (simp_all add: scalar_def)
    qed
    moreover have "0x80 \<le> (k * 64 + x1) * 64 + x2" using three by (cases "k = 0"; simp)
    ultimately show ?thesis unfolding cp utf8_bytes_three [OF three(6,3,4,5)] using three(1,2) by simp
  next
    case (four k x1 x2 x3)
    have "unat (ucast (c AND 0x07) :: u32) = k" using four by (simp add: byte_masks unat_low mod_add_eq [symmetric])
    then have a: "unat (push_bit 6 (ucast (c AND 0x07)) OR ucast (byte_of (0x80 + x1) AND 0x3F) :: u32) = k * 64 + x1"
      using four six_bit_step [of "ucast (c AND 0x07)" x1] by simp
    then have "unat (push_bit 6 (push_bit 6 (ucast (c AND 0x07)) OR ucast (byte_of (0x80 + x1) AND 0x3F)) OR ucast (byte_of (0x80 + x2) AND 0x3F) :: u32) = (k * 64 + x1) * 64 + x2"
      using four six_bit_step [of "push_bit 6 (ucast (c AND 0x07)) OR ucast (byte_of (0x80 + x1) AND 0x3F)" x2] by simp
    then have cp: "unat ?cp = ((k * 64 + x1) * 64 + x2) * 64 + x3"
      using four six_bit_step [of "push_bit 6 (push_bit 6 (ucast (c AND 0x07)) OR ucast (byte_of (0x80 + x1) AND 0x3F)) OR ucast (byte_of (0x80 + x2) AND 0x3F)" x3]
      by (simp add: cp_fold_def cp_mask_def)
    have "0x10000 \<le> ((k * 64 + x1) * 64 + x2) * 64 + x3" using four by (cases "k = 0"; simp)
    moreover have "((k * 64 + x1) * 64 + x2) * 64 + x3 < 0x110000" using four by (cases "k = 4"; simp)
    ultimately have "0x80 \<le> ((k * 64 + x1) * 64 + x2) * 64 + x3" "scalar (((k * 64 + x1) * 64 + x2) * 64 + x3)" by (simp_all add: scalar_def)
    then show ?thesis unfolding cp utf8_bytes_four [OF four(7,4,5,6)] using four(1,2) by simp
  qed
  then show "0x80 \<le> unat ?cp" "scalar (unat ?cp)" "utf8_bytes (unat ?cp) = c # t" by blast+
qed

lemma lead_ok_scalar:
  assumes "lead_ok c t"
  shows "\<exists>cp. 0x80 \<le> cp \<and> scalar cp \<and> c # t = utf8_bytes cp"
  using lead_ok_value [OF assms] by metis

lemma lead_ok_two: "2 \<le> k \<Longrightarrow> k < 32 \<Longrightarrow> x < 64 \<Longrightarrow> lead_ok (byte_of (0xC0 + k)) [byte_of (0x80 + x)]"
  by (simp add: lead_ok_def validate_lead_nat word_le_nat_alt)

lemma lead_ok_three:
  assumes "k < 16" "x1 < 64" "x2 < 64" "k = 0 \<longrightarrow> 32 \<le> x1" "k = 13 \<longrightarrow> x1 < 32"
  shows "lead_ok (byte_of (0xE0 + k)) [byte_of (0x80 + x1), byte_of (0x80 + x2)]"
proof -
  have "unat (byte_of (0xE0 + k)) = 0xE0 + k" using assms(1) by simp
  then have "validate_lead (byte_of (0xE0 + k)) = Some (2, if k = 0 then 0xa0 else 0x80, if k = 13 then 0x9f else 0xbf)"
    using assms(1) unfolding validate_lead_nat Let_def by auto
  then show ?thesis using assms by (auto simp: lead_ok_def word_le_nat_alt)
qed

lemma lead_ok_four:
  assumes "k \<le> 4" "x1 < 64" "x2 < 64" "x3 < 64" "k = 0 \<longrightarrow> 16 \<le> x1" "k = 4 \<longrightarrow> x1 < 16"
  shows "lead_ok (byte_of (0xF0 + k)) [byte_of (0x80 + x1), byte_of (0x80 + x2), byte_of (0x80 + x3)]"
proof -
  have "unat (byte_of (0xF0 + k)) = 0xF0 + k" using assms(1) by simp
  then have "validate_lead (byte_of (0xF0 + k)) = Some (3, if k = 0 then 0x90 else 0x80, if k = 4 then 0x8f else 0xbf)"
    using assms(1) by (simp add: validate_lead_nat)
  then show ?thesis using assms by (auto simp: lead_ok_def word_le_nat_alt)
qed

lemma scalar_lead_ok:
  assumes "0x80 \<le> cp" "scalar cp" "utf8_bytes cp = c # t"
  shows "lead_ok c t"
proof -
  define x3 x2 x1 k4 k3 k2 where d: "x3 = cp mod 64" "x2 = cp div 64 mod 64" "x1 = cp div 64 div 64 mod 64"
    "k4 = cp div 64 div 64 div 64" "k3 = cp div 64 div 64" "k2 = cp div 64"
  have x: "x1 < 64" "x2 < 64" "x3 < 64" by (simp_all add: d)
  have e: "cp = k2 * 64 + x3" "k2 = k3 * 64 + x2" "k3 = k4 * 64 + x1" by (simp_all add: d)
  consider (two) "cp < 0x800" | (three) "0x800 \<le> cp" "cp < 0x10000" | (four) "0x10000 \<le> cp" by linarith
  then show ?thesis
  proof cases
    case two
    then have ct: "c = byte_of (0xC0 + k2)" "t = [byte_of (0x80 + x3)]" using assms by (simp_all add: utf8_bytes_def d)
    have "2 \<le> k2" "k2 < 32" using two assms(1) e(1) x by linarith+
    then show ?thesis unfolding ct using x by (intro lead_ok_two)
  next
    case three
    then have ct: "c = byte_of (0xE0 + k3)" "t = [byte_of (0x80 + x2), byte_of (0x80 + x3)]"
      using assms(3) by (simp_all add: utf8_bytes_def six_bits(3) d)
    have "k3 < 16" using three e x by linarith
    moreover have "k3 = 0 \<longrightarrow> 32 \<le> x2" using three e x by linarith
    moreover have "k3 = 13 \<longrightarrow> x2 < 32" using assms(2) e x unfolding scalar_def by linarith
    ultimately show ?thesis unfolding ct using x by (intro lead_ok_three)
  next
    case four
    then have ct: "c = byte_of (0xF0 + k4)" "t = [byte_of (0x80 + x1), byte_of (0x80 + x2), byte_of (0x80 + x3)]"
      using assms(3) by (simp_all add: utf8_bytes_def six_bits(3,4) d)
    have cp: "cp < 0x110000" using assms(2) four by (auto simp: scalar_def)
    have "k4 \<le> 4" using cp e x by linarith
    moreover have "k4 = 0 \<longrightarrow> 16 \<le> x1" using four e x by linarith
    moreover have "k4 = 4 \<longrightarrow> x1 < 16" using cp e x by linarith
    ultimately show ?thesis unfolding ct using x by (intro lead_ok_four)
  qed
qed

text \<open>The validator accepts exactly the encodings of sequences of scalar values.\<close>

lemma list_ex_range:
  "list_ex (\<lambda>b. b < 0x80 \<or> b > 0xbf) xs \<longleftrightarrow> \<not> (\<forall>b \<in> set xs. 0x80 \<le> b \<and> b \<le> (0xbf :: byte))"
  by (auto simp: list_ex_iff not_le)

lemma validate_multi:
  assumes "\<not> c < 0x80"
  shows "utf8_validate_bytes (c # s) \<longleftrightarrow> (\<exists>t rest. s = t @ rest \<and> lead_ok c t \<and> utf8_validate_bytes rest)"
proof (cases "validate_lead c")
  case None
  then show ?thesis using assms by (simp add: lead_ok_def)
next
  case (Some l)
  obtain cont lo hi where l: "l = (cont, lo, hi)" by (cases l) auto
  have cont: "0 < cont" using Some l by (auto simp: validate_lead_def split: if_splits)
  have "utf8_validate_bytes (c # s) \<longleftrightarrow> cont \<le> length s \<and> lead_ok c (take cont s) \<and> utf8_validate_bytes (drop cont s)"
  proof -
    have t: "take (cont - 1) (drop 1 s) = tl (take cont s)" "take cont s ! 0 = s ! 0" using cont by (cases s; cases cont; simp)+
    have "utf8_validate_bytes (c # s) \<longleftrightarrow> \<not> length (c # s) \<le> cont \<and> \<not> (s ! 0 < lo \<or> s ! 0 > hi)
        \<and> (\<forall>b \<in> set (tl (take cont s)). 0x80 \<le> b \<and> b \<le> 0xbf) \<and> utf8_validate_bytes (drop cont s)"
      unfolding utf8_validate_bytes.simps Some l option.case prod.case list_ex_range t using assms by simp
    moreover have "lead_ok c (take cont s) \<longleftrightarrow> length (take cont s) = cont \<and> lo \<le> s ! 0 \<and> s ! 0 \<le> hi
        \<and> (\<forall>b \<in> set (tl (take cont s)). 0x80 \<le> b \<and> b \<le> 0xbf)" unfolding lead_ok_def Some l by (simp add: t)
    moreover have "\<not> length (c # s) \<le> cont \<longleftrightarrow> cont \<le> length s" "length (take cont s) = cont \<longleftrightarrow> cont \<le> length s" by auto
    ultimately show ?thesis unfolding not_less [symmetric] by blast
  qed
  also have "\<dots> \<longleftrightarrow> (\<exists>t rest. s = t @ rest \<and> lead_ok c t \<and> utf8_validate_bytes rest)"
  proof
    assume "cont \<le> length s \<and> lead_ok c (take cont s) \<and> utf8_validate_bytes (drop cont s)"
    then show "\<exists>t rest. s = t @ rest \<and> lead_ok c t \<and> utf8_validate_bytes rest"
      by (intro exI [of _ "take cont s"] exI [of _ "drop cont s"]) simp
  next
    assume "\<exists>t rest. s = t @ rest \<and> lead_ok c t \<and> utf8_validate_bytes rest"
    then show "cont \<le> length s \<and> lead_ok c (take cont s) \<and> utf8_validate_bytes (drop cont s)"
      using Some l by (auto simp: lead_ok_def)
  qed
  finally show ?thesis .
qed

lemma utf8_bytes_cons:
  obtains c t where "utf8_bytes cp = c # t"
proof -
  have "utf8_bytes cp \<noteq> []" by (simp add: utf8_bytes_def)
  then show ?thesis using that by (cases "utf8_bytes cp") auto
qed

lemma validate_encode: "\<forall>cp \<in> set cps. scalar cp \<Longrightarrow> utf8_validate_bytes (concat (map utf8_bytes cps))"
proof (induction cps)
  case (Cons cp cps)
  show ?case
  proof (cases "cp < 0x80")
    case True
    then show ?thesis using Cons by (simp add: utf8_bytes_def word_less_nat_alt)
  next
    case False
    obtain c t where ct: "utf8_bytes cp = c # t" by (rule utf8_bytes_cons)
    have "lead_ok c t" using scalar_lead_ok [OF _ _ ct] False Cons.prems by simp
    moreover from this have "\<not> c < 0x80" by (auto simp: lead_ok_def validate_lead_nat word_less_nat_alt Let_def split: if_splits)
    ultimately show ?thesis using validate_multi [of c "t @ concat (map utf8_bytes cps)"] Cons ct by auto
  qed
qed simp

lemma validate_iff: "utf8_validate_bytes s \<longleftrightarrow> (\<exists>cps. (\<forall>cp \<in> set cps. scalar cp) \<and> s = concat (map utf8_bytes cps))"
proof
  show "utf8_validate_bytes s \<Longrightarrow> \<exists>cps. (\<forall>cp \<in> set cps. scalar cp) \<and> s = concat (map utf8_bytes cps)"
  proof (induction "length s" arbitrary: s rule: less_induct)
    case less
    show ?case
    proof (cases s)
      case Nil
      then show ?thesis by (auto intro: exI [of _ "[]"])
    next
      case (Cons c r)
      show ?thesis
      proof (cases "c < 0x80")
        case True
        then have "utf8_validate_bytes r" using less.prems Cons by simp
        then obtain cps where "\<forall>cp \<in> set cps. scalar cp" "r = concat (map utf8_bytes cps)" using less.hyps [of r] Cons by auto
        moreover have "utf8_bytes (unat c) = [c]" "scalar (unat c)"
          using True by (simp_all add: utf8_bytes_def scalar_def word_less_nat_alt byte_of_def)
        ultimately show ?thesis using Cons by (intro exI [of _ "unat c # cps"]) simp
      next
        case False
        then obtain t rest where t: "r = t @ rest" "lead_ok c t" "utf8_validate_bytes rest" using less.prems Cons validate_multi by blast
        then obtain cps where "\<forall>cp \<in> set cps. scalar cp" "rest = concat (map utf8_bytes cps)" using less.hyps [of rest] Cons by auto
        moreover obtain cp where "scalar cp" "c # t = utf8_bytes cp" using lead_ok_scalar [OF t(2)] by blast
        ultimately show ?thesis using Cons t(1) by (intro exI [of _ "cp # cps"]) auto
      qed
    qed
  qed
qed (auto intro: validate_encode)

lemma validate_append: "utf8_validate_bytes a \<Longrightarrow> utf8_validate_bytes b \<Longrightarrow> utf8_validate_bytes (a @ b)"
  unfolding validate_iff by (metis Un_iff concat_append map_append set_append)

section \<open>The decoder\<close>

lemma tbl_lead:
  "utf8_tbl c = (if c < 0x80 then L_ASCII else case validate_lead c of
     None \<Rightarrow> L_BAD | Some (cont, lo, hi) \<Rightarrow> L_LEAD cont lo hi (cp_mask cont))"
proof -
  define n where "n = unat c"
  have u: "unat c = n" by (simp add: n_def)
  consider "n < 0x80" | "0x80 \<le> n" "n \<le> 0xBF" | "0xC0 \<le> n" "n \<le> 0xC1" | "0xC2 \<le> n" "n \<le> 0xDF" | "n = 0xE0"
    | "0xE1 \<le> n" "n \<le> 0xEC" | "n = 0xED" | "0xEE \<le> n" "n \<le> 0xEF" | "n = 0xF0"
    | "0xF1 \<le> n" "n \<le> 0xF3" | "n = 0xF4" | "0xF5 \<le> n" by linarith
  then show ?thesis
    unfolding utf8_tbl_def validate_lead_nat word_le_nat_alt word_less_nat_alt word_unat_eq_iff u Let_def cp_mask_def
    by cases auto
qed

text \<open>
  The states of the loop at \<open>cont\<close>: the bytes taken so far are a lead byte and continuation bytes
  in range, and the registers are what these bytes determine.
\<close>

definition cont_state :: "bytes \<Rightarrow> nat \<Rightarrow> byte \<Rightarrow> byte \<Rightarrow> u32 \<Rightarrow> bool" where
  "cont_state pb bc lo hi cp \<longleftrightarrow>
     (\<exists>c t lo0 hi0. pb = c # t \<and> validate_lead c = Some (length t + bc, lo0, hi0) \<and>
        (if t = [] then lo = lo0 \<and> hi = hi0 else lo = 0x80 \<and> hi = 0xBF \<and> lo0 \<le> t ! 0 \<and> t ! 0 \<le> hi0) \<and>
        (\<forall>b \<in> set (tl t). 0x80 \<le> b \<and> b \<le> 0xbf) \<and> cp = cp_fold c (cp_mask (length t + bc)) t)"

lemma cont_state_start:
  "utf8_tbl c = L_LEAD bc lo hi m \<Longrightarrow> cont_state [c] bc lo hi (ucast (c AND m)) \<and> 0 < bc \<and> bc \<le> 3"
proof -
  assume a: "utf8_tbl c = L_LEAD bc lo hi m"
  then have v: "validate_lead c = Some (bc, lo, hi)" "m = cp_mask bc"
    unfolding tbl_lead by (auto split: if_splits option.splits)
  then have "0 < bc \<and> bc \<le> 3" by (auto simp: validate_lead_def split: if_splits)
  then show ?thesis using v by (auto simp: cont_state_def cp_fold_def)
qed

lemma validate_lead_range: "validate_lead c = Some (n, lo, hi) \<Longrightarrow> n \<le> 3 \<and> 0x80 \<le> lo \<and> hi \<le> 0xbf"
  by (auto simp: validate_lead_def split: if_splits)

lemma cont_state_step:
  assumes "cont_state pb (Suc bc) lo hi cp" "\<not> (b < lo \<or> b > hi)"
  shows "cont_state (pb @ [b]) bc 0x80 0xBF (push_bit 6 cp OR ucast (b AND 0x3F))"
proof -
  obtain c t lo0 hi0 where pb: "pb = c # t" and v: "validate_lead c = Some (length t + Suc bc, lo0, hi0)"
    and f: "if t = [] then lo = lo0 \<and> hi = hi0 else lo = 0x80 \<and> hi = 0xBF \<and> lo0 \<le> t ! 0 \<and> t ! 0 \<le> hi0"
    and tl: "\<forall>b \<in> set (tl t). 0x80 \<le> b \<and> b \<le> 0xbf" and cp: "cp = cp_fold c (cp_mask (length t + Suc bc)) t"
    using assms(1) by (auto simp: cont_state_def)
  have "lo0 \<le> (t @ [b]) ! 0 \<and> (t @ [b]) ! 0 \<le> hi0" using f assms(2) by (cases t) (auto split: if_splits)
  moreover have "\<forall>b \<in> set (tl (t @ [b])). 0x80 \<le> b \<and> b \<le> 0xbf" using f assms(2) tl by (cases t) (auto split: if_splits)
  moreover have "push_bit 6 cp OR ucast (b AND 0x3F) = cp_fold c (cp_mask (length t + Suc bc)) (t @ [b])" by (simp add: cp cp_fold_def)
  ultimately show ?thesis using v unfolding cont_state_def pb by (intro exI [of _ c] exI [of _ "t @ [b]"] exI [of _ lo0] exI [of _ hi0]) simp
qed

lemma cont_state_done:
  assumes "cont_state pb 0 lo hi cp"
  shows "scalar (unat cp)" "utf8_bytes (unat cp) = pb" "2 \<le> length pb"
proof -
  obtain c t lo0 hi0 where pb: "pb = c # t" and v: "validate_lead c = Some (length t, lo0, hi0)"
    and f: "if t = [] then lo = lo0 \<and> hi = hi0 else lo = 0x80 \<and> hi = 0xBF \<and> lo0 \<le> t ! 0 \<and> t ! 0 \<le> hi0"
    and tl: "\<forall>b \<in> set (tl t). 0x80 \<le> b \<and> b \<le> 0xbf" and cp: "cp = cp_fold c (cp_mask (length t)) t"
    using assms by (auto simp: cont_state_def)
  have "t \<noteq> []" using v by (auto simp: validate_lead_def split: if_splits)
  then have "lead_ok c t" using v f tl by (simp add: lead_ok_def)
  from lead_ok_value [OF this] show "scalar (unat cp)" "utf8_bytes (unat cp) = pb" unfolding cp pb by blast+
  show "2 \<le> length pb" using \<open>t \<noteq> []\<close> by (cases t) (simp_all add: pb)
qed

lemma cont_state_length: "cont_state pb bc lo hi cp \<Longrightarrow> 1 \<le> length pb \<and> length pb + bc \<le> 4"
  unfolding cont_state_def by (elim exE conjE) (auto dest: validate_lead_range)

lemma encoder_scalar: "utf8_encoder enc \<Longrightarrow> scalar cp \<Longrightarrow> enc cp = utf8_bytes cp"
  by (auto simp: utf8_encoder_def scalar_def)

lemma validate_utf8_bytes: "scalar cp \<Longrightarrow> utf8_validate_bytes (utf8_bytes cp)"
  using validate_encode [of "[cp]"] by simp

lemma validate_FFFD: "utf8_validate_bytes FFFD"
  by code_simp

lemma validate_append_FFFD: "utf8_validate_bytes out \<Longrightarrow> utf8_validate_bytes (out @ FFFD)"
  by (rule validate_append [OF _ validate_FFFD])

declare utf8_validate_bytes.simps [simp del] whatwg_dispatch.simps(2) [simp del] whatwg_cont.simps(3) [simp del]

text \<open>The output is valid UTF-8, and three bytes of output per byte of input are enough.\<close>

lemma whatwg_output:
  assumes "utf8_encoder enc"
  shows "whatwg_dispatch enc fatal stream dec out src = (d, Some out') \<Longrightarrow> utf8_validate_bytes out \<Longrightarrow>
      utf8_validate_bytes out' \<and> length out' \<le> length out + 3 * length src"
    and "whatwg_cont enc fatal stream dec out bc lo hi cp pb src = (d, Some out') \<Longrightarrow> utf8_validate_bytes out \<Longrightarrow>
      cont_state pb bc lo hi cp \<Longrightarrow>
      utf8_validate_bytes out' \<and> length out' \<le> length out + 3 * length src + 3 * length pb"
  using assms
proof (induction enc fatal stream dec out src and enc fatal stream dec out bc lo hi cp pb src
    arbitrary: d out' and d out' rule: whatwg_dispatch_whatwg_cont.induct)
  case (2 enc fatal stream dec out c src)
  note p = "2.prems" [unfolded whatwg_dispatch.simps(2)]
  show ?case
  proof (cases "utf8_tbl c")
    case L_ASCII
    then have c: "utf8_validate_bytes [c]" unfolding tbl_lead by (auto simp: utf8_validate_bytes.simps split: if_splits option.splits)
    from "2.IH"(1) [OF L_ASCII _ validate_append [OF p(2) c] p(3)] p(1) L_ASCII show ?thesis by simp
  next
    case L_BAD
    with p(1) have "\<not> fatal" by auto
    from "2.IH"(2) [OF L_BAD this _ validate_append_FFFD [OF p(2)] p(3)] p(1) L_BAD \<open>\<not> fatal\<close> show ?thesis by simp
  next
    case (L_LEAD bc lo hi m)
    from "2.IH"(3) [OF L_LEAD _ p(2) _ p(3)] cont_state_start [OF L_LEAD] p(1) L_LEAD show ?thesis by simp
  qed
next
  case (3 enc fatal stream dec out lo hi cp pb src)
  note cs = cont_state_done [OF "3.prems"(3)]
  have e: "enc (unat cp) = pb" using encoder_scalar [OF "3.prems"(4) cs(1)] cs(2) by simp
  have v: "utf8_validate_bytes pb" using validate_utf8_bytes [OF cs(1)] cs(2) by simp
  show ?case
  proof (cases "\<not> bom_seen dec \<and> cp = 0xFEFF \<and> \<not> ignore_bom dec")
    case True
    then have "whatwg_dispatch enc fatal stream (dec\<lparr>bom_seen := True\<rparr>) out src = (d, Some out')" using "3.prems"(1) by simp
    from "3.IH"(1) [OF True this "3.prems"(2,4)] show ?thesis by linarith
  next
    case False
    have "utf8_validate_bytes (out @ enc (unat cp))" unfolding e by (rule validate_append [OF "3.prems"(2) v])
    moreover have "whatwg_dispatch enc fatal stream (dec\<lparr>bom_seen := True\<rparr>) (out @ enc (unat cp)) src = (d, Some out')"
      using "3.prems"(1) False by (simp only: whatwg_cont.simps(1) if_False)
    ultimately show ?thesis using "3.IH"(2) [OF False _ _ "3.prems"(4)] by (simp add: e)
  qed
next
  case (4 enc fatal stream dec out bc lo hi cp pb)
  then show ?case using cont_state_length [OF "4.prems"(3)] validate_append_FFFD [OF "4.prems"(2)] by (auto split: if_splits)
next
  case (5 enc fatal stream dec out bc lo hi cp pb b src)
  note p = "5.prems" [unfolded whatwg_cont.simps(3)]
  show ?case
  proof (cases "b < lo \<or> b > hi")
    case True
    with p(1) have f: "\<not> fatal" by auto
    then have "whatwg_dispatch enc fatal stream (dec\<lparr>bom_seen := True\<rparr>) (out @ FFFD) (b # src) = (d, Some out')" using p(1) True by simp
    from "5.IH"(1) [OF True f this validate_append_FFFD [OF p(2)] p(4)] cont_state_length [OF p(3)] show ?thesis by simp
  next
    case False
    from "5.IH"(2) [OF False _ p(2) cont_state_step [OF p(3) False] p(4)] p(1) False show ?thesis by simp
  qed
qed simp

text \<open>A stream never keeps more than the three bytes of \<open>pend_buf\<close>.\<close>

lemma whatwg_pending:
  shows "whatwg_dispatch enc fatal stream dec out src = (d, r) \<Longrightarrow> length (pend_buf dec) = pend_pos dec \<Longrightarrow> pend_pos dec \<le> 3 \<Longrightarrow>
      length (pend_buf d) = pend_pos d \<and> pend_pos d \<le> 3"
    and "whatwg_cont enc fatal stream dec out bc lo hi cp pb src = (d, r) \<Longrightarrow> length (pend_buf dec) = pend_pos dec \<Longrightarrow> pend_pos dec \<le> 3 \<Longrightarrow>
      cont_state pb bc lo hi cp \<Longrightarrow> length (pend_buf d) = pend_pos d \<and> pend_pos d \<le> 3"
proof (induction enc fatal stream dec out src and enc fatal stream dec out bc lo hi cp pb src
    arbitrary: d r and d r rule: whatwg_dispatch_whatwg_cont.induct)
  case (2 enc fatal stream dec out c src)
  then show ?case using cont_state_start [of c] by (cases "utf8_tbl c") (auto simp: whatwg_dispatch.simps(2) split: if_splits)
next
  case (3 enc fatal stream dec out lo hi cp pb src)
  then show ?case by (auto split: if_splits)
next
  case (4 enc fatal stream dec out bc lo hi cp pb)
  then show ?case using cont_state_length [OF "4.prems"(4)] by (auto split: if_splits)
next
  case (5 enc fatal stream dec out bc lo hi cp pb b src)
  then show ?case using cont_state_step [OF "5.prems"(4)] by (auto simp: whatwg_cont.simps(3) split: if_splits)
qed simp

section \<open>Streaming\<close>

text \<open>
  Cutting the input: decode the first part as a stream, put the bytes it kept in front of the
  rest. This is the same as decoding the whole, errors included.
\<close>

definition settled :: "utf8_dec \<Rightarrow> bool" where
  "settled dec \<longleftrightarrow> pend_pos dec = 0 \<and> pend_buf dec = []"

definition settle :: "utf8_dec \<Rightarrow> utf8_dec" where
  "settle dec = dec\<lparr>pend_pos := 0, pend_buf := []\<rparr>"

lemma settled_simps [simp]:
  "settled (settle dec)" "settled (dec\<lparr>bom_seen := x\<rparr>) = settled dec" "settled dec \<Longrightarrow> settle dec = dec"
  "settled dec \<Longrightarrow> settle (dec\<lparr>pend_pos := n, pend_buf := b\<rparr>) = dec"
  by (simp_all add: settled_def settle_def)

definition whatwg_resume :: "(nat \<Rightarrow> bytes) \<Rightarrow> bool \<Rightarrow> bool \<Rightarrow> bytes \<Rightarrow> utf8_dec \<times> bytes option \<Rightarrow> utf8_dec \<times> bytes option" where
  "whatwg_resume enc fatal st b r =
     (case r of (d, None) \<Rightarrow> (d, None) | (d, Some out) \<Rightarrow> whatwg_dispatch enc fatal st (settle d) out (pend_buf d @ b))"

lemma whatwg_resume_None [simp]: "whatwg_resume enc fatal st b (d, None) = (d, None)"
  by (simp add: whatwg_resume_def)

lemma whatwg_append:
  shows "stream \<Longrightarrow> settled dec \<Longrightarrow>
      whatwg_dispatch enc fatal st dec out (src @ b) = whatwg_resume enc fatal st b (whatwg_dispatch enc fatal stream dec out src)"
    and "stream \<Longrightarrow> settled dec \<Longrightarrow>
      (\<And>d out rest. settled d \<Longrightarrow> whatwg_dispatch enc fatal st d out (pb @ rest) = whatwg_cont enc fatal st d out bc lo hi cp pb rest) \<Longrightarrow>
      whatwg_cont enc fatal st dec out bc lo hi cp pb (src @ b) = whatwg_resume enc fatal st b (whatwg_cont enc fatal stream dec out bc lo hi cp pb src)"
proof (induction enc fatal stream dec out src and enc fatal stream dec out bc lo hi cp pb src
    rule: whatwg_dispatch_whatwg_cont.induct)
  case (1 enc fatal stream dec out)
  then show ?case by (simp add: whatwg_resume_def settled_def)
next
  case (2 enc fatal stream dec out c src)
  show ?case
  proof (cases "utf8_tbl c")
    case L_ASCII
    then show ?thesis using "2.IH"(1) [OF L_ASCII "2.prems"(1)] "2.prems"(2) by (simp add: whatwg_dispatch.simps(2))
  next
    case L_BAD
    then show ?thesis using "2.IH"(2) [OF L_BAD _ "2.prems"(1)] "2.prems"(2) by (cases fatal) (simp_all add: whatwg_dispatch.simps(2))
  next
    case (L_LEAD bc lo hi m)
    have "whatwg_dispatch enc fatal st d out ([c] @ rest) = whatwg_cont enc fatal st d out bc lo hi (ucast (c AND m)) [c] rest" for d out rest
      using L_LEAD by (simp add: whatwg_dispatch.simps(2))
    then show ?thesis using "2.IH"(3) [OF L_LEAD "2.prems"] L_LEAD by (simp add: whatwg_dispatch.simps(2))
  qed
next
  case (3 enc fatal stream dec out lo hi cp pb src)
  then show ?case by simp
next
  case (4 enc fatal stream dec out bc lo hi cp pb)
  then show ?case by (simp add: whatwg_resume_def)
next
  case (5 enc fatal stream dec out bc lo hi cp pb c src)
  show ?case
  proof (cases "c < lo \<or> c > hi")
    case True
    then show ?thesis using "5.IH"(1) [OF True _ "5.prems"(1)] "5.prems"(2) by (cases fatal) (simp_all add: whatwg_cont.simps(3))
  next
    case False
    have "whatwg_dispatch enc fatal st d out ((pb @ [c]) @ rest) =
        whatwg_cont enc fatal st d out bc 0x80 0xBF (push_bit 6 cp OR ucast (c AND 0x3F)) (pb @ [c]) rest" if "settled d" for d out rest
      using "5.prems"(3) [OF that, of out "c # rest"] False by (simp add: whatwg_cont.simps(3))
    then show ?thesis using "5.IH"(2) [OF False "5.prems"(1,2)] False by (simp add: whatwg_cont.simps(3))
  qed
qed

section \<open>Valid input\<close>

lemma lead_ok_tbl:
  assumes "lead_ok c t"
  obtains lo hi where "utf8_tbl c = L_LEAD (length t) lo hi (cp_mask (length t))" "lo \<le> t ! 0" "t ! 0 \<le> hi"
    "\<forall>b \<in> set (tl t). 0x80 \<le> b \<and> b \<le> 0xbf" "t \<noteq> []"
proof -
  obtain lo hi where v: "validate_lead c = Some (length t, lo, hi)" "lo \<le> t ! 0" "t ! 0 \<le> hi"
    "\<forall>b \<in> set (tl t). 0x80 \<le> b \<and> b \<le> 0xbf"
    using assms by (auto simp: lead_ok_def split: option.splits)
  moreover have "\<not> c < 0x80" using v(1) by (auto simp: validate_lead_nat word_less_nat_alt Let_def split: if_splits)
  moreover have "t \<noteq> []" using v(1) by (auto simp: validate_lead_def split: if_splits)
  ultimately show ?thesis using that [of lo hi] by (simp add: tbl_lead)
qed

lemma whatwg_cont_tail:
  "\<forall>b \<in> set t. 0x80 \<le> b \<and> b \<le> 0xbf \<Longrightarrow>
   whatwg_cont enc fatal stream dec out (length t) 0x80 0xBF cp pb (t @ src) =
   whatwg_cont enc fatal stream dec out 0 0x80 0xBF (foldl (\<lambda>cp b. push_bit 6 cp OR ucast (b AND 0x3F)) cp t) (pb @ t) src"
  by (induction t arbitrary: cp pb) (auto simp: whatwg_cont.simps(3) not_less)

text \<open>A well-formed sequence is passed on, or dropped as the byte order mark.\<close>

lemma whatwg_sequence:
  assumes "utf8_encoder enc" "lead_ok c t"
  shows "whatwg_dispatch enc fatal stream dec out (c # t @ src) =
    whatwg_dispatch enc fatal stream (dec\<lparr>bom_seen := True\<rparr>)
      (out @ (if \<not> bom_seen dec \<and> \<not> ignore_bom dec \<and> c # t = utf8_bytes 0xFEFF then [] else c # t)) src"
proof -
  let ?cp = "cp_fold c (cp_mask (length t)) t"
  note v = lead_ok_value [OF assms(2)]
  have e: "enc (unat ?cp) = c # t" using encoder_scalar [OF assms(1) v(2)] v(3) by simp
  have bom: "?cp = 0xFEFF \<longleftrightarrow> c # t = utf8_bytes 0xFEFF"
  proof
    assume "c # t = utf8_bytes 0xFEFF"
    then have ct: "c = 0xEF" "t = [0xBB, 0xBF]" by (simp_all add: utf8_bytes_def byte_of_def)
    show "?cp = 0xFEFF" unfolding ct by code_simp
  next
    assume "?cp = 0xFEFF"
    then have "unat ?cp = 0xFEFF" by simp
    then show "c # t = utf8_bytes 0xFEFF" using v(3) by simp
  qed
  obtain lo hi where tbl: "utf8_tbl c = L_LEAD (length t) lo hi (cp_mask (length t))" "lo \<le> t ! 0" "t ! 0 \<le> hi"
    and tl: "\<forall>b \<in> set (tl t). 0x80 \<le> b \<and> b \<le> 0xbf" and ne: "t \<noteq> []" using lead_ok_tbl [OF assms(2)] by blast
  obtain b t' where t: "t = b # t'" using ne by (cases t) auto
  have "whatwg_dispatch enc fatal stream dec out (c # t @ src) =
      whatwg_cont enc fatal stream dec out (length t') 0x80 0xBF (push_bit 6 (ucast (c AND cp_mask (length t))) OR ucast (b AND 0x3F)) [c, b] (t' @ src)"
  proof -
    have "\<not> (b < lo \<or> b > hi)" using tbl(2,3) by (simp add: t not_less)
    then show ?thesis using tbl(1) by (simp add: whatwg_dispatch.simps(2) t whatwg_cont.simps(3) del: de_Morgan_disj)
  qed
  also have "\<dots> = whatwg_cont enc fatal stream dec out 0 0x80 0xBF ?cp (c # t) src"
    using whatwg_cont_tail [of t'] tl by (simp add: t cp_fold_def)
  finally show ?thesis using e bom by auto
qed

lemma whatwg_valid_id:
  assumes "utf8_encoder enc" "bom_seen dec \<or> ignore_bom dec"
  shows "utf8_validate_bytes src \<Longrightarrow> snd (whatwg_dispatch enc fatal stream dec out src) = Some (out @ src)"
  using assms(2)
proof (induction "length src" arbitrary: src out dec rule: less_induct)
  case less
  show ?case
  proof (cases src)
    case (Cons c r)
    show ?thesis
    proof (cases "c < 0x80")
      case True
      then have "utf8_tbl c = L_ASCII" by (simp add: tbl_lead)
      then show ?thesis using less.hyps [of r "dec\<lparr>bom_seen := True\<rparr>" "out @ [c]"] less.prems Cons True
        by (simp add: whatwg_dispatch.simps(2) utf8_validate_bytes.simps)
    next
      case False
      then obtain t rest where t: "r = t @ rest" "lead_ok c t" "utf8_validate_bytes rest" using less.prems Cons validate_multi by blast
      have "snd (whatwg_dispatch enc fatal stream (dec\<lparr>bom_seen := True\<rparr>) (out @ c # t) rest) = Some ((out @ c # t) @ rest)"
        using t Cons by (intro less.hyps) simp_all
      then show ?thesis using whatwg_sequence [OF assms(1) t(2), of fatal stream dec out rest] less.prems(2) Cons t(1) by auto
    qed
  qed simp
qed

text \<open>With the \<open>fatal\<close> flag a result means that the input was valid.\<close>

lemma whatwg_fatal_valid:
  shows "whatwg_dispatch enc fatal stream dec out src = (d, Some out') \<Longrightarrow> fatal \<Longrightarrow> \<not> stream \<Longrightarrow> utf8_validate_bytes src"
    and "whatwg_cont enc fatal stream dec out bc lo hi cp pb src = (d, Some out') \<Longrightarrow> fatal \<Longrightarrow> \<not> stream \<Longrightarrow>
      cont_state pb bc lo hi cp \<Longrightarrow> utf8_validate_bytes (pb @ src)"
proof (induction enc fatal stream dec out src and enc fatal stream dec out bc lo hi cp pb src
    arbitrary: d out' and d out' rule: whatwg_dispatch_whatwg_cont.induct)
  case (1 enc fatal stream dec out)
  then show ?case by (simp add: utf8_validate_bytes.simps)
next
  case (2 enc fatal stream dec out c src)
  show ?case
  proof (cases "utf8_tbl c")
    case L_ASCII
    then have "c < 0x80" unfolding tbl_lead by (auto split: if_splits option.splits)
    then show ?thesis using "2.IH"(1) [OF L_ASCII] "2.prems" L_ASCII by (simp add: whatwg_dispatch.simps(2) utf8_validate_bytes.simps)
  next
    case L_BAD
    then show ?thesis using "2.prems" by (simp add: whatwg_dispatch.simps(2))
  next
    case (L_LEAD bc lo hi m)
    then show ?thesis using "2.IH"(3) [OF L_LEAD] "2.prems" cont_state_start [OF L_LEAD] by (simp add: whatwg_dispatch.simps(2))
  qed
next
  case (3 enc fatal stream dec out lo hi cp pb src)
  have "utf8_validate_bytes src" using 3 by (auto split: if_splits)
  moreover have "utf8_validate_bytes pb" using validate_utf8_bytes [OF cont_state_done(1)] cont_state_done(2) "3.prems"(4) by metis
  ultimately show ?case by (simp add: validate_append)
next
  case (4 enc fatal stream dec out bc lo hi cp pb)
  then show ?case by simp
next
  case (5 enc fatal stream dec out bc lo hi cp pb b src)
  show ?case
  proof (cases "b < lo \<or> b > hi")
    case True
    then show ?thesis using "5.prems" by (simp add: whatwg_cont.simps(3))
  next
    case False
    then show ?thesis using "5.IH"(2) [OF False] "5.prems" cont_state_step [OF "5.prems"(4) False] by (simp add: whatwg_cont.simps(3))
  qed
qed

section \<open>Masks of the high bits\<close>

lemma and_high_mask: "n \<le> 8 \<Longrightarrow> unat ((b :: byte) AND push_bit n (mask (8 - n))) = unat b div 2 ^ n * 2 ^ n"
proof -
  assume n: "n \<le> 8"
  have "b AND push_bit n (mask (8 - n)) = push_bit n (drop_bit n b)"
    by (rule bit_word_eqI) (use n in \<open>auto simp: bit_simps\<close>)
  then have "unat (b AND push_bit n (mask (8 - n))) = (unat b div 2 ^ n * 2 ^ n) mod 2 ^ 8" by (simp add: unat_shl unat_shr)
  also have "\<dots> = unat b div 2 ^ n * 2 ^ n"
    using le_less_trans [OF div_times_less_eq_dividend unat_lt_B8, of b "2 ^ n"] by (intro mod_less) simp
  finally show ?thesis .
qed

lemma high_masks:
  "unat (b AND 0x80) = unat b div 128 * 128" "unat (b AND 0xC0) = unat b div 64 * 64" "unat (b AND 0xE0) = unat b div 32 * 32"
  "unat (b AND 0xF0) = unat b div 16 * 16" "unat (b AND 0xF8) = unat b div 8 * 8" for b :: byte
  using and_high_mask [of 7 b] and_high_mask [of 6 b] and_high_mask [of 5 b] and_high_mask [of 4 b] and_high_mask [of 3 b]
  by (simp_all add: mask_eq_exp_minus_1 push_bit_eq_mult)

lemma div_block: "0 < k \<Longrightarrow> n div k = m \<longleftrightarrow> m * k \<le> n \<and> n < (m + 1) * (k :: nat)"
  using div_nat_eqI [of k m n] div_times_less_eq_dividend [of n k] dividend_less_div_times [of k n] by (auto simp: ac_simps)

lemma div_blocks:
  fixes n :: nat
  shows "n div 128 * 128 = 0 \<longleftrightarrow> n < 0x80" "n div 64 * 64 = 0x80 \<longleftrightarrow> 0x80 \<le> n \<and> n < 0xC0"
    "n div 32 * 32 = 0xC0 \<longleftrightarrow> 0xC0 \<le> n \<and> n < 0xE0" "n div 16 * 16 = 0xE0 \<longleftrightarrow> 0xE0 \<le> n \<and> n < 0xF0"
    "n div 8 * 8 = 0xF0 \<longleftrightarrow> 0xF0 \<le> n \<and> n < 0xF8"
  using div_block [of 128 n 0] div_block [of 64 n 2] div_block [of 32 n 6] div_block [of 16 n 14] div_block [of 8 n 30]
    mult_cancel2 [of "n div 64" 64 2] mult_cancel2 [of "n div 32" 32 6] mult_cancel2 [of "n div 16" 16 14] mult_cancel2 [of "n div 8" 8 30]
  by simp_all

lemma high_mask_tests:
  "b AND 0x80 = 0 \<longleftrightarrow> unat b < 0x80" "b AND 0xC0 = 0x80 \<longleftrightarrow> 0x80 \<le> unat b \<and> unat b < 0xC0"
  "b AND 0xE0 = 0xC0 \<longleftrightarrow> 0xC0 \<le> unat b \<and> unat b < 0xE0" "b AND 0xF0 = 0xE0 \<longleftrightarrow> 0xE0 \<le> unat b \<and> unat b < 0xF0"
  "b AND 0xF8 = 0xF0 \<longleftrightarrow> 0xF0 \<le> unat b \<and> unat b < 0xF8" for b :: byte
  unfolding word_unat_eq_iff high_masks by (simp_all add: div_blocks div_block)

lemma sequence_length_nat:
  "utf8_sequence_length b = (let n = unat b in
     if n < 0x80 then 1 else if n < 0xC0 then -1 else if n < 0xE0 then 2 else if n < 0xF0 then 3 else if n < 0xF8 then 4 else -1)"
  unfolding utf8_sequence_length_def high_mask_tests Let_def by auto

lemma lead_ok_sequence_length: "lead_ok c t \<Longrightarrow> utf8_sequence_length c = int (length t) + 1"
  by (erule lead_okE) (auto simp: sequence_length_nat Let_def)

lemma utf8_strlen_loop_valid:
  "\<forall>cp \<in> set cps. scalar cp \<Longrightarrow> utf8_strlen_loop (concat (map utf8_bytes cps)) n = n + length cps"
proof (induction cps arbitrary: n)
  case (Cons cp cps)
  show ?case
  proof (cases "cp < 0x80")
    case True
    then show ?thesis using Cons by (simp add: utf8_bytes_def sequence_length_nat)
  next
    case False
    obtain c t where ct: "utf8_bytes cp = c # t" by (rule utf8_bytes_cons)
    have "lead_ok c t" using scalar_lead_ok [OF _ _ ct] False Cons.prems by simp
    then have "utf8_sequence_length c = int (length t) + 1" by (rule lead_ok_sequence_length)
    then show ?thesis using Cons ct by (simp add: nat_add_distrib)
  qed
qed simp

section \<open>Latin-1 round trip\<close>

lemma latin1_high:
  assumes "\<not> b < (0x80 :: byte)"
  shows "0xc0 OR drop_bit 6 b = byte_of (0xC0 + unat b div 64)" "0x80 OR (b AND 0x3f) = byte_of (0x80 + unat b mod 64)"
proof -
  have n: "unat b < 256" by simp
  have "unat (push_bit 6 3 OR drop_bit 6 b :: byte) = 3 * 2 ^ 6 + unat b div 64"
    using n unat_shl_or [of "3 :: byte" 6 "drop_bit 6 b"] by (simp add: unat_shr less_mult_imp_div_less del: unat_lt_B8)
  then show "0xc0 OR drop_bit 6 b = byte_of (0xC0 + unat b div 64)" by (intro byte_of_unat) (simp add: push_bit_eq_mult)
  have "unat (push_bit 6 2 OR (b AND 0x3f) :: byte) = 2 * 2 ^ 6 + unat b mod 64"
    using unat_shl_or [of "2 :: byte" 6 "b AND 0x3f"] by (simp add: byte_masks unat_low)
  then show "0x80 OR (b AND 0x3f) = byte_of (0x80 + unat b mod 64)" by (intro byte_of_unat) (simp add: push_bit_eq_mult)
qed

lemma latin1_loop_utf8: "latin1_loop src = concat (map (\<lambda>b. utf8_bytes (unat b)) src)"
proof (induction src)
  case (Cons b src)
  have "unat b < 0x800" using unat_lt_B8 [of b] by (simp del: unat_lt_B8)
  then show ?case using Cons latin1_high [of b] byte_of_unat [of b "unat b"]
    by (cases "b < 0x80") (simp_all add: utf8_bytes_def word_less_nat_alt)
qed simp

lemma latin1_join:
  assumes "first = 0xc2 \<or> first = 0xc3" "second AND 0xc0 = 0x80" "b = push_bit 6 (first AND 0x1f) OR (second AND 0x3f)"
  shows "first = byte_of (0xC0 + unat b div 64)" "second = byte_of (0x80 + unat b mod 64)" "\<not> b < 0x80"
proof -
  have s: "0x80 \<le> unat second" "unat second < 0xC0" using assms(2) unfolding high_mask_tests by simp_all
  obtain l where l: "unat second = 0x80 + l" using le_Suc_ex [OF s(1)] by blast
  then have l64: "l < 64" using s(2) by simp
  have low: "unat (second AND 0x3f) = l" using l l64 by (simp add: byte_masks unat_low mod_add_eq [symmetric])
  define h :: nat where "h = (if first = 0xc2 then 2 else 3)"
  have h: "first = byte_of (0xC0 + h)" "first AND 0x1f = byte_of h" "2 \<le> h" "h < 4"
    using assms(1) by (auto simp: h_def byte_of_def)
  have b: "unat b = h * 64 + l"
    unfolding assms(3) h(2) using low l64 h(4) unat_shl_or [of "byte_of h" 6 "second AND 0x3f"] by simp
  have bd: "unat b div 64 = h" "unat b mod 64 = l" unfolding b using l64 by (simp_all add: six_bits)
  show "first = byte_of (0xC0 + unat b div 64)" "second = byte_of (0x80 + unat b mod 64)"
    unfolding bd using h(1) byte_of_unat [OF l] by simp_all
  show "\<not> b < 0x80" using b h(3) by (simp add: word_less_nat_alt)
qed

lemma latin1_split:
  assumes "\<not> b < (0x80 :: byte)" "f = byte_of (0xC0 + unat b div 64)" "s = byte_of (0x80 + unat b mod 64)"
  shows "f = 0xc2 \<or> f = 0xc3" "s AND 0xc0 = 0x80" "push_bit 6 (f AND 0x1f) OR (s AND 0x3f) = b" "\<not> f < 0x80"
proof -
  have n: "0x80 \<le> unat b" "unat b < 256" using assms(1) by (simp_all add: word_less_nat_alt)
  have h: "unat b div 64 = 2 \<or> unat b div 64 = 3" using n div_block [of 64 "unat b" 2] div_block [of 64 "unat b" 3] by auto
  show f: "f = 0xc2 \<or> f = 0xc3" using h assms(2) by (auto simp: byte_of_def)
  show s: "s AND 0xc0 = 0x80" unfolding high_mask_tests assms(3) by simp
  define b' where "b' = push_bit 6 (f AND 0x1f) OR (s AND 0x3f)"
  note j = latin1_join [OF f s b'_def]
  have "unat b' div 64 < 4" by (rule less_mult_imp_div_less) simp
  then have "unat b' div 64 = unat b div 64" using arg_cong [OF j(1), of unat] assms(2) h by auto
  moreover have "unat b' mod 64 = unat b mod 64" using arg_cong [OF j(2), of unat] assms(3) by simp
  ultimately have "unat b' = unat b" by (metis div_mult_mod_eq)
  then show "push_bit 6 (f AND 0x1f) OR (s AND 0x3f) = b" unfolding b'_def by (simp only: word_unat_eq_iff)
  show "\<not> f < 0x80" using f by auto
qed

lemma utf8_to_latin1_loop_iff: "utf8_to_latin1_loop src out = Some r \<longleftrightarrow> (\<exists>new. r = out @ new \<and> src = latin1_loop new)"
proof
  show "utf8_to_latin1_loop src out = Some r \<Longrightarrow> \<exists>new. r = out @ new \<and> src = latin1_loop new"
  proof (induction src out rule: utf8_to_latin1_loop.induct)
    case (2 first src out)
    show ?case
    proof (cases "first < 0x80")
      case True
      then obtain new where "r = out @ first # new" "src = latin1_loop new" using 2 by auto
      then show ?thesis using True by (intro exI [of _ "first # new"]) simp
    next
      case False
      then obtain second src' where s: "src = second # src'" "first = 0xc2 \<or> first = 0xc3" "second AND 0xc0 = 0x80"
        using "2.prems" by (auto split: list.splits if_splits)
      let ?b = "push_bit 6 (first AND 0x1f) OR (second AND 0x3f)"
      have "utf8_to_latin1_loop src' (out @ [?b]) = Some r" using "2.prems" False s by simp
      then obtain new where "r = (out @ [?b]) @ new" "src' = latin1_loop new" using "2.IH"(2) [OF False s(1)] s(2,3) by blast
      moreover have "latin1_loop (?b # new) = [first, second] @ latin1_loop new"
        using latin1_join(1,2) [OF s(2,3) refl] unfolding latin1_loop.simps latin1_high [OF latin1_join(3) [OF s(2,3) refl]]
        using latin1_join(3) [OF s(2,3) refl] by (simp only: if_False append.simps)
      ultimately show ?thesis using s(1) by (intro exI [of _ "?b # new"]) (simp del: latin1_loop.simps)
    qed
  qed simp
next
  have "utf8_to_latin1_loop (latin1_loop new) out = Some (out @ new)" for new
  proof (induction new arbitrary: out)
    case (Cons b new)
    show ?case
    proof (cases "b < 0x80")
      case False
      define f s where "f = byte_of (0xC0 + unat b div 64)" and "s = byte_of (0x80 + unat b mod 64)"
      note j = latin1_split [OF False f_def s_def]
      have "utf8_to_latin1_loop (latin1_loop (b # new)) out = utf8_to_latin1_loop (f # s # latin1_loop new) out"
        using False by (simp only: latin1_loop.simps if_False latin1_high [OF False] f_def s_def)
      also have "\<dots> = utf8_to_latin1_loop (latin1_loop new) (out @ [b])"
        using j by (simp only: utf8_to_latin1_loop.simps(2) if_False list.case if_True simp_thms)
      finally show ?thesis using Cons by simp
    qed (use Cons in simp)
  qed simp
  then show "\<exists>new. r = out @ new \<and> src = latin1_loop new \<Longrightarrow> utf8_to_latin1_loop src out = Some r" by auto
qed

end
