(* ===== verification/Chunked.thy ===== *)
theory Chunked
  imports Ant_Prelude
begin

text \<open>
  The contract of the incremental decoders of the runtime (\<open>TextDecoder\<close>, \<open>StringDecoder\<close>, the
  codec streams): a call takes a chunk and a flag that says whether more follows, and returns the
  new state and the text decoded so far, or an error. What comes out must not depend on where the
  input was cut.
\<close>

fun feed :: "('s \<Rightarrow> 'i list \<Rightarrow> bool \<Rightarrow> 's \<times> ('e + 'o list)) \<Rightarrow> 's \<Rightarrow> 'i list list \<Rightarrow> 's \<times> ('e + 'o list)" where
  "feed step s [] = step s [] False"
| "feed step s (c # cs) =
     (case step s c True of
        (s1, Inl e) \<Rightarrow> (s1, Inl e)
      | (s1, Inr out) \<Rightarrow> (case feed step s1 cs of (s2, r) \<Rightarrow> (s2, map_sum id ((@) out) r)))"

locale chunked_decoder =
  fixes inv :: "'s \<Rightarrow> bool"
    and step :: "'s \<Rightarrow> 'i list \<Rightarrow> bool \<Rightarrow> 's \<times> ('e + 'o list)"
  assumes step_inv: "inv s \<Longrightarrow> inv (fst (step s a strm))"
    and step_split: "inv s \<Longrightarrow> step s a True = (s1, Inr out) \<Longrightarrow>
      step s (a @ b) strm = (fst (step s1 b strm), map_sum id ((@) out) (snd (step s1 b strm)))"
    and step_fail: "inv s \<Longrightarrow> step s a True = (s1, Inl e) \<Longrightarrow> snd (step s (a @ b) strm) = Inl e"
begin

lemma feed_error: "inv s \<Longrightarrow> snd (step s (concat cs) False) = Inl e \<Longrightarrow> snd (feed step s cs) = Inl e"
proof (induction cs arbitrary: s)
  case (Cons c cs)
  show ?case
  proof (cases "step s c True")
    case (Pair s1 r)
    show ?thesis
    proof (cases r)
      case (Inl e')
      then show ?thesis using step_fail [OF Cons.prems(1) Pair [unfolded Inl], of "concat cs" False] Cons.prems(2) Pair by simp
    next
      case (Inr out)
      have "inv s1" using step_inv [OF Cons.prems(1), of c True] Pair by simp
      moreover have "snd (step s1 (concat cs) False) = Inl e"
        using step_split [OF Cons.prems(1) Pair [unfolded Inr], of "concat cs" False] Cons.prems(2)
        by (cases "snd (step s1 (concat cs) False)") auto
      ultimately have "snd (feed step s1 cs) = Inl e" by (rule Cons.IH)
      then show ?thesis using Pair Inr by (cases "feed step s1 cs") simp
    qed
  qed
qed simp

lemma feed_concat: "inv s \<Longrightarrow> snd (step s (concat cs) False) = Inr out \<Longrightarrow> feed step s cs = step s (concat cs) False"
proof (induction cs arbitrary: s out)
  case (Cons c cs)
  show ?case
  proof (cases "step s c True")
    case (Pair s1 r)
    show ?thesis
    proof (cases r)
      case (Inl e)
      then show ?thesis using step_fail [OF Cons.prems(1) Pair [unfolded Inl], of "concat cs" False] Cons.prems(2) by simp
    next
      case (Inr o1)
      note sp = step_split [OF Cons.prems(1) Pair [unfolded Inr], of "concat cs" False]
      have "inv s1" using step_inv [OF Cons.prems(1), of c True] Pair by simp
      moreover obtain o2 where "snd (step s1 (concat cs) False) = Inr o2"
        using sp Cons.prems(2) by (cases "snd (step s1 (concat cs) False)") auto
      ultimately have "feed step s1 cs = step s1 (concat cs) False" by (rule Cons.IH)
      then show ?thesis using sp Pair Inr by (cases "step s1 (concat cs) False") simp
    qed
  qed
qed simp

text \<open>However the input is cut, the text (or the error) is that of one call on all of it.\<close>

lemma feed_result: "inv s \<Longrightarrow> snd (feed step s cs) = snd (step s (concat cs) False)"
  using feed_error [of s cs] feed_concat [of s cs] by (cases "snd (step s (concat cs) False)") simp_all

end

end
