(* ===== verification/Textcodec.thy ===== *)
theory Textcodec
  imports Utf8 Chunked
begin

text \<open>
  \<open>TextDecoder\<close> of \<open>src/src/modules/textcodec.c\<close>: labels, the single-byte and UTF-16 decoders and the
  streaming entry point \<open>td_decode\<close>, which all of \<open>TextDecoder\<close>, \<open>TextDecoderStream\<close> and
  \<open>StringDecoder\<close> call. \<open>td_pending\<close> is the part of the array \<open>pending\<close> that \<open>pending_len\<close> counts.
\<close>

unbundle bit_operations_syntax

datatype td_encoding = TD_ENC_UTF8 | TD_ENC_UTF16LE | TD_ENC_UTF16BE | TD_ENC_WINDOWS_1252 | TD_ENC_ISO_8859_2

record td_state =
  td_enc :: td_encoding
  td_pending :: bytes
  td_fatal :: bool
  td_ignore_bom :: bool
  td_bom_seen :: bool

definition td_state_new :: "mem \<Rightarrow> td_encoding \<Rightarrow> bool \<Rightarrow> bool \<Rightarrow> td_state option" where
  "td_state_new m e fatal ignore =
     (if \<not> heap_ok m 16 then None
      else Some \<lparr>td_enc = e, td_pending = [], td_fatal = fatal, td_ignore_bom = ignore, td_bom_seen = False\<rparr>)"

section \<open>Labels\<close>

definition ascii :: "string \<Rightarrow> bytes" where
  "ascii s = map of_char s"

definition tolower :: "byte \<Rightarrow> byte" where
  "tolower c = (if 0x41 \<le> c \<and> c \<le> 0x5A then c + 0x20 else c)"

text \<open>\<open>strncasecmp (s, t, n) = 0\<close> for a counted string \<open>s\<close> and a terminated string \<open>t\<close>.\<close>

fun strncasecmp_eq :: "bytes \<Rightarrow> bytes \<Rightarrow> nat \<Rightarrow> bool" where
  "strncasecmp_eq s t 0 = True"
| "strncasecmp_eq s t (Suc n) =
     (let a = (case s of [] \<Rightarrow> 0 | c # _ \<Rightarrow> c); b = (case t of [] \<Rightarrow> 0 | c # _ \<Rightarrow> c)
      in if tolower a \<noteq> tolower b then False
         else if a = 0 then True
         else strncasecmp_eq (tl s) (tl t) n)"

text \<open>The table of labels with the lengths the source writes beside them.\<close>

definition encoding_map :: "(string \<times> nat \<times> td_encoding) list" where
  "encoding_map =
    [(''unicode-1-1-utf-8'', 17, TD_ENC_UTF8),
     (''unicode11utf8'',     13, TD_ENC_UTF8),
     (''unicode20utf8'',     13, TD_ENC_UTF8),
     (''utf-8'',              5, TD_ENC_UTF8),
     (''utf8'',               4, TD_ENC_UTF8),
     (''x-unicode20utf8'',   17, TD_ENC_UTF8),
     (''ansi_x3.4-1968'',    14, TD_ENC_WINDOWS_1252),
     (''ascii'',              5, TD_ENC_WINDOWS_1252),
     (''cp1252'',             6, TD_ENC_WINDOWS_1252),
     (''cp819'',              5, TD_ENC_WINDOWS_1252),
     (''csisolatin1'',       11, TD_ENC_WINDOWS_1252),
     (''ibm819'',             6, TD_ENC_WINDOWS_1252),
     (''iso-8859-1'',        10, TD_ENC_WINDOWS_1252),
     (''iso-ir-100'',        10, TD_ENC_WINDOWS_1252),
     (''iso8859-1'',          9, TD_ENC_WINDOWS_1252),
     (''iso88591'',           8, TD_ENC_WINDOWS_1252),
     (''iso_8859-1'',        10, TD_ENC_WINDOWS_1252),
     (''iso_8859-1:1987'',   15, TD_ENC_WINDOWS_1252),
     (''l1'',                 2, TD_ENC_WINDOWS_1252),
     (''latin1'',             6, TD_ENC_WINDOWS_1252),
     (''us-ascii'',           8, TD_ENC_WINDOWS_1252),
     (''windows-1252'',      12, TD_ENC_WINDOWS_1252),
     (''x-cp1252'',           8, TD_ENC_WINDOWS_1252),
     (''unicodefffe'',       11, TD_ENC_UTF16BE),
     (''utf-16be'',           8, TD_ENC_UTF16BE),
     (''csunicode'',          9, TD_ENC_UTF16LE),
     (''iso-10646-ucs-2'',   16, TD_ENC_UTF16LE),
     (''ucs-2'',              5, TD_ENC_UTF16LE),
     (''unicode'',            7, TD_ENC_UTF16LE),
     (''unicodefeff'',       11, TD_ENC_UTF16LE),
     (''utf-16'',             6, TD_ENC_UTF16LE),
     (''utf-16le'',           8, TD_ENC_UTF16LE),
     (''iso-8859-2'',        10, TD_ENC_ISO_8859_2)]"

fun resolve_in :: "(string \<times> nat \<times> td_encoding) list \<Rightarrow> bytes \<Rightarrow> td_encoding option" where
  "resolve_in [] s = None"
| "resolve_in ((label, len, e) # rest) s =
     (if length s = len \<and> strncasecmp_eq s (ascii label) (length s) then Some e else resolve_in rest s)"

definition resolve_encoding :: "bytes \<Rightarrow> td_encoding option" where
  "resolve_encoding s = resolve_in encoding_map s"

definition encoding_name :: "td_encoding \<Rightarrow> string" where
  "encoding_name e =
     (case e of TD_ENC_UTF16LE \<Rightarrow> ''utf-16le'' | TD_ENC_UTF16BE \<Rightarrow> ''utf-16be''
      | TD_ENC_WINDOWS_1252 \<Rightarrow> ''windows-1252'' | TD_ENC_ISO_8859_2 \<Rightarrow> ''iso-8859-2'' | TD_ENC_UTF8 \<Rightarrow> ''utf-8'')"

definition trim_label :: "bytes \<Rightarrow> bytes" where
  "trim_label s = rev (dropWhile (\<lambda>c. c \<le> 0x20) (rev (dropWhile (\<lambda>c. c \<le> 0x20) s)))"

definition squote :: "string \<Rightarrow> string" where
  "squote s = [CHR 0x27] @ s @ [CHR 0x27]"

text \<open>The constructor: the label argument (\<open>None\<close> when undefined) and the two options.\<close>

definition td_label :: "bytes option \<Rightarrow> td_encoding outcome" where
  "td_label label =
     (case label of
        None \<Rightarrow> Inr TD_ENC_UTF8
      | Some raw \<Rightarrow>
          let trimmed = trim_label raw
          in case resolve_encoding trimmed of
               None \<Rightarrow> Inl (js_mkerr_range (''Failed to construct '' @ squote ''TextDecoder'' @
                 '': The encoding label provided ('' @ squote (map (\<lambda>c. char_of (unat c)) trimmed) @ '') is invalid.''))
             | Some e \<Rightarrow> Inr e)"

definition textdecoder_ctor :: "mem \<Rightarrow> bool \<Rightarrow> bytes option \<Rightarrow> bool \<Rightarrow> bool \<Rightarrow> td_state outcome" where
  "textdecoder_ctor m new_target label fatal ignore =
     (if \<not> new_target then Inl (js_mkerr_type (''TextDecoder constructor requires '' @ squote ''new''))
      else
        case td_label label of
          Inl err \<Rightarrow> Inl err
        | Inr e \<Rightarrow>
            (case td_state_new m e fatal ignore of None \<Rightarrow> Inl (js_mkerr ''out of memory'') | Some st \<Rightarrow> Inr st))"

section \<open>Single-byte encodings\<close>

definition windows_1252_specials :: "nat list" where
  "windows_1252_specials =
    [0x20AC, 0x0081, 0x201A, 0x0192, 0x201E, 0x2026, 0x2020, 0x2021,
     0x02C6, 0x2030, 0x0160, 0x2039, 0x0152, 0x008D, 0x017D, 0x008F,
     0x0090, 0x2018, 0x2019, 0x201C, 0x201D, 0x2022, 0x2013, 0x2014,
     0x02DC, 0x2122, 0x0161, 0x203A, 0x0153, 0x009D, 0x017E, 0x0178]"

definition decode_windows_1252_byte :: "byte \<Rightarrow> nat" where
  "decode_windows_1252_byte b =
     (if b < 0x80 then unat b
      else if b < 0xA0 then windows_1252_specials ! (unat b - 0x80)
      else unat b)"

definition iso_8859_2_upper :: "nat list" where
  "iso_8859_2_upper =
    [0x00A0, 0x0104, 0x02D8, 0x0141, 0x00A4, 0x013D, 0x015A, 0x00A7,
     0x00A8, 0x0160, 0x015E, 0x0164, 0x0179, 0x00AD, 0x017D, 0x017B,
     0x00B0, 0x0105, 0x02DB, 0x0142, 0x00B4, 0x013E, 0x015B, 0x02C7,
     0x00B8, 0x0161, 0x015F, 0x0165, 0x017A, 0x02DD, 0x017E, 0x017C,
     0x0154, 0x00C1, 0x00C2, 0x0102, 0x00C4, 0x0139, 0x0106, 0x00C7,
     0x010C, 0x00C9, 0x0118, 0x00CB, 0x011A, 0x00CD, 0x00CE, 0x010E,
     0x0110, 0x0143, 0x0147, 0x00D3, 0x00D4, 0x0150, 0x00D6, 0x00D7,
     0x0158, 0x016E, 0x00DA, 0x0170, 0x00DC, 0x00DD, 0x0162, 0x00DF,
     0x0155, 0x00E1, 0x00E2, 0x0103, 0x00E4, 0x013A, 0x0107, 0x00E7,
     0x010D, 0x00E9, 0x0119, 0x00EB, 0x011B, 0x00ED, 0x00EE, 0x010F,
     0x0111, 0x0144, 0x0148, 0x00F3, 0x00F4, 0x0151, 0x00F6, 0x00F7,
     0x0159, 0x016F, 0x00FA, 0x0171, 0x00FC, 0x00FD, 0x0163, 0x02D9]"

definition decode_iso_8859_2_byte :: "byte \<Rightarrow> nat" where
  "decode_iso_8859_2_byte b = (if b < 0xA0 then unat b else iso_8859_2_upper ! (unat b - 0xA0))"

fun decode_single_byte :: "(nat \<Rightarrow> bytes) \<Rightarrow> td_encoding \<Rightarrow> bytes \<Rightarrow> bytes \<Rightarrow> bytes" where
  "decode_single_byte enc e [] out = out"
| "decode_single_byte enc e (b # src) out =
     (let cp = (if e = TD_ENC_WINDOWS_1252 then decode_windows_1252_byte b else decode_iso_8859_2_byte b)
      in decode_single_byte enc e src (out @ enc cp))"

section \<open>UTF-16\<close>

definition u16_read :: "byte \<Rightarrow> byte \<Rightarrow> bool \<Rightarrow> u16" where
  "u16_read p0 p1 be = (if be then push_bit 8 (ucast p0) OR ucast p1 else push_bit 8 (ucast p1) OR ucast p0)"

definition U16_IS_HIGH :: "u16 \<Rightarrow> bool" where
  "U16_IS_HIGH cu \<longleftrightarrow> cu \<ge> 0xD800 \<and> cu \<le> 0xDBFF"

definition U16_IS_LOW :: "u16 \<Rightarrow> bool" where
  "U16_IS_LOW cu \<longleftrightarrow> cu \<ge> 0xDC00 \<and> cu \<le> 0xDFFF"

definition U16_PAIR :: "u16 \<Rightarrow> u16 \<Rightarrow> u32" where
  "U16_PAIR hi lo = 0x10000 + push_bit 10 (ucast (hi - 0xD800)) + ucast (lo - 0xDC00)"

text \<open>
  The loop over the code units, from \<open>src[i]\<close> on: what is left pending, and the output or the
  return value \<open>-1\<close>.
\<close>

fun utf16_loop :: "(nat \<Rightarrow> bytes) \<Rightarrow> bool \<Rightarrow> bool \<Rightarrow> bool \<Rightarrow> bytes \<Rightarrow> bytes \<Rightarrow> bytes \<times> bytes option" where
  "utf16_loop enc fatal be stream [] out = ([], Some out)"
| "utf16_loop enc fatal be stream [x] out =
     (if stream then ([x], Some out) else if fatal then ([], None) else ([], Some (out @ FFFD)))"
| "utf16_loop enc fatal be stream (a # b # src) out =
     (let cu = u16_read a b be
      in if \<not> U16_IS_HIGH cu \<and> \<not> U16_IS_LOW cu then utf16_loop enc fatal be stream src (out @ enc (unat cu))
         else if U16_IS_LOW cu then
           (if fatal then ([], None) else utf16_loop enc fatal be stream src (out @ FFFD))
         else
           (case src of
              c # d # src' \<Rightarrow>
                let lo = u16_read c d be
                in if U16_IS_LOW lo then utf16_loop enc fatal be stream src' (out @ enc (unat (U16_PAIR cu lo)))
                   else if fatal then ([], None)
                   else utf16_loop enc fatal be stream src (out @ FFFD)
            | _ \<Rightarrow>
                if stream then (a # b # src, Some out)
                else if fatal then ([], None)
                else ([], Some (out @ FFFD @ (if length src = 1 then FFFD else [])))))"

definition utf16_decode :: "(nat \<Rightarrow> bytes) \<Rightarrow> td_state \<Rightarrow> bytes \<Rightarrow> bool \<Rightarrow> td_state \<times> bytes option" where
  "utf16_decode enc st src stream =
     (let be = (td_enc st = TD_ENC_UTF16BE)
      in if \<not> td_bom_seen st \<and> length src < 2 then
           (let (p, r) = utf16_loop enc (td_fatal st) be stream src [] in (st\<lparr>td_pending := p\<rparr>, r))
         else
           let skip = \<not> td_bom_seen st \<and> u16_read (src ! 0) (src ! 1) be = 0xFEFF \<and> \<not> td_ignore_bom st;
               (p, r) = utf16_loop enc (td_fatal st) be stream (if skip then drop 2 src else src) []
           in (st\<lparr>td_bom_seen := True, td_pending := p\<rparr>, r))"

section \<open>The entry point\<close>

text \<open>The decoders behind \<open>td_decode\<close>, on the pending bytes and the input.\<close>

definition td_dispatch :: "(nat \<Rightarrow> bytes) \<Rightarrow> td_state \<Rightarrow> bytes \<Rightarrow> bool \<Rightarrow> td_state \<times> bytes option" where
  "td_dispatch enc st src stream =
     (if td_enc st = TD_ENC_UTF16LE \<or> td_enc st = TD_ENC_UTF16BE then utf16_decode enc st src stream
      else if td_enc st = TD_ENC_WINDOWS_1252 \<or> td_enc st = TD_ENC_ISO_8859_2 then
        (st\<lparr>td_pending := [], td_bom_seen := False\<rparr>, Some (decode_single_byte enc (td_enc st) src []))
      else
        let dec = \<lparr>ignore_bom = td_ignore_bom st, bom_seen = td_bom_seen st, pend_buf = [], pend_pos = 0\<rparr>;
            (dec, r) = utf8_whatwg_decode enc dec src (td_fatal st) stream
        in (st\<lparr>td_pending := take (pend_pos dec) (pend_buf dec), td_bom_seen := (if stream then bom_seen dec else False)\<rparr>, r))"

definition td_decode :: "mem \<Rightarrow> (nat \<Rightarrow> bytes) \<Rightarrow> td_state \<Rightarrow> bytes \<Rightarrow> bool \<Rightarrow> td_state \<times> bytes outcome" where
  "td_decode m enc st input stream_mode =
     (let src = td_pending st @ input; total = length src
      in if total = 0 then (if \<not> stream_mode then st\<lparr>td_bom_seen := False\<rparr> else st, Inr [])
         else if td_pending st \<noteq> [] \<and> \<not> heap_ok m total then (st, Inl (js_mkerr ''out of memory''))
         else
           let st = st\<lparr>td_pending := []\<rparr>
           in if \<not> heap_ok m (total * 3 + 1) then (st, Inl (js_mkerr ''out of memory''))
              else
                let (st, r) = td_dispatch enc st src stream_mode
                in case r of
                     None \<Rightarrow> (st, Inl (js_mkerr_type ''The encoded data was not valid.''))
                   | Some out \<Rightarrow>
                       (if td_enc st \<noteq> TD_ENC_UTF8 \<and> \<not> stream_mode then st\<lparr>td_bom_seen := False\<rparr> else st, Inr out))"

text \<open>The methods of a \<open>TextDecoder\<close> object; \<open>None\<close> is a receiver without decoder state.\<close>

definition js_textdecoder_decode :: "mem \<Rightarrow> (nat \<Rightarrow> bytes) \<Rightarrow> td_state option \<Rightarrow> bytes \<Rightarrow> bool \<Rightarrow> td_state option \<times> bytes outcome" where
  "js_textdecoder_decode m enc st input stream_mode =
     (case st of
        None \<Rightarrow> (None, Inl (js_mkerr_type ''Invalid TextDecoder''))
      | Some st \<Rightarrow> (case td_decode m enc st input stream_mode of (st, r) \<Rightarrow> (Some st, r)))"

definition js_textdecoder_get_encoding :: "td_state option \<Rightarrow> string" where
  "js_textdecoder_get_encoding st = encoding_name (case st of None \<Rightarrow> TD_ENC_UTF8 | Some st \<Rightarrow> td_enc st)"

definition js_textdecoder_get_fatal :: "td_state option \<Rightarrow> bool" where
  "js_textdecoder_get_fatal st = (case st of None \<Rightarrow> False | Some st \<Rightarrow> td_fatal st)"

definition js_textdecoder_get_ignore_bom :: "td_state option \<Rightarrow> bool" where
  "js_textdecoder_get_ignore_bom st = (case st of None \<Rightarrow> False | Some st \<Rightarrow> td_ignore_bom st)"

section \<open>The output so far does not matter\<close>

definition put_front :: "bytes \<Rightarrow> 's \<times> bytes option \<Rightarrow> 's \<times> bytes option" where
  "put_front out r = (fst r, map_option ((@) out) (snd r))"

lemma put_front_simps [simp]: "put_front out (d, Some x) = (d, Some (out @ x))" "put_front out (d, None) = (d, None)"
  "put_front [] r = r" "put_front a (put_front b r) = put_front (a @ b) r"
  by (cases r; cases "snd r"; simp add: put_front_def comp_def)+

lemma whatwg_out_append:
  shows "out = a @ b \<Longrightarrow> whatwg_dispatch enc fatal stream dec out src = put_front a (whatwg_dispatch enc fatal stream dec b src)"
    and "out = a @ b \<Longrightarrow> whatwg_cont enc fatal stream dec out bc lo hi cp pb src = put_front a (whatwg_cont enc fatal stream dec b bc lo hi cp pb src)"
proof (induction enc fatal stream dec out src and enc fatal stream dec out bc lo hi cp pb src
    arbitrary: b and b rule: whatwg_dispatch_whatwg_cont.induct)
  case (2 enc fatal stream dec out c src)
  then show ?case by (cases "utf8_tbl c") (simp_all add: whatwg_dispatch.simps(2))
next
  case (5 enc fatal stream dec out bc lo hi cp pb c src)
  then show ?case by (simp add: whatwg_cont.simps(3))
qed simp_all

lemma whatwg_ignore_bom:
  shows "ignore_bom (fst (whatwg_dispatch enc fatal stream dec out src)) = ignore_bom dec"
    and "ignore_bom (fst (whatwg_cont enc fatal stream dec out bc lo hi cp pb src)) = ignore_bom dec"
proof (induction enc fatal stream dec out src and enc fatal stream dec out bc lo hi cp pb src
    rule: whatwg_dispatch_whatwg_cont.induct)
  case (2 enc fatal stream dec out c src)
  then show ?case by (cases "utf8_tbl c") (simp_all add: whatwg_dispatch.simps(2))
next
  case (5 enc fatal stream dec out bc lo hi cp pb c src)
  then show ?case by (simp add: whatwg_cont.simps(3))
qed simp_all

text \<open>The loop by the kinds of code unit it meets, and induction along them.\<close>

lemma high_not_low: "U16_IS_HIGH cu \<Longrightarrow> \<not> U16_IS_LOW cu"
  by (auto simp: U16_IS_HIGH_def U16_IS_LOW_def word_le_nat_alt)

lemma utf16_plain:
  "\<not> U16_IS_HIGH (u16_read a b be) \<Longrightarrow> \<not> U16_IS_LOW (u16_read a b be) \<Longrightarrow>
   utf16_loop enc fatal be stream (a # b # src) out = utf16_loop enc fatal be stream src (out @ enc (unat (u16_read a b be)))"
  by (simp add: Let_def)

lemma utf16_low:
  "U16_IS_LOW (u16_read a b be) \<Longrightarrow>
   utf16_loop enc fatal be stream (a # b # src) out = (if fatal then ([], None) else utf16_loop enc fatal be stream src (out @ FFFD))"
  by (simp add: Let_def)

lemma utf16_pair:
  "U16_IS_HIGH (u16_read a b be) \<Longrightarrow> U16_IS_LOW (u16_read c d be) \<Longrightarrow>
   utf16_loop enc fatal be stream (a # b # c # d # src) out =
   utf16_loop enc fatal be stream src (out @ enc (unat (U16_PAIR (u16_read a b be) (u16_read c d be))))"
  by (simp add: Let_def high_not_low)

lemma utf16_lone:
  "U16_IS_HIGH (u16_read a b be) \<Longrightarrow> \<not> U16_IS_LOW (u16_read c d be) \<Longrightarrow>
   utf16_loop enc fatal be stream (a # b # c # d # src) out =
   (if fatal then ([], None) else utf16_loop enc fatal be stream (c # d # src) (out @ FFFD))"
  by (simp add: high_not_low Let_def del: utf16_loop.simps(3)) (simp add: Let_def high_not_low)

lemma utf16_pend:
  "U16_IS_HIGH (u16_read a b be) \<Longrightarrow> length src < 2 \<Longrightarrow>
   utf16_loop enc fatal be stream (a # b # src) out =
     (if stream then (a # b # src, Some out)
      else if fatal then ([], None)
      else ([], Some (out @ FFFD @ (if length src = 1 then FFFD else []))))"
  by (cases src rule: remdups_adj.cases) (auto simp: Let_def high_not_low)

lemmas utf16_steps = utf16_plain utf16_low utf16_pair utf16_lone utf16_pend

declare utf16_loop.simps(3) [simp del]

lemma utf16_induct [case_names Nil One Plain Low Pair Lone Pend]:
  assumes "P []" "\<And>x. P [x]"
    and "\<And>a b src. \<not> U16_IS_HIGH (u16_read a b be) \<Longrightarrow> \<not> U16_IS_LOW (u16_read a b be) \<Longrightarrow> P src \<Longrightarrow> P (a # b # src)"
    and "\<And>a b src. U16_IS_LOW (u16_read a b be) \<Longrightarrow> P src \<Longrightarrow> P (a # b # src)"
    and "\<And>a b c d src. U16_IS_HIGH (u16_read a b be) \<Longrightarrow> U16_IS_LOW (u16_read c d be) \<Longrightarrow> P src \<Longrightarrow> P (a # b # c # d # src)"
    and "\<And>a b c d src. U16_IS_HIGH (u16_read a b be) \<Longrightarrow> \<not> U16_IS_LOW (u16_read c d be) \<Longrightarrow> P (c # d # src) \<Longrightarrow> P (a # b # c # d # src)"
    and "\<And>a b src. U16_IS_HIGH (u16_read a b be) \<Longrightarrow> length src < 2 \<Longrightarrow> P (a # b # src)"
  shows "P src"
proof (induction src rule: length_induct)
  case (1 src)
  show ?case
  proof (cases src rule: remdups_adj.cases)
    case (3 a b r)
    consider "\<not> U16_IS_HIGH (u16_read a b be)" "\<not> U16_IS_LOW (u16_read a b be)" | "U16_IS_LOW (u16_read a b be)" | "U16_IS_HIGH (u16_read a b be)" by blast
    then show ?thesis
    proof cases
      case 3
      note h = this
      show ?thesis
      proof (cases r rule: remdups_adj.cases)
        case (3 c d r')
        then show ?thesis using h 1 assms(5) [OF h, of c d r'] assms(6) [OF h, of c d r'] \<open>src = a # b # r\<close> by (cases "U16_IS_LOW (u16_read c d be)") auto
      qed (use assms(7) [OF h, of r] \<open>src = a # b # r\<close> in auto)
    qed (use 1 3 assms(3,4) in auto)
  qed (use assms in auto)
qed

lemma utf16_out_append: "utf16_loop enc fatal be stream src (a @ b) = put_front a (utf16_loop enc fatal be stream src b)"
  by (induction src arbitrary: b rule: utf16_induct [where be = be]; cases fatal) (simp_all add: utf16_steps)

text \<open>Cutting a run of code units.\<close>

lemma utf16_append:
  "utf16_loop enc fatal be st (src @ t) out =
     (case utf16_loop enc fatal be True src out of
        (p, None) \<Rightarrow> ([], None) | (p, Some o1) \<Rightarrow> utf16_loop enc fatal be st (p @ t) o1)"
  by (induction src arbitrary: out rule: utf16_induct [where be = be]; cases fatal) (simp_all add: utf16_steps)

section \<open>Chunks\<close>

definition td_single :: "td_state \<Rightarrow> bool" where
  "td_single st \<longleftrightarrow> td_enc st = TD_ENC_WINDOWS_1252 \<or> td_enc st = TD_ENC_ISO_8859_2"

definition td_inv :: "td_state \<Rightarrow> bool" where
  "td_inv st \<longleftrightarrow> length (td_pending st) \<le> 3 \<and> (td_single st \<longrightarrow> td_pending st = [] \<and> \<not> td_bom_seen st)"

definition td_finish :: "bool \<Rightarrow> td_state \<times> bytes option \<Rightarrow> td_state \<times> bytes outcome" where
  "td_finish stream_mode res =
     (case res of
        (st, None) \<Rightarrow> (st, Inl (js_mkerr_type ''The encoded data was not valid.''))
      | (st, Some out) \<Rightarrow> (if td_enc st \<noteq> TD_ENC_UTF8 \<and> \<not> stream_mode then st\<lparr>td_bom_seen := False\<rparr> else st, Inr out))"

lemma td_decode_granted:
  assumes "\<And>n. heap_ok m n"
  shows "td_decode m enc st input stream =
    (if td_pending st @ input = [] then (if \<not> stream then st\<lparr>td_bom_seen := False\<rparr> else st, Inr [])
     else td_finish stream (td_dispatch enc (st\<lparr>td_pending := []\<rparr>) (td_pending st @ input) stream))"
  using assms by (auto simp: td_decode_def td_finish_def Let_def split: prod.splits option.splits)

definition td_dec :: "td_state \<Rightarrow> utf8_dec" where
  "td_dec st = \<lparr>ignore_bom = td_ignore_bom st, bom_seen = td_bom_seen st, pend_buf = [], pend_pos = 0\<rparr>"

definition td_put :: "td_state \<Rightarrow> bool \<Rightarrow> utf8_dec \<times> bytes option \<Rightarrow> td_state \<times> bytes option" where
  "td_put st stream res =
     (case res of (dec, r) \<Rightarrow>
        (st\<lparr>td_pending := take (pend_pos dec) (pend_buf dec), td_bom_seen := (if stream then bom_seen dec else False)\<rparr>, r))"

lemma td_dispatch_utf8:
  "td_enc st = TD_ENC_UTF8 \<Longrightarrow>
   td_dispatch enc st src stream = td_put st stream (whatwg_dispatch enc (td_fatal st) stream (td_dec st) [] src)"
  by (simp add: td_dispatch_def utf8_whatwg_decode_def td_put_def td_dec_def Let_def)

lemma td_dec_pending:
  assumes "whatwg_dispatch enc fatal stream (td_dec st) out src = (d, r)"
  shows "take (pend_pos d) (pend_buf d) = pend_buf d" "length (pend_buf d) \<le> 3" "ignore_bom d = td_ignore_bom st"
  using whatwg_pending(1) [OF assms] whatwg_ignore_bom(1) [of enc fatal stream "td_dec st" out src] assms
  by (simp_all add: td_dec_def)

lemma utf8_split:
  assumes "td_enc st = TD_ENC_UTF8" "td_dispatch enc st x True = (s1, r)"
  shows "r = None \<Longrightarrow> snd (td_dispatch enc st (x @ b) f) = None"
    and "r = Some o1 \<Longrightarrow> td_dispatch enc st (x @ b) f = put_front o1 (td_dispatch enc (s1\<lparr>td_pending := []\<rparr>) (td_pending s1 @ b) f)"
    and "length (td_pending s1) \<le> 3" "td_enc s1 = TD_ENC_UTF8"
proof -
  obtain d r' where d: "whatwg_dispatch enc (td_fatal st) True (td_dec st) [] x = (d, r')" by force
  note q = td_dec_pending [OF d]
  have s1: "s1 = st\<lparr>td_pending := pend_buf d, td_bom_seen := bom_seen d\<rparr>" "r' = r"
    using assms d q by (simp_all add: td_dispatch_utf8 td_put_def)
  have ap: "whatwg_dispatch enc (td_fatal st) f (td_dec st) [] (x @ b) = whatwg_resume enc (td_fatal st) f b (d, r)"
    using whatwg_append(1) [of True "td_dec st" enc "td_fatal st" f "[]" x b] d s1(2) by (simp add: settled_def td_dec_def)
  show "r = None \<Longrightarrow> snd (td_dispatch enc st (x @ b) f) = None" using ap by (simp add: td_dispatch_utf8 assms(1) td_put_def)
  show "length (td_pending s1) \<le> 3" "td_enc s1 = TD_ENC_UTF8" using q s1 assms(1) by simp_all
  assume r: "r = Some o1"
  have sd: "settle d = td_dec (s1\<lparr>td_pending := []\<rparr>)" using q(3) by (cases d) (simp add: settle_def td_dec_def s1)
  have "td_dispatch enc st (x @ b) f = td_put st f (whatwg_dispatch enc (td_fatal st) f (settle d) o1 (pend_buf d @ b))"
    using ap r by (simp add: td_dispatch_utf8 assms(1) whatwg_resume_def)
  also have "\<dots> = td_put st f (put_front o1 (whatwg_dispatch enc (td_fatal st) f (settle d) [] (pend_buf d @ b)))"
    using whatwg_out_append(1) [of o1 o1 "[]" enc "td_fatal st" f "settle d" "pend_buf d @ b"] by simp
  also have "\<dots> = put_front o1 (td_dispatch enc (s1\<lparr>td_pending := []\<rparr>) (td_pending s1 @ b) f)"
    unfolding sd by (cases "whatwg_dispatch enc (td_fatal st) f (td_dec (s1\<lparr>td_pending := []\<rparr>)) [] (pend_buf d @ b)")
      (simp add: td_dispatch_utf8 assms(1) s1 td_put_def put_front_def)
  finally show "td_dispatch enc st (x @ b) f = put_front o1 (td_dispatch enc (s1\<lparr>td_pending := []\<rparr>) (td_pending s1 @ b) f)" .
qed

lemma utf16_pending:
  "length (fst (utf16_loop enc fatal be stream src out)) \<le> 3"
  by (induction src arbitrary: out rule: utf16_induct [where be = be]; cases fatal) (simp_all add: utf16_steps)

lemma utf16_decode_pending:
  "length (td_pending (fst (utf16_decode enc st src stream))) \<le> 3" "td_enc (fst (utf16_decode enc st src stream)) = td_enc st"
  using utf16_pending [of enc "td_fatal st"] by (simp_all add: utf16_decode_def Let_def case_prod_unfold)

lemma utf16_decode_irrelevant: "utf16_decode enc (st\<lparr>td_pending := p\<rparr>) src stream = utf16_decode enc st src stream"
  by (simp add: utf16_decode_def Let_def case_prod_unfold)

lemma utf16_split:
  assumes "td_enc st = TD_ENC_UTF16LE \<or> td_enc st = TD_ENC_UTF16BE" "x \<noteq> []" "td_dispatch enc st x True = (s1, r)"
  shows "r = None \<Longrightarrow> snd (td_dispatch enc st (x @ b) f) = None"
    and "r = Some o1 \<Longrightarrow> td_dispatch enc st (x @ b) f = put_front o1 (td_dispatch enc (s1\<lparr>td_pending := []\<rparr>) (td_pending s1 @ b) f)"
    and "length (td_pending s1) \<le> 3" "td_enc s1 = td_enc st"
proof -
  define be where "be = (td_enc st = TD_ENC_UTF16BE)"
  define skip where "skip = (\<not> td_bom_seen st \<and> u16_read (x ! 0) (x ! 1) be = 0xFEFF \<and> \<not> td_ignore_bom st)"
  let ?L = "utf16_loop enc (td_fatal st) be"
  have D: "td_dispatch enc t y g = utf16_decode enc t y g" if "td_enc t = td_enc st" for t y g using assms(1) that by (auto simp: td_dispatch_def)
  show "length (td_pending s1) \<le> 3" "td_enc s1 = td_enc st"
    using assms(3) D [of st x True] utf16_decode_pending [of enc st x True] by simp_all
  have "(r = None \<longrightarrow> snd (td_dispatch enc st (x @ b) f) = None) \<and>
    (r = Some o1 \<longrightarrow> td_dispatch enc st (x @ b) f = put_front o1 (td_dispatch enc (s1\<lparr>td_pending := []\<rparr>) (td_pending s1 @ b) f))"
  proof (cases "\<not> td_bom_seen st \<and> length x < 2")
    case True
    then obtain c where c: "x = [c]" using assms(2) by (cases x rule: remdups_adj.cases) auto
    have "utf16_decode enc st [c] True = (st\<lparr>td_pending := [c]\<rparr>, Some [])" using True c by (simp add: utf16_decode_def Let_def)
    then have s1: "s1 = st\<lparr>td_pending := [c]\<rparr>" "r = Some []" using assms(3) D [of st x True] c by simp_all
    then show ?thesis using D [of st "x @ b" f] D [of "st\<lparr>td_pending := []\<rparr>" "x @ b" f] c by (simp add: utf16_decode_irrelevant)
  next
    case False
    obtain p q where L: "?L True (if skip then drop 2 x else x) [] = (p, q)" by force
    have s1: "s1 = st\<lparr>td_bom_seen := True, td_pending := p\<rparr>" "r = q"
      using assms(3) D [of st x True] False L by (simp_all add: utf16_decode_def Let_def be_def skip_def)
    have len: "\<not> td_bom_seen st \<Longrightarrow> 2 \<le> length x" using False by auto
    have skip': "skip = (\<not> td_bom_seen st \<and> u16_read ((x @ b) ! 0) ((x @ b) ! 1) be = 0xFEFF \<and> \<not> td_ignore_bom st)"
      using len by (cases "td_bom_seen st") (auto simp: skip_def nth_append)
    have "td_dispatch enc st (x @ b) f = (st\<lparr>td_bom_seen := True, td_pending := fst (?L f (if skip then drop 2 (x @ b) else x @ b) [])\<rparr>,
        snd (?L f (if skip then drop 2 (x @ b) else x @ b) []))"
    proof -
      have "\<not> (\<not> td_bom_seen st \<and> length (x @ b) < 2)" using False by auto
      then show ?thesis using D [of st "x @ b" f]
        by (simp only: utf16_decode_def Let_def be_def [symmetric] skip' [symmetric] if_False case_prod_unfold simp_thms)
    qed
    moreover have "(if skip then drop 2 (x @ b) else x @ b) = (if skip then drop 2 x else x) @ b"
      using len by (auto simp: skip_def)
    moreover have "?L f ((if skip then drop 2 x else x) @ b) [] = (case q of None \<Rightarrow> ([], None) | Some o2 \<Rightarrow> put_front o2 (?L f (p @ b) []))"
      using utf16_append [of enc "td_fatal st" be f "if skip then drop 2 x else x" b "[]"] L
        utf16_out_append [of enc "td_fatal st" be f "p @ b" "the q" "[]"]
      by (cases q) simp_all
    ultimately have w: "td_dispatch enc st (x @ b) f = (case q of None \<Rightarrow> (st\<lparr>td_bom_seen := True, td_pending := []\<rparr>, None)
        | Some o2 \<Rightarrow> (st\<lparr>td_bom_seen := True, td_pending := fst (?L f (p @ b) [])\<rparr>, map_option ((@) o2) (snd (?L f (p @ b) []))))"
      by (simp add: put_front_def split: option.splits)
    have "td_dispatch enc (s1\<lparr>td_pending := []\<rparr>) (p @ b) f = (st\<lparr>td_bom_seen := True, td_pending := fst (?L f (p @ b) [])\<rparr>, snd (?L f (p @ b) []))"
      using D [of "s1\<lparr>td_pending := []\<rparr>" "p @ b" f] s1 by (simp add: utf16_decode_def Let_def be_def case_prod_unfold)
    then show ?thesis using w s1 by (simp add: put_front_def)
  qed
  then show "r = None \<Longrightarrow> snd (td_dispatch enc st (x @ b) f) = None"
    and "r = Some o1 \<Longrightarrow> td_dispatch enc st (x @ b) f = put_front o1 (td_dispatch enc (s1\<lparr>td_pending := []\<rparr>) (td_pending s1 @ b) f)" by blast+
qed

lemma single_byte_map:
  "decode_single_byte enc e src out =
   out @ concat (map (\<lambda>b. enc (if e = TD_ENC_WINDOWS_1252 then decode_windows_1252_byte b else decode_iso_8859_2_byte b)) src)"
  by (induction src arbitrary: out) (simp_all add: Let_def)

lemma single_split:
  assumes "td_single st" "td_dispatch enc st x True = (s1, r)"
  shows "r \<noteq> None" "r = Some o1 \<Longrightarrow> td_dispatch enc st (x @ b) f = put_front o1 (td_dispatch enc (s1\<lparr>td_pending := []\<rparr>) (td_pending s1 @ b) f)"
    and "td_pending s1 = []" "\<not> td_bom_seen s1" "td_enc s1 = td_enc st"
  using assms by (auto simp: td_dispatch_def td_single_def single_byte_map)

lemma td_split:
  assumes "td_inv st" "x \<noteq> []" "td_dispatch enc st x True = (s1, r)"
  shows "r = None \<Longrightarrow> snd (td_dispatch enc st (x @ b) f) = None"
    and "r = Some o1 \<Longrightarrow> td_dispatch enc st (x @ b) f = put_front o1 (td_dispatch enc (s1\<lparr>td_pending := []\<rparr>) (td_pending s1 @ b) f)"
    and "td_inv s1" "td_enc s1 = td_enc st"
proof -
  consider (u8) "td_enc st = TD_ENC_UTF8" | (u16) "td_enc st = TD_ENC_UTF16LE \<or> td_enc st = TD_ENC_UTF16BE" | (s) "td_single st"
    by (cases "td_enc st") (auto simp: td_single_def)
  then have "(r = None \<longrightarrow> snd (td_dispatch enc st (x @ b) f) = None) \<and>
    (r = Some o1 \<longrightarrow> td_dispatch enc st (x @ b) f = put_front o1 (td_dispatch enc (s1\<lparr>td_pending := []\<rparr>) (td_pending s1 @ b) f)) \<and>
    td_inv s1 \<and> td_enc s1 = td_enc st"
  proof cases
    case u8
    show ?thesis using utf8_split [OF u8 assms(3)] u8 by (auto simp: td_inv_def td_single_def)
  next
    case u16
    show ?thesis using utf16_split [OF u16 assms(2,3)] u16 by (auto simp: td_inv_def td_single_def)
  next
    case s
    show ?thesis using single_split [OF s assms(3)] s by (auto simp: td_inv_def td_single_def)
  qed
  then show "r = None \<Longrightarrow> snd (td_dispatch enc st (x @ b) f) = None"
    and "r = Some o1 \<Longrightarrow> td_dispatch enc st (x @ b) f = put_front o1 (td_dispatch enc (s1\<lparr>td_pending := []\<rparr>) (td_pending s1 @ b) f)"
    and "td_inv s1" "td_enc s1 = td_enc st" by blast+
qed

lemma td_dispatch_inv: "td_inv st \<Longrightarrow> td_inv (fst (td_dispatch enc st src f)) \<and> td_enc (fst (td_dispatch enc st src f)) = td_enc st"
proof -
  assume i: "td_inv st"
  consider (u8) "td_enc st = TD_ENC_UTF8" | (u16) "td_enc st = TD_ENC_UTF16LE \<or> td_enc st = TD_ENC_UTF16BE" | (s) "td_single st"
    by (cases "td_enc st") (auto simp: td_single_def)
  then show ?thesis
  proof cases
    case u8
    obtain d r where d: "whatwg_dispatch enc (td_fatal st) f (td_dec st) [] src = (d, r)" by force
    show ?thesis using td_dec_pending [OF d] u8 d by (simp add: td_dispatch_utf8 td_put_def td_inv_def td_single_def)
  next
    case u16
    then have "td_dispatch enc st src f = utf16_decode enc st src f" by (auto simp: td_dispatch_def)
    then show ?thesis using utf16_decode_pending [of enc st src f] u16 by (auto simp: td_inv_def td_single_def)
  next
    case s
    then show ?thesis by (auto simp: td_dispatch_def td_single_def td_inv_def)
  qed
qed

lemma td_dispatch_empty:
  assumes "td_inv st" "td_pending st = []"
  shows "td_finish f (put_front out (td_dispatch enc st [] f)) = (if \<not> f then st\<lparr>td_bom_seen := False\<rparr> else st, Inr out)"
proof -
  consider (u8) "td_enc st = TD_ENC_UTF8" | (u16) "td_enc st = TD_ENC_UTF16LE \<or> td_enc st = TD_ENC_UTF16BE" | (s) "td_single st"
    by (cases "td_enc st") (auto simp: td_single_def)
  then show ?thesis
  proof cases
    case u8
    then show ?thesis using assms(2) by (cases st) (simp add: td_dispatch_utf8 td_put_def td_dec_def td_finish_def)
  next
    case u16
    then show ?thesis using assms(2) by (cases st) (auto simp: td_dispatch_def utf16_decode_def td_finish_def)
  next
    case s
    then show ?thesis using assms by (cases st) (auto simp: td_dispatch_def td_single_def td_finish_def td_inv_def)
  qed
qed

lemma td_inv_clear: "td_inv st \<Longrightarrow> td_inv (st\<lparr>td_pending := []\<rparr>)"
  by (simp add: td_inv_def td_single_def)

lemma td_finish_put_front:
  "td_finish f (put_front out r) = (fst (td_finish f r), map_sum id ((@) out) (snd (td_finish f r)))"
  by (cases r; cases "snd r") (simp_all add: td_finish_def)

lemma td_decode_chunked:
  assumes "\<And>n. heap_ok m n"
  shows "chunked_decoder td_inv (td_decode m enc)"
proof
  fix st a f
  assume i: "td_inv st"
  note g = td_decode_granted [OF assms]
  have b: "td_inv (st\<lparr>td_bom_seen := False\<rparr>)" if "td_inv st" for st using that by (auto simp: td_inv_def td_single_def)
  show "td_inv (fst (td_decode m enc st a f))"
    using td_dispatch_inv [OF td_inv_clear [OF i], of enc "td_pending st @ a" f] i b
    unfolding g by (cases "td_dispatch enc (st\<lparr>td_pending := []\<rparr>) (td_pending st @ a) f") (auto simp: td_finish_def split: option.splits)
next
  fix st a s1 out b f
  assume i: "td_inv st" and e: "td_decode m enc st a True = (s1, Inr out)"
  note g = td_decode_granted [OF assms]
  show "td_decode m enc st (a @ b) f = (fst (td_decode m enc s1 b f), map_sum id ((@) out) (snd (td_decode m enc s1 b f)))"
  proof (cases "td_pending st @ a = []")
    case True
    then have "s1 = st" "out = []" "a = []" using e by (simp_all add: g)
    then show ?thesis by (cases "td_decode m enc st b f"; cases "snd (td_decode m enc st b f)") auto
  next
    case False
    let ?s = "st\<lparr>td_pending := []\<rparr>" and ?x = "td_pending st @ a"
    obtain s' r where d: "td_dispatch enc ?s ?x True = (s', r)" by force
    have r: "s' = s1" "r = Some out" using e False d by (auto simp: g td_finish_def split: option.splits)
    note sp = td_split [OF td_inv_clear [OF i] False d]
    have "td_decode m enc st (a @ b) f = td_finish f (put_front out (td_dispatch enc (s1\<lparr>td_pending := []\<rparr>) (td_pending s1 @ b) f))"
      using False sp(2) [OF r(2), of b f] r(1) unfolding g by auto
    moreover have "td_finish f (put_front out (td_dispatch enc (s1\<lparr>td_pending := []\<rparr>) [] f)) = (if \<not> f then s1\<lparr>td_bom_seen := False\<rparr> else s1, Inr out)"
      if "td_pending s1 = []"
      using td_dispatch_empty [OF td_inv_clear [OF sp(3)], of f out enc] that r(1) by (cases s1) simp
    ultimately show ?thesis by (auto simp: g td_finish_put_front)
  qed
next
  fix st a s1 e b f
  assume i: "td_inv st" and e: "td_decode m enc st a True = (s1, Inl e)"
  note g = td_decode_granted [OF assms]
  have False: "td_pending st @ a \<noteq> []" using e by (auto simp: g)
  obtain s' r where d: "td_dispatch enc (st\<lparr>td_pending := []\<rparr>) (td_pending st @ a) True = (s', r)" by force
  have r: "r = None" "e = js_mkerr_type ''The encoded data was not valid.''" using e False d by (auto simp: g td_finish_def split: option.splits)
  have "snd (td_dispatch enc (st\<lparr>td_pending := []\<rparr>) ((td_pending st @ a) @ b) f) = None"
    by (rule td_split(1) [OF td_inv_clear [OF i] False d r(1)])
  then show "snd (td_decode m enc st (a @ b) f) = Inl e" using False r(2)
    by (cases "td_dispatch enc (st\<lparr>td_pending := []\<rparr>) (td_pending st @ a @ b) f") (auto simp: g td_finish_def)
qed

interpretation td: chunked_decoder td_inv "td_decode mem_granted enc" for enc
  by (rule td_decode_chunked) simp

section \<open>The output\<close>

lemma unat_u16_read: "unat (u16_read p0 p1 be) = (if be then unat p0 * 256 + unat p1 else unat p1 * 256 + unat p0)"
proof -
  have b: "unat (ucast (b :: byte) :: u16) = unat b" for b
  proof -
    have "unat b < 2 ^ 16" using unat_lt_B8 [of b] by (simp del: unat_lt_B8)
    then show ?thesis by (simp add: unsigned_ucast_eq take_bit_nat_eq_self)
  qed
  have "unat (push_bit 8 (ucast x) OR ucast y :: u16) = unat x * 2 ^ 8 + unat y" for x y :: byte
  proof -
    have "unat x * 2 ^ 8 < 2 ^ 16" using unat_lt_B8 [of x] by (simp del: unat_lt_B8)
    then show ?thesis using unat_shl_or [of "ucast x :: u16" 8 "ucast y"] by (simp add: b)
  qed
  then show ?thesis by (simp add: u16_read_def)
qed

lemma u16_is_nat:
  "U16_IS_HIGH cu \<longleftrightarrow> 0xD800 \<le> unat cu \<and> unat cu < 0xDC00" "U16_IS_LOW cu \<longleftrightarrow> 0xDC00 \<le> unat cu \<and> unat cu < 0xE000"
  by (auto simp: U16_IS_HIGH_def U16_IS_LOW_def word_le_nat_alt)

lemma unat_u16_to_u32 [simp]: "unat (ucast (x :: u16) :: u32) = unat x"
proof -
  have "unat x < 2 ^ 16" using unsigned_less [of x] by simp
  then have "unat x < 2 ^ 32" by simp
  then show ?thesis by (simp add: unsigned_ucast_eq take_bit_nat_eq_self)
qed

lemma unat_U16_PAIR:
  assumes "U16_IS_HIGH hi" "U16_IS_LOW lo"
  shows "unat (U16_PAIR hi lo) = 0x10000 + (unat hi - 0xD800) * 1024 + (unat lo - 0xDC00)"
proof -
  have h: "unat (hi - 0xD800) = unat hi - 0xD800" "unat hi - 0xD800 < 1024"
    and l: "unat (lo - 0xDC00) = unat lo - 0xDC00" "unat lo - 0xDC00 < 1024"
    using assms unfolding u16_is_nat by (auto simp: unat_sub_fits)
  have p: "unat (push_bit 10 (ucast (hi - 0xD800)) :: u32) = (unat hi - 0xD800) * 1024"
    using h by (simp add: unat_shl)
  have "unat (0x10000 + push_bit 10 (ucast (hi - 0xD800)) :: u32) = 0x10000 + (unat hi - 0xD800) * 1024"
    using h(2) p by (subst unat_add_fits) simp_all
  then show ?thesis unfolding U16_PAIR_def using l h(2) by (subst unat_add_fits) simp_all
qed

lemma U16_PAIR_scalar: "U16_IS_HIGH hi \<Longrightarrow> U16_IS_LOW lo \<Longrightarrow> scalar (unat (U16_PAIR hi lo))"
  unfolding unat_U16_PAIR by (auto simp: u16_is_nat scalar_def)

lemma u16_plain_scalar: "\<not> U16_IS_HIGH cu \<Longrightarrow> \<not> U16_IS_LOW cu \<Longrightarrow> scalar (unat (cu :: u16)) \<and> unat cu < 0x10000"
  using unsigned_less [of cu] by (auto simp: u16_is_nat scalar_def)

lemma utf8_bytes_length: "length (utf8_bytes cp) \<le> 4" "cp < 0x10000 \<Longrightarrow> length (utf8_bytes cp) \<le> 3"
  by (simp_all add: utf8_bytes_def)

lemma encoder_output:
  assumes "utf8_encoder enc" "scalar cp" "utf8_validate_bytes out"
  shows "utf8_validate_bytes (out @ enc cp)" "length (enc cp) \<le> 4" "cp < 0x10000 \<Longrightarrow> length (enc cp) \<le> 3"
  using encoder_scalar [OF assms(1,2)] validate_append [OF assms(3) validate_utf8_bytes [OF assms(2)]] utf8_bytes_length [of cp] by simp_all

lemma utf16_output:
  assumes "utf8_encoder enc"
  shows "utf16_loop enc fatal be stream src out = (p, Some out') \<Longrightarrow> utf8_validate_bytes out \<Longrightarrow>
    utf8_validate_bytes out' \<and> length out' \<le> length out + 3 * length src"
proof (induction src arbitrary: out rule: utf16_induct [where be = be])
  case Nil
  then show ?case by simp
next
  case (One x)
  then show ?case using validate_append_FFFD [OF One(2)] by (auto split: if_splits)
next
  case (Plain a b src)
  have s: "scalar (unat (u16_read a b be))" "unat (u16_read a b be) < 0x10000" using u16_plain_scalar [OF Plain(1,2)] by simp_all
  note e = encoder_output [OF assms s(1) Plain.prems(2)]
  show ?case using Plain.IH [OF _ e(1)] Plain.prems(1) Plain(1,2) e(3) [OF s(2)] by (simp add: utf16_plain)
next
  case (Low a b src)
  then show ?case using Low.IH [OF _ validate_append_FFFD [OF Low.prems(2)]] by (auto simp: utf16_low split: if_splits)
next
  case (Pair a b c d src)
  note e = encoder_output [OF assms U16_PAIR_scalar [OF Pair(1,2)] Pair.prems(2)]
  show ?case using Pair.IH [OF _ e(1)] Pair.prems(1) Pair(1,2) e(2) by (simp add: utf16_pair)
next
  case (Lone a b c d src)
  then show ?case using Lone.IH [OF _ validate_append_FFFD [OF Lone.prems(2)]] by (auto simp: utf16_lone split: if_splits)
next
  case (Pend a b src)
  then show ?case using validate_append_FFFD [OF Pend.prems(2)] validate_append_FFFD [OF validate_append_FFFD [OF Pend.prems(2)]]
    by (auto simp: utf16_pend split: if_splits)
qed

lemma single_byte_scalar:
  "scalar (decode_windows_1252_byte b)" "decode_windows_1252_byte b < 0x10000"
  "scalar (decode_iso_8859_2_byte b)" "decode_iso_8859_2_byte b < 0x10000"
proof -
  have w: "list_all (\<lambda>c. scalar c \<and> c < 0x10000) windows_1252_specials" "length windows_1252_specials = 32" by (simp_all add: windows_1252_specials_def scalar_def)
  have i: "list_all (\<lambda>c. scalar c \<and> c < 0x10000) iso_8859_2_upper" "length iso_8859_2_upper = 96" by (simp_all add: iso_8859_2_upper_def scalar_def)
  have n: "unat b < 256" by simp
  have s: "scalar (unat b)" "unat b < 0x10000" using n by (simp_all add: scalar_def del: unat_lt_B8)
  have "\<not> b < 0x80 \<Longrightarrow> b < 0xA0 \<Longrightarrow> unat b - 0x80 < 32" by (simp add: word_less_nat_alt)
  then have "\<not> b < 0x80 \<Longrightarrow> b < 0xA0 \<Longrightarrow> scalar (windows_1252_specials ! (unat b - 0x80)) \<and> windows_1252_specials ! (unat b - 0x80) < 0x10000"
    using w unfolding list_all_length by simp
  then show "scalar (decode_windows_1252_byte b)" "decode_windows_1252_byte b < 0x10000"
    using s by (auto simp: decode_windows_1252_byte_def)
  have "\<not> b < 0xA0 \<Longrightarrow> unat b - 0xA0 < 96" using n by (simp add: word_less_nat_alt del: unat_lt_B8)
  then have "\<not> b < 0xA0 \<Longrightarrow> scalar (iso_8859_2_upper ! (unat b - 0xA0)) \<and> iso_8859_2_upper ! (unat b - 0xA0) < 0x10000"
    using i unfolding list_all_length by simp
  then show "scalar (decode_iso_8859_2_byte b)" "decode_iso_8859_2_byte b < 0x10000"
    using s by (auto simp: decode_iso_8859_2_byte_def)
qed

lemma single_byte_output:
  assumes "utf8_encoder enc"
  shows "utf8_validate_bytes out \<Longrightarrow> utf8_validate_bytes (decode_single_byte enc e src out) \<and>
    length (decode_single_byte enc e src out) \<le> length out + 3 * length src"
proof (induction src arbitrary: out)
  case (Cons b src)
  define cp where "cp = (if e = TD_ENC_WINDOWS_1252 then decode_windows_1252_byte b else decode_iso_8859_2_byte b)"
  have "scalar cp" "cp < 0x10000" using single_byte_scalar [of b] by (simp_all add: cp_def)
  then show ?case using Cons.IH [of "out @ enc cp"] encoder_output [OF assms _ Cons.prems, of cp] by (simp add: cp_def [symmetric])
qed simp

text \<open>
  Every successful call gives valid UTF-8 that fits the buffer of \<open>3 * total + 1\<close> bytes, whatever
  the bytes are.
\<close>

lemma utf16_decode_run:
  "\<exists>y. length y \<le> length src \<and>
    snd (utf16_decode enc st src stream) = snd (utf16_loop enc (td_fatal st) (td_enc st = TD_ENC_UTF16BE) stream y [])"
proof -
  obtain y where "length y \<le> length src"
    "snd (utf16_decode enc st src stream) = snd (utf16_loop enc (td_fatal st) (td_enc st = TD_ENC_UTF16BE) stream y [])"
  proof (cases "\<not> td_bom_seen st \<and> length src < 2")
    case True
    then show thesis by (intro that [of src]) (simp_all add: utf16_decode_def Let_def case_prod_unfold)
  next
    case False
    then show thesis by (intro that [of "if \<not> td_bom_seen st \<and> u16_read (src ! 0) (src ! 1) (td_enc st = TD_ENC_UTF16BE) = 0xFEFF \<and> \<not> td_ignore_bom st
        then drop 2 src else src"]) (simp, simp only: utf16_decode_def Let_def case_prod_unfold if_False snd_conv)
  qed
  then show ?thesis by blast
qed

lemma td_dispatch_output:
  assumes "utf8_encoder enc" "td_dispatch enc st src stream = (s1, Some out)"
  shows "utf8_validate_bytes out \<and> length out \<le> 3 * length src"
proof -
  have v: "utf8_validate_bytes []" by (simp add: utf8_validate_bytes.simps)
  consider (u8) "td_enc st = TD_ENC_UTF8" | (u16) "td_enc st = TD_ENC_UTF16LE \<or> td_enc st = TD_ENC_UTF16BE" | (s) "td_single st"
    by (cases "td_enc st") (auto simp: td_single_def)
  then show ?thesis
  proof cases
    case u8
    then show ?thesis using assms(2) whatwg_output(1) [OF assms(1) _ v, of "td_fatal st" stream "td_dec st" src]
      by (auto simp: td_dispatch_utf8 td_put_def split: prod.splits)
  next
    case u16
    then have D: "utf16_decode enc st src stream = (s1, Some out)" using assms(2) by (auto simp: td_dispatch_def)
    obtain y where L: "snd (utf16_loop enc (td_fatal st) (td_enc st = TD_ENC_UTF16BE) stream y []) = Some out" "length y \<le> length src"
      using utf16_decode_run [of src enc st stream] D by auto
    obtain p where "utf16_loop enc (td_fatal st) (td_enc st = TD_ENC_UTF16BE) stream y [] = (p, Some out)"
      using L(1) by (cases "utf16_loop enc (td_fatal st) (td_enc st = TD_ENC_UTF16BE) stream y []") simp
    from utf16_output [OF assms(1) this v] L(2) show ?thesis by simp
  next
    case s
    then show ?thesis using assms(2) single_byte_output [OF assms(1) v, of "td_enc st" src] by (auto simp: td_dispatch_def td_single_def)
  qed
qed

lemma td_decode_output:
  assumes "utf8_encoder enc" "td_decode m enc st input stream = (s1, Inr out)"
  shows "utf8_validate_bytes out \<and> length out \<le> 3 * (length (td_pending st) + length input)"
proof (cases "td_pending st @ input = []")
  case True
  then show ?thesis using assms(2) by (simp add: td_decode_def utf8_validate_bytes.simps)
next
  case False
  obtain s' r where d: "td_dispatch enc (st\<lparr>td_pending := []\<rparr>) (td_pending st @ input) stream = (s', r)" by force
  then have "r = Some out" using assms(2) False by (auto simp: td_decode_def Let_def split: if_splits option.splits)
  then show ?thesis using td_dispatch_output [OF assms(1), of "st\<lparr>td_pending := []\<rparr>" "td_pending st @ input" stream] d by simp
qed

section \<open>UTF-16 text is decoded to the same text\<close>

definition u16_bytes :: "bool \<Rightarrow> nat \<Rightarrow> bytes" where
  "u16_bytes be n = (if be then [byte_of (n div 256), byte_of (n mod 256)] else [byte_of (n mod 256), byte_of (n div 256)])"

definition utf16_units :: "nat \<Rightarrow> nat list" where
  "utf16_units cp = (if cp < 0x10000 then [cp] else [0xD800 + (cp - 0x10000) div 1024, 0xDC00 + (cp - 0x10000) mod 1024])"

definition utf16_bytes :: "bool \<Rightarrow> nat \<Rightarrow> bytes" where
  "utf16_bytes be cp = concat (map (u16_bytes be) (utf16_units cp))"

lemma u16_read_bytes:
  assumes "n < 0x10000"
  obtains a b where "u16_bytes be n = [a, b]" "unat (u16_read a b be) = n"
proof -
  have "n div 256 < 256" "n mod 256 < 256" using assms by (auto intro: less_mult_imp_div_less)
  then show thesis using that by (cases be) (simp_all add: u16_bytes_def unat_u16_read)
qed

lemma utf16_char:
  assumes "utf8_encoder enc" "scalar cp"
  shows "utf16_loop enc fatal be stream (utf16_bytes be cp @ src) out = utf16_loop enc fatal be stream src (out @ utf8_bytes cp)"
proof (cases "cp < 0x10000")
  case True
  obtain a b where ab: "u16_bytes be cp = [a, b]" "unat (u16_read a b be) = cp" using u16_read_bytes [OF True] by blast
  have "\<not> U16_IS_HIGH (u16_read a b be)" "\<not> U16_IS_LOW (u16_read a b be)" using assms(2) ab(2) by (auto simp: u16_is_nat scalar_def)
  then show ?thesis using True ab encoder_scalar [OF assms] by (simp add: utf16_bytes_def utf16_units_def utf16_plain)
next
  case False
  define d where "d = cp - 0x10000"
  have d: "cp = 0x10000 + d" "d < 0x100000" using False assms(2) by (auto simp: d_def scalar_def)
  have h: "d div 1024 < 1024" using d(2) by (auto intro: less_mult_imp_div_less)
  have hl: "0xD800 + d div 1024 < 0x10000" "0xDC00 + d mod 1024 < 0x10000" using h mod_less_divisor [of 1024 d] by linarith+
  obtain a b where ab: "u16_bytes be (0xD800 + d div 1024) = [a, b]" "unat (u16_read a b be) = 0xD800 + d div 1024" using u16_read_bytes [OF hl(1)] by blast
  obtain x y where xy: "u16_bytes be (0xDC00 + d mod 1024) = [x, y]" "unat (u16_read x y be) = 0xDC00 + d mod 1024" using u16_read_bytes [OF hl(2)] by blast
  have H: "U16_IS_HIGH (u16_read a b be)" "U16_IS_LOW (u16_read x y be)" using h mod_less_divisor [of 1024 d] ab(2) xy(2) by (simp_all add: u16_is_nat)
  have "unat (U16_PAIR (u16_read a b be) (u16_read x y be)) = cp" unfolding unat_U16_PAIR [OF H] ab(2) xy(2) using d(1) by simp
  then show ?thesis using False ab(1) xy(1) H encoder_scalar [OF assms] by (simp add: utf16_bytes_def utf16_units_def utf16_pair d_def [symmetric])
qed

lemma utf16_text:
  assumes "utf8_encoder enc" "\<forall>cp \<in> set cps. scalar cp"
  shows "utf16_loop enc fatal be stream (concat (map (utf16_bytes be) cps)) out = ([], Some (out @ concat (map utf8_bytes cps)))"
  using assms(2) by (induction cps arbitrary: out) (simp_all add: utf16_char [OF assms(1)])

section \<open>Labels\<close>

text \<open>
  The table resolves each of its labels except the two whose written length is not their length.
\<close>

lemma labels_resolve:
  "list_all (\<lambda>(label, len, e). label \<in> {''x-unicode20utf8'', ''iso-10646-ucs-2''} \<or> resolve_encoding (ascii label) = Some e) encoding_map"
  by code_simp

lemma labels_missed:
  "resolve_encoding (ascii ''x-unicode20utf8'') = None" "resolve_encoding (ascii ''iso-10646-ucs-2'') = None"
  by code_simp+

text \<open>
  After a \<open>fatal\<close> failure a UTF-16 decoder keeps \<open>bom_seen\<close>, so a byte order mark at the start of the
  next input is not removed.
\<close>

abbreviation td_utf16 :: "td_state \<Rightarrow> bool" where
  "td_utf16 st \<equiv> td_enc st = TD_ENC_UTF16LE \<or> td_enc st = TD_ENC_UTF16BE"

lemma utf16_loop_fails: "utf16_loop enc fatal be stream src out = (p, None) \<Longrightarrow> p = []"
proof (induction enc fatal be stream src out rule: utf16_loop.induct)
  case (3 enc fatal be stream a b src out)
  show ?case
  proof (cases "\<exists>c d src'. src = c # d # src'")
    case True
    then obtain c d src' where "src = c # d # src'" by blast
    then show ?thesis using 3
      by (simp add: utf16_loop.simps(3) [of enc fatal be stream a b "c # d # src'"] Let_def split: if_splits)
  next
    case False
    then have "src = [] \<or> (\<exists>c. src = [c])" by (metis neq_Nil_conv)
    then show ?thesis using 3 by (auto simp: utf16_loop.simps(3) [of enc fatal be stream a b src] Let_def split: if_splits)
  qed
qed (auto split: if_splits)

lemma utf16_failure_state:
  assumes "td_utf16 st" "td_decode m enc st input stream = (st1, Inl (js_mkerr_type ''The encoded data was not valid.''))"
    and "td_bom_seen st \<or> 2 \<le> length (td_pending st @ input)"
  shows "st1 = st\<lparr>td_pending := [], td_bom_seen := True\<rparr>"
proof -
  define src where "src = td_pending st @ input"
  obtain st2 where d: "utf16_decode enc (st\<lparr>td_pending := []\<rparr>) src stream = (st2, None)" "st1 = st2"
    using assms(1,2) by (auto simp: td_decode_def td_dispatch_def Let_def src_def split: if_splits option.splits prod.splits)
  define skip where "skip = (\<not> td_bom_seen st \<and> u16_read (src ! 0) (src ! 1) (td_enc st = TD_ENC_UTF16BE) = 0xFEFF \<and> \<not> td_ignore_bom st)"
  obtain p r where l: "utf16_loop enc (td_fatal st) (td_enc st = TD_ENC_UTF16BE) stream (if skip then drop 2 src else src) [] = (p, r)" by fastforce
  have "utf16_decode enc (st\<lparr>td_pending := []\<rparr>) src stream = (st\<lparr>td_pending := p, td_bom_seen := True\<rparr>, r)"
  proof (cases "td_bom_seen st")
    case True
    then show ?thesis using l by (simp add: utf16_decode_def skip_def)
  next
    case False
    then have "\<not> length src < 2" using assms(3) by (simp add: src_def)
    then show ?thesis using l False by (simp add: utf16_decode_def skip_def)
  qed
  then have "st2 = st\<lparr>td_pending := p, td_bom_seen := True\<rparr>" "r = None" using d(1) by simp_all
  then show ?thesis using d(2) utf16_loop_fails [of enc _ _ stream _ "[]" p] l by simp
qed

lemma utf16_marked_text:
  assumes "utf8_encoder enc" "td_utf16 st" "td_pending st = []" "\<not> td_ignore_bom st" "\<And>n. heap_ok m n" "\<forall>cp \<in> set cps. scalar cp"
  shows "snd (td_decode m enc st (concat (map (utf16_bytes (td_enc st = TD_ENC_UTF16BE)) (0xFEFF # cps))) False) =
    Inr (concat (map utf8_bytes (if td_bom_seen st then 0xFEFF # cps else cps)))"
proof -
  let ?be = "td_enc st = TD_ENC_UTF16BE"
  define t where "t = concat (map (utf16_bytes ?be) cps)"
  obtain a b where ab: "u16_bytes ?be 0xFEFF = [a, b]" "unat (u16_read a b ?be) = 0xFEFF" by (rule u16_read_bytes [of "0xFEFF" ?be]) simp_all
  have src: "concat (map (utf16_bytes ?be) (0xFEFF # cps)) = a # b # t" by (simp add: utf16_bytes_def utf16_units_def ab(1) t_def)
  have bom: "u16_read a b ?be = 0xFEFF" using ab(2) by (simp add: word_unat_eq_iff)
  have l: "utf16_loop enc (td_fatal st) ?be False (concat (map (utf16_bytes ?be) qs)) [] = ([], Some (concat (map utf8_bytes qs)))"
    if "\<forall>cp \<in> set qs. scalar cp" for qs using utf16_text [OF assms(1) that, of "td_fatal st" ?be False "[]"] by simp
  have m: "\<forall>cp \<in> set (0xFEFF # cps). scalar cp" using assms(6) by (simp add: scalar_def)
  have "snd (utf16_decode enc (st\<lparr>td_pending := []\<rparr>) (a # b # t) False) = Some (concat (map utf8_bytes (if td_bom_seen st then 0xFEFF # cps else cps)))"
    using l [OF m] l [OF assms(6)] assms(4) unfolding src t_def [symmetric]
    by (simp add: utf16_decode_def Let_def bom)
  then show ?thesis unfolding src using assms(2,3,5)
    by (auto simp: td_decode_def td_dispatch_def Let_def split: prod.splits option.splits)
qed

lemma utf8_bytes_encoder: "utf8_encoder utf8_bytes"
  by (simp add: utf8_encoder_def)

end
