(* ===== verification/String_Decoder.thy ===== *)
theory String_Decoder
  imports Textcodec
begin

text \<open>
  \<open>StringDecoder\<close> of \<open>src/src/modules/string_decoder.c\<close> and the allocation wrapper of
  \<open>src/src/base64.c\<close>. \<open>base64_encode\<close> of libbase64 is a parameter; \<open>base64_encoder\<close> states the
  property of base64 the decoder relies on, that groups of three bytes are encoded on their own.
\<close>

unbundle bit_operations_syntax

datatype sd_encoding = SD_ENC_UTF8 | SD_ENC_UTF16LE | SD_ENC_UTF16BE | SD_ENC_LATIN1 | SD_ENC_HEX | SD_ENC_BASE64

record sd_state =
  sd_enc :: sd_encoding
  sd_td :: "td_state option"
  sd_pending :: bytes

definition sd_encoding_map :: "(string \<times> nat \<times> sd_encoding) list" where
  "sd_encoding_map =
    [(''utf8'',      4, SD_ENC_UTF8),
     (''utf-8'',     5, SD_ENC_UTF8),
     (''utf16le'',   7, SD_ENC_UTF16LE),
     (''utf-16le'',  8, SD_ENC_UTF16LE),
     (''ucs2'',      4, SD_ENC_UTF16LE),
     (''ucs-2'',     5, SD_ENC_UTF16LE),
     (''latin1'',    6, SD_ENC_LATIN1),
     (''binary'',    6, SD_ENC_LATIN1),
     (''ascii'',     5, SD_ENC_LATIN1),
     (''hex'',       3, SD_ENC_HEX),
     (''base64'',    6, SD_ENC_BASE64),
     (''base64url'', 9, SD_ENC_BASE64)]"

fun sd_find :: "(string \<times> nat \<times> sd_encoding) list \<Rightarrow> bytes \<Rightarrow> sd_encoding" where
  "sd_find [] s = SD_ENC_UTF8"
| "sd_find ((label, llen, e) # rest) s =
     (if length s = llen \<and> strncasecmp_eq s (ascii label) (length s) then e else sd_find rest s)"

definition sd_parse_encoding :: "bytes \<Rightarrow> sd_encoding" where
  "sd_parse_encoding s = sd_find sd_encoding_map s"

definition sd_encoding_name :: "sd_encoding \<Rightarrow> string" where
  "sd_encoding_name e =
     (case e of SD_ENC_UTF16LE \<Rightarrow> ''utf-16le'' | SD_ENC_LATIN1 \<Rightarrow> ''latin1'' | SD_ENC_HEX \<Rightarrow> ''hex''
      | SD_ENC_BASE64 \<Rightarrow> ''base64'' | _ \<Rightarrow> ''utf-8'')"

definition sd_latin1_to_str :: "mem \<Rightarrow> bytes \<Rightarrow> bytes outcome" where
  "sd_latin1_to_str m src =
     (case latin1_to_utf8 m src of None \<Rightarrow> Inl (js_mkerr ''out of memory'') | Some out \<Rightarrow> Inr out)"

definition hex_table :: bytes where
  "hex_table = ascii ''0123456789abcdef''"

fun hex_loop :: "bytes \<Rightarrow> bytes" where
  "hex_loop [] = []"
| "hex_loop (b # src) = hex_table ! unat (drop_bit 4 b AND 0xF) # hex_table ! unat (b AND 0xF) # hex_loop src"

definition sd_hex_decode :: "mem \<Rightarrow> bytes \<Rightarrow> bytes outcome" where
  "sd_hex_decode m src =
     (if length src = 0 then Inr []
      else if \<not> heap_ok m (length src * 2 + 1) then Inl (js_mkerr ''out of memory'')
      else Inr (hex_loop src))"

text \<open>\<open>ant_base64_encode\<close>: the output of the library in a buffer of \<open>4 * ((len + 2) / 3) + 1\<close> bytes.\<close>

definition ant_base64_encode :: "mem \<Rightarrow> (bytes \<Rightarrow> bytes) \<Rightarrow> bytes \<Rightarrow> bytes option" where
  "ant_base64_encode m base64_encode data =
     (let encoded_len = 4 * ((length data + 2) div 3)
      in if \<not> heap_ok m (encoded_len + 1) then None else Some (base64_encode data))"

definition sd_base64_write :: "mem \<Rightarrow> (bytes \<Rightarrow> bytes) \<Rightarrow> sd_state \<Rightarrow> bytes \<Rightarrow> bool \<Rightarrow> sd_state \<times> bytes outcome" where
  "sd_base64_write m b64 st src flush =
     (let work = sd_pending st @ src; total = length work
      in if total = 0 then (st, Inr [])
         else if \<not> heap_ok m total then (st, Inl (js_mkerr ''out of memory''))
         else
           let encode_len = (if flush then total else total div 3 * 3);
               pending = drop encode_len work
           in if encode_len = 0 then (st\<lparr>sd_pending := pending\<rparr>, Inr [])
              else case ant_base64_encode m b64 (take encode_len work) of
                     None \<Rightarrow> (st, Inl (js_mkerr ''out of memory''))
                   | Some out \<Rightarrow> (st\<lparr>sd_pending := pending\<rparr>, Inr out))"

definition sd_do_write :: "mem \<Rightarrow> (nat \<Rightarrow> bytes) \<Rightarrow> (bytes \<Rightarrow> bytes) \<Rightarrow> sd_state \<Rightarrow> bytes \<Rightarrow> bool \<Rightarrow> sd_state \<times> bytes outcome" where
  "sd_do_write m enc b64 st src flush =
     (case sd_enc st of
        SD_ENC_LATIN1 \<Rightarrow> (st, if length src = 0 then Inr [] else sd_latin1_to_str m src)
      | SD_ENC_HEX \<Rightarrow> (st, if length src = 0 then Inr [] else sd_hex_decode m src)
      | SD_ENC_BASE64 \<Rightarrow> sd_base64_write m b64 st src flush
      | _ \<Rightarrow>
          (case sd_td st of
             None \<Rightarrow> (st, Inl undefined_behaviour)
           | Some td \<Rightarrow> (case td_decode m enc td src (\<not> flush) of (td, r) \<Rightarrow> (st\<lparr>sd_td := Some td\<rparr>, r))))"

text \<open>Arguments of \<open>write\<close> and \<open>end\<close>: a string, a buffer, or a value without bytes.\<close>

datatype sd_chunk = SdString bytes | SdBytes bytes | SdOther

definition string_decoder_decode_bytes ::
  "mem \<Rightarrow> (nat \<Rightarrow> bytes) \<Rightarrow> (bytes \<Rightarrow> bytes) \<Rightarrow> sd_state option \<Rightarrow> bytes \<Rightarrow> bool \<Rightarrow> sd_state option \<times> bytes outcome" where
  "string_decoder_decode_bytes m enc b64 st src flush =
     (case st of
        None \<Rightarrow> (None, Inl (js_mkerr_type ''Invalid StringDecoder''))
      | Some st \<Rightarrow> (case sd_do_write m enc b64 st src flush of (st, r) \<Rightarrow> (Some st, r)))"

definition string_decoder_decode_value ::
  "mem \<Rightarrow> (nat \<Rightarrow> bytes) \<Rightarrow> (bytes \<Rightarrow> bytes) \<Rightarrow> sd_state option \<Rightarrow> sd_chunk \<Rightarrow> bool \<Rightarrow> sd_state option \<times> bytes outcome" where
  "string_decoder_decode_value m enc b64 st chunk flush =
     (case st of
        None \<Rightarrow> (None, Inl (js_mkerr_type ''Invalid StringDecoder''))
      | Some sd \<Rightarrow>
          (case chunk of
             SdString s \<Rightarrow> (Some sd, Inr s)
           | SdBytes src \<Rightarrow> (case sd_do_write m enc b64 sd src flush of (sd, r) \<Rightarrow> (Some sd, r))
           | SdOther \<Rightarrow> (case sd_do_write m enc b64 sd [] flush of (sd, r) \<Rightarrow> (Some sd, r))))"

definition js_sd_get_encoding :: "sd_state option \<Rightarrow> string" where
  "js_sd_get_encoding st = (case st of None \<Rightarrow> ''utf-8'' | Some st \<Rightarrow> sd_encoding_name (sd_enc st))"

definition js_sd_write ::
  "mem \<Rightarrow> (nat \<Rightarrow> bytes) \<Rightarrow> (bytes \<Rightarrow> bytes) \<Rightarrow> sd_state option \<Rightarrow> sd_chunk list \<Rightarrow> sd_state option \<times> bytes outcome" where
  "js_sd_write m enc b64 st args =
     (case st of
        None \<Rightarrow> (None, Inl (js_mkerr_type ''Invalid StringDecoder''))
      | Some sd \<Rightarrow>
          (case args of
             [] \<Rightarrow> (Some sd, Inr [])
           | SdString s # _ \<Rightarrow> (Some sd, Inr s)
           | chunk # _ \<Rightarrow>
               (case sd_do_write m enc b64 sd (case chunk of SdBytes src \<Rightarrow> src | _ \<Rightarrow> []) False of (sd, r) \<Rightarrow> (Some sd, r))))"

definition js_sd_end ::
  "mem \<Rightarrow> (nat \<Rightarrow> bytes) \<Rightarrow> (bytes \<Rightarrow> bytes) \<Rightarrow> sd_state option \<Rightarrow> sd_chunk list \<Rightarrow> sd_state option \<times> bytes outcome" where
  "js_sd_end m enc b64 st args =
     (case st of
        None \<Rightarrow> (None, Inl (js_mkerr_type ''Invalid StringDecoder''))
      | Some st \<Rightarrow>
          (case sd_do_write m enc b64 st (case args of SdBytes src # _ \<Rightarrow> src | _ \<Rightarrow> []) True of (st, r) \<Rightarrow> (Some st, r)))"

definition string_decoder_create :: "mem \<Rightarrow> bytes option \<Rightarrow> sd_state outcome" where
  "string_decoder_create m label =
     (let e = (case label of None \<Rightarrow> SD_ENC_UTF8 | Some s \<Rightarrow> sd_parse_encoding s)
      in if \<not> heap_ok m 24 then Inl (js_mkerr ''out of memory'')
         else if e = SD_ENC_UTF8 \<or> e = SD_ENC_UTF16LE \<or> e = SD_ENC_UTF16BE then
           (case td_state_new m (if e = SD_ENC_UTF16LE then TD_ENC_UTF16LE else if e = SD_ENC_UTF16BE then TD_ENC_UTF16BE else TD_ENC_UTF8) False False of
              None \<Rightarrow> Inl (js_mkerr ''out of memory'')
            | Some td \<Rightarrow> Inr \<lparr>sd_enc = e, sd_td = Some td, sd_pending = []\<rparr>)
         else Inr \<lparr>sd_enc = e, sd_td = None, sd_pending = []\<rparr>)"

definition js_sd_ctor :: "mem \<Rightarrow> bool \<Rightarrow> bytes option \<Rightarrow> sd_state outcome" where
  "js_sd_ctor m new_target label =
     (if \<not> new_target then Inl (js_mkerr_type (''StringDecoder constructor requires '' @ squote ''new''))
      else string_decoder_create m label)"

section \<open>Chunks\<close>

definition base64_encoder :: "(bytes \<Rightarrow> bytes) \<Rightarrow> bool" where
  "base64_encoder b64 \<longleftrightarrow> b64 [] = [] \<and> (\<forall>a b. length a mod 3 = 0 \<longrightarrow> b64 (a @ b) = b64 a @ b64 b)"

definition sd_text :: "sd_encoding \<Rightarrow> bool" where
  "sd_text e \<longleftrightarrow> e = SD_ENC_UTF8 \<or> e = SD_ENC_UTF16LE \<or> e = SD_ENC_UTF16BE"

definition sd_inv :: "sd_state \<Rightarrow> bool" where
  "sd_inv st \<longleftrightarrow> length (sd_pending st) \<le> 2 \<and> (sd_text (sd_enc st) \<longrightarrow> (\<exists>td. sd_td st = Some td \<and> td_inv td))"

text \<open>One call in the shape of the contract: the flag says that more input follows.\<close>

definition sd_step :: "mem \<Rightarrow> (nat \<Rightarrow> bytes) \<Rightarrow> (bytes \<Rightarrow> bytes) \<Rightarrow> sd_state \<Rightarrow> bytes \<Rightarrow> bool \<Rightarrow> sd_state \<times> bytes outcome" where
  "sd_step m enc b64 st src stream = sd_do_write m enc b64 st src (\<not> stream)"

lemma sd_create_inv: "string_decoder_create m label = Inr st \<Longrightarrow> sd_inv st"
  by (auto simp: string_decoder_create_def td_state_new_def sd_inv_def td_inv_def td_single_def sd_text_def Let_def split: if_splits)

lemma base64_step:
  assumes "\<And>n. heap_ok m n" "b64 [] = []"
  shows "sd_base64_write m b64 st src flush =
    (let work = sd_pending st @ src; n = (if flush then length work else length work div 3 * 3)
     in (st\<lparr>sd_pending := drop n work\<rparr>, Inr (b64 (take n work))))"
  using assms by (cases st) (auto simp: sd_base64_write_def ant_base64_encode_def Let_def)

lemma base64_split:
  assumes "\<And>n. heap_ok m n" "base64_encoder b64" "sd_base64_write m b64 st a False = (s1, Inr out)"
  shows "sd_base64_write m b64 st (a @ b) flush =
    (fst (sd_base64_write m b64 s1 b flush), map_sum id ((@) out) (snd (sd_base64_write m b64 s1 b flush)))"
proof -
  have b0: "b64 [] = []" and ap: "\<And>a b. length a mod 3 = 0 \<Longrightarrow> b64 (a @ b) = b64 a @ b64 b" using assms(2) by (auto simp: base64_encoder_def)
  note s = base64_step [of m b64, OF assms(1) b0]
  define w where "w = sd_pending st @ a"
  define n where "n = length w div 3 * 3"
  have n: "n \<le> length w" "n mod 3 = 0" by (simp_all add: n_def)
  have s1: "s1 = st\<lparr>sd_pending := drop n w\<rparr>" "out = b64 (take n w)" using assms(3) by (simp_all add: s Let_def w_def n_def)
  define k where "k = (if flush then length (drop n w @ b) else length (drop n w @ b) div 3 * 3)"
  have tot: "(if flush then length (w @ b) else length (w @ b) div 3 * 3) = n + k"
  proof (cases flush)
    case False
    have "length (w @ b) = n + length (drop n w @ b)" using n(1) by simp
    moreover have "(n + x) div 3 * 3 = n + x div 3 * 3" for x using n(2) by (metis add_mult_distrib div_plus_div_distrib_dvd_left dvd_div_mult_self mod_0_imp_dvd)
    ultimately show ?thesis using False unfolding k_def by (simp only: if_False)
  qed (use n in \<open>simp add: k_def\<close>)
  have td: "take n (w @ b) = take n w" "drop n (w @ b) = drop n w @ b" using n(1) by simp_all
  have "take (n + k) (w @ b) = take n w @ take k (drop n w @ b)" unfolding take_add td ..
  moreover have "drop (n + k) (w @ b) = drop k (drop n w @ b)" unfolding td(2) [symmetric] drop_drop add.commute [of k] ..
  moreover have "b64 (take n w @ x) = b64 (take n w) @ b64 x" for x using n by (intro ap) simp
  moreover have "sd_base64_write m b64 st (a @ b) flush = (st\<lparr>sd_pending := drop (n + k) (w @ b)\<rparr>, Inr (b64 (take (n + k) (w @ b))))"
    unfolding s Let_def append_assoc [symmetric] w_def [symmetric] tot ..
  moreover have "sd_base64_write m b64 s1 b flush = (st\<lparr>sd_pending := drop k (drop n w @ b)\<rparr>, Inr (b64 (take k (drop n w @ b))))"
    by (simp add: s Let_def s1 k_def)
  ultimately show ?thesis using s1(2) by simp
qed

lemma latin1_loop_append: "latin1_loop (a @ b) = latin1_loop a @ latin1_loop b"
  by (induction a) simp_all

lemma hex_loop_append: "hex_loop (a @ b) = hex_loop a @ hex_loop b"
  by (induction a) simp_all

lemma sd_step_text:
  assumes "sd_text (sd_enc st)" "sd_td st = Some td"
  shows "sd_step m enc b64 st src f = (st\<lparr>sd_td := Some (fst (td_decode m enc td src f))\<rparr>, snd (td_decode m enc td src f))"
  using assms by (auto simp: sd_step_def sd_do_write_def sd_text_def case_prod_unfold)

lemma sd_step_other:
  assumes "\<And>n. heap_ok m n" "\<not> sd_text (sd_enc st)" "sd_enc st \<noteq> SD_ENC_LATIN1"
  shows "sd_step m enc b64 st src f =
    (if sd_enc st = SD_ENC_HEX then (st, Inr (hex_loop src)) else sd_base64_write m b64 st src (\<not> f))"
  using assms by (cases "sd_enc st") (auto simp: sd_step_def sd_do_write_def sd_text_def sd_hex_decode_def)

lemma td_step_laws:
  assumes "\<And>n. heap_ok m n" "td_inv td"
  shows "td_inv (fst (td_decode m enc td src f))"
    and "td_decode m enc td a True = (s1, Inr out) \<Longrightarrow>
      td_decode m enc td (a @ b) f = (fst (td_decode m enc s1 b f), map_sum id ((@) out) (snd (td_decode m enc s1 b f)))"
    and "td_decode m enc td a True = (s1, Inl e) \<Longrightarrow> snd (td_decode m enc td (a @ b) f) = Inl e"
  using chunked_decoder.step_inv [OF td_decode_chunked [OF assms(1)] assms(2)]
    chunked_decoder.step_split [OF td_decode_chunked [OF assms(1)] assms(2)]
    chunked_decoder.step_fail [OF td_decode_chunked [OF assms(1)] assms(2)] by blast+

lemma sd_decode_chunked:
  assumes "\<And>n. heap_ok m n" "base64_encoder b64"
  shows "chunked_decoder (\<lambda>st. sd_inv st \<and> sd_enc st \<noteq> SD_ENC_LATIN1) (sd_step m enc b64)"
proof
  have b0: "b64 [] = []" using assms(2) by (simp add: base64_encoder_def)
  note o = sd_step_other [of m, OF assms(1)]
  {
    fix st src f
    assume i: "sd_inv st \<and> sd_enc st \<noteq> SD_ENC_LATIN1"
    show "sd_inv (fst (sd_step m enc b64 st src f)) \<and> sd_enc (fst (sd_step m enc b64 st src f)) \<noteq> SD_ENC_LATIN1"
    proof (cases "sd_text (sd_enc st)")
      case True
      then obtain td where td: "sd_td st = Some td" "td_inv td" using i by (auto simp: sd_inv_def)
      show ?thesis using sd_step_text [OF True td(1), of m enc b64 src f] td_step_laws(1) [of m td, OF assms(1) td(2)] i by (simp add: sd_inv_def)
    next
      case False
      have "length work - length work div 3 * 3 \<le> 2" for work :: bytes by (simp add: minus_div_mult_eq_mod)
      then show ?thesis using o [OF False, of enc b64 src f] i False base64_step [of m b64 st src "\<not> f", OF assms(1) b0] by (auto simp: sd_inv_def Let_def)
    qed
  next
    fix st a s1 out b f
    assume i: "sd_inv st \<and> sd_enc st \<noteq> SD_ENC_LATIN1" and e: "sd_step m enc b64 st a True = (s1, Inr out)"
    show "sd_step m enc b64 st (a @ b) f = (fst (sd_step m enc b64 s1 b f), map_sum id ((@) out) (snd (sd_step m enc b64 s1 b f)))"
    proof (cases "sd_text (sd_enc st)")
      case True
      then obtain td where td: "sd_td st = Some td" "td_inv td" using i by (auto simp: sd_inv_def)
      obtain td1 where s1: "td_decode m enc td a True = (td1, Inr out)" "s1 = st\<lparr>sd_td := Some td1\<rparr>"
        using e sd_step_text [OF True td(1), of m enc b64 a True] by (cases "td_decode m enc td a True") simp
      have t1: "sd_text (sd_enc s1)" "sd_td s1 = Some td1" using True s1 by simp_all
      show ?thesis using sd_step_text [OF True td(1), of m enc b64 "a @ b" f] sd_step_text [OF t1, of m enc b64 b f]
          td_step_laws(2) [of m td, OF assms(1) td(2) s1(1), of b f] s1(2) by simp
    next
      case False
      show ?thesis
      proof (cases "sd_enc st = SD_ENC_HEX")
        case True
        then show ?thesis using e o [OF False, of enc b64] i by (auto simp: hex_loop_append)
      next
        case h: False
        have w: "sd_base64_write m b64 st a False = (s1, Inr out)" using e o [OF False, of enc b64 a True] i h by simp
        then have s1: "sd_enc s1 = sd_enc st" using base64_step [of m b64 st a False, OF assms(1) b0] by (auto simp: Let_def)
        show ?thesis using base64_split [OF assms(1) assms(2) w, of b "\<not> f"] o [OF False, of enc b64 "a @ b" f] o [of s1 enc b64 b f] s1 i h False by simp
      qed
    qed
  next
    fix st a s1 e b f
    assume i: "sd_inv st \<and> sd_enc st \<noteq> SD_ENC_LATIN1" and e: "sd_step m enc b64 st a True = (s1, Inl e)"
    have True: "sd_text (sd_enc st)"
    proof (rule ccontr)
      assume n: "\<not> sd_text (sd_enc st)"
      show False using e o [OF n, of enc b64 a True] i base64_step [of m b64 st a False, OF assms(1) b0]
        by (cases "sd_enc st = SD_ENC_HEX") (simp_all add: Let_def)
    qed
    then obtain td where td: "sd_td st = Some td" "td_inv td" using i by (auto simp: sd_inv_def)
    obtain td1 where "td_decode m enc td a True = (td1, Inl e)"
      using e sd_step_text [OF True td(1), of m enc b64 a True] by (cases "td_decode m enc td a True") simp
    then show "snd (sd_step m enc b64 st (a @ b) f) = Inl e"
      using sd_step_text [OF True td(1), of m enc b64 "a @ b" f] td_step_laws(3) [of m td, OF assms(1) td(2), of enc a td1 e b f] by simp
  }
qed
text \<open>Latin-1 has no state, so the cuts only matter through the size limit of the converter.\<close>

lemma sd_latin1_step:
  assumes "\<And>n. heap_ok m n" "sd_enc st = SD_ENC_LATIN1" "length src \<le> SIZE_MAX div 2"
  shows "sd_step m enc b64 st src f = (st, Inr (latin1_loop src))"
  using assms by (simp add: sd_step_def sd_do_write_def sd_latin1_to_str_def latin1_to_utf8_def)

text \<open>The text of a decoder fed chunk by chunk and then ended is that of one \<open>end\<close> call on all of it.\<close>

lemma sd_feed:
  assumes "\<And>n. heap_ok m n" "base64_encoder b64" "string_decoder_create m label = Inr st" "sd_enc st \<noteq> SD_ENC_LATIN1"
  shows "snd (feed (sd_step m enc b64) st cs) = snd (sd_do_write m enc b64 st (concat cs) True)"
  using chunked_decoder.feed_result [OF sd_decode_chunked [of m b64 enc, OF assms(1,2)], of st cs] sd_create_inv [OF assms(3)] assms(4)
  by (simp add: sd_step_def)

subsection \<open>Hexadecimal text\<close>

definition hex_nibble :: "byte \<Rightarrow> nat" where
  "hex_nibble c = (if unat c < 58 then unat c - 48 else unat c - 87)"

fun hex_read :: "bytes \<Rightarrow> bytes" where
  "hex_read (h # l # cs) = byte_of (16 * hex_nibble h + hex_nibble l) # hex_read cs"
| "hex_read cs = []"

lemma hex_table_nibble:
  assumes "n < 16"
  shows "hex_nibble (hex_table ! n) = n"
proof -
  have "list_all (\<lambda>n. hex_nibble (hex_table ! n) = n) [0..<16]" by code_simp
  then show ?thesis using assms by (simp add: list_all_iff)
qed

lemma nibbles:
  fixes b :: byte
  shows "unat (drop_bit 4 b AND 0xF) = unat b div 16" "unat (b AND 0xF) = unat b mod 16"
proof -
  have m: "unat (x AND 0xF) = unat x mod 16" for x :: byte
    using unat_low [of 4 x] by (simp add: take_bit_eq_mask mask_eq_exp_minus_1)
  show "unat (b AND 0xF) = unat b mod 16" by (rule m)
  have "unat b div 16 < 16" using unat_lt_B8 [of b] by (simp add: less_mult_imp_div_less del: unat_lt_B8)
  then show "unat (drop_bit 4 b AND 0xF) = unat b div 16" by (simp add: m unat_shr)
qed

text \<open>Hexadecimal output can be read back, and is twice as long as the input.\<close>

lemma hex_roundtrip: "hex_read (hex_loop src) = src"
proof (induction src)
  case (Cons b src)
  have "unat b div 16 < 16" using unat_lt_B8 [of b] by (simp add: less_mult_imp_div_less del: unat_lt_B8)
  then have "hex_read (hex_loop (b # src)) = byte_of (16 * (unat b div 16) + unat b mod 16) # hex_read (hex_loop src)"
    using nibbles [of b] by (simp only: hex_loop.simps hex_read.simps hex_table_nibble mod_less_divisor zero_less_numeral)
  then show ?case using Cons by (simp add: byte_of_def)
qed simp

lemma hex_length: "length (hex_loop src) = 2 * length src"
  by (induction src) auto

subsection \<open>An encoder with the property of libbase64\<close>

definition base64_table :: bytes where
  "base64_table = ascii ''ABCDEFGHIJKLMNOPQRSTUVWXYZabcdefghijklmnopqrstuvwxyz0123456789+/''"

fun base64_rfc :: "bytes \<Rightarrow> bytes" where
  "base64_rfc [] = []"
| "base64_rfc [a] = [base64_table ! (unat a div 4), base64_table ! (unat a mod 4 * 16), 61, 61]"
| "base64_rfc [a, b] =
     [base64_table ! (unat a div 4), base64_table ! (unat a mod 4 * 16 + unat b div 16), base64_table ! (unat b mod 16 * 4), 61]"
| "base64_rfc (a # b # c # rest) =
     base64_table ! (unat a div 4) # base64_table ! (unat a mod 4 * 16 + unat b div 16)
     # base64_table ! (unat b mod 16 * 4 + unat c div 64) # base64_table ! (unat c mod 64) # base64_rfc rest"

lemma base64_rfc_encoder: "base64_encoder base64_rfc"
proof -
  have "length a mod 3 = 0 \<Longrightarrow> base64_rfc (a @ b) = base64_rfc a @ base64_rfc b" for a b
    by (induction a rule: base64_rfc.induct) auto
  then show ?thesis by (simp add: base64_encoder_def)
qed

interpretation sd: chunked_decoder "\<lambda>st. sd_inv st \<and> sd_enc st \<noteq> SD_ENC_LATIN1" "sd_step mem_granted enc base64_rfc" for enc
  by (rule sd_decode_chunked) (simp_all add: mem_granted_def base64_rfc_encoder)

end
