(* ===== verification/Flat_String.thy ===== *)
theory Flat_String
  imports Textcodec
begin

text \<open>
  The header of a flat string (\<open>src/include/gc/strings.h\<close>): its length, its bytes, and one word of
  metadata that packs the cached UTF-16 length with what is known about ASCII and UTF-8. The
  accessors are modelled on the header \<open>str_flat_from_bytes\<close> finds in front of the bytes, which is
  never \<open>NULL\<close>.
\<close>

unbundle bit_operations_syntax

definition STR_META_ASCII_SHIFT :: nat where "STR_META_ASCII_SHIFT = 56"
definition STR_META_VALID_SHIFT :: nat where "STR_META_VALID_SHIFT = 58"
definition STR_META_FIELD_MASK :: u64 where "STR_META_FIELD_MASK = 0x3"
definition STR_META_UTF16_MASK :: u64 where "STR_META_UTF16_MASK = push_bit STR_META_ASCII_SHIFT 1 - 1"
definition STR_META_ASCII_MASK :: u64 where "STR_META_ASCII_MASK = push_bit STR_META_ASCII_SHIFT STR_META_FIELD_MASK"
definition STR_META_VALID_MASK :: u64 where "STR_META_VALID_MASK = push_bit STR_META_VALID_SHIFT STR_META_FIELD_MASK"
definition STR_META_STATE_MASK :: u64 where "STR_META_STATE_MASK = NOT STR_META_UTF16_MASK"
definition STR_UTF16_LEN_UNKNOWN :: u64 where "STR_UTF16_LEN_UNKNOWN = STR_META_UTF16_MASK"

abbreviation STR_ASCII_UNKNOWN :: byte where "STR_ASCII_UNKNOWN \<equiv> 0"
abbreviation STR_ASCII_YES :: byte where "STR_ASCII_YES \<equiv> 1"
abbreviation STR_ASCII_NO :: byte where "STR_ASCII_NO \<equiv> 2"

abbreviation STR_UTF_UNKNOWN :: byte where "STR_UTF_UNKNOWN \<equiv> 0"
abbreviation STR_UTF_VALID :: byte where "STR_UTF_VALID \<equiv> 1"
abbreviation STR_UTF_INVALID :: byte where "STR_UTF_INVALID \<equiv> 2"
abbreviation STR_UTF_INVALID_SAME_LENGTH :: byte where "STR_UTF_INVALID_SAME_LENGTH \<equiv> 3"

record flat_string =
  flat_len :: u64
  flat_meta :: u64
  flat_bytes :: bytes

text \<open>A \<open>memcpy\<close> of eight bytes into a \<open>uint64_t\<close> on a little-endian target.\<close>

fun load_le :: "bytes \<Rightarrow> nat" where
  "load_le [] = 0"
| "load_le (b # bs) = unat b + 256 * load_le bs"

definition load64 :: "bytes \<Rightarrow> u64" where
  "load64 s = word_of_nat (load_le (take 8 s))"

fun detect_tail :: "bytes \<Rightarrow> byte" where
  "detect_tail [] = STR_ASCII_YES"
| "detect_tail (c # s) = (if 0x80 \<le> c then STR_ASCII_NO else detect_tail s)"

fun detect_words :: "bytes \<Rightarrow> byte" where
  "detect_words s =
     (if 8 \<le> length s then
        if load64 s AND 0x8080808080808080 \<noteq> 0 then STR_ASCII_NO else detect_words (drop 8 s)
      else detect_tail s)"

fun str_detect_ascii_bytes :: "bytes \<Rightarrow> byte" where
  "str_detect_ascii_bytes s =
     (if 32 \<le> length s then
        if (load64 s OR load64 (drop 8 s) OR load64 (drop 16 s) OR load64 (drop 24 s)) AND 0x8080808080808080 \<noteq> 0
        then STR_ASCII_NO else str_detect_ascii_bytes (drop 32 s)
      else detect_words s)"

declare detect_words.simps [simp del] str_detect_ascii_bytes.simps [simp del]

definition str_flat_ascii_state :: "flat_string \<Rightarrow> byte" where
  "str_flat_ascii_state flat = ucast (drop_bit STR_META_ASCII_SHIFT (flat_meta flat AND STR_META_ASCII_MASK))"

definition str_flat_utf_valid_state :: "flat_string \<Rightarrow> byte" where
  "str_flat_utf_valid_state flat = ucast (drop_bit STR_META_VALID_SHIFT (flat_meta flat AND STR_META_VALID_MASK))"

definition str_flat_set_utf_valid_state :: "flat_string \<Rightarrow> byte \<Rightarrow> flat_string" where
  "str_flat_set_utf_valid_state flat state =
     flat\<lparr>flat_meta := (flat_meta flat AND NOT STR_META_VALID_MASK)
       OR (push_bit STR_META_VALID_SHIFT (ucast state) AND STR_META_VALID_MASK)\<rparr>"

definition str_flat_cached_utf16_len :: "flat_string \<Rightarrow> u64" where
  "str_flat_cached_utf16_len flat = flat_meta flat AND STR_META_UTF16_MASK"

definition str_flat_init_meta :: "flat_string \<Rightarrow> byte \<Rightarrow> flat_string" where
  "str_flat_init_meta flat ascii_state =
     flat\<lparr>flat_meta := push_bit STR_META_ASCII_SHIFT (ucast ascii_state) OR STR_UTF16_LEN_UNKNOWN\<rparr>"

definition str_flat_set_utf16_len :: "flat_string \<Rightarrow> u64 \<Rightarrow> flat_string" where
  "str_flat_set_utf16_len flat len =
     flat\<lparr>flat_meta := (flat_meta flat AND STR_META_STATE_MASK) OR (len AND STR_META_UTF16_MASK)\<rparr>"

definition str_is_ascii :: "flat_string \<Rightarrow> flat_string \<times> bool" where
  "str_is_ascii flat =
     (let state = str_flat_ascii_state flat
      in if state = STR_ASCII_UNKNOWN then
           let state = str_detect_ascii_bytes (take (unat (flat_len flat)) (flat_bytes flat))
           in (str_flat_init_meta flat state, state = STR_ASCII_YES)
         else (flat, state = STR_ASCII_YES))"

definition str_is_valid_utf8 :: "flat_string \<Rightarrow> flat_string \<times> bool" where
  "str_is_valid_utf8 flat =
     (let (flat, is_ascii) = str_is_ascii flat
      in if is_ascii then (flat, True)
         else
           let state = str_flat_utf_valid_state flat
           in if state = STR_UTF_UNKNOWN then
                let state = (if utf8_validate_bytes (take (unat (flat_len flat)) (flat_bytes flat))
                             then STR_UTF_VALID else STR_UTF_INVALID)
                in (str_flat_set_utf_valid_state flat state, state = STR_UTF_VALID)
              else (flat, state = STR_UTF_VALID))"

section \<open>Words of eight bytes\<close>

lemma low_byte_bits: "b < 256 \<Longrightarrow> 8 \<le> n \<Longrightarrow> \<not> bit (b :: nat) n"
  using bit_take_bit_iff [of 8 b n] take_bit_nat_eq_self [of b 8] by simp

lemma and_byte_step:
  assumes "b < 256" "c < 256"
  shows "(b + 256 * w) AND (c + 256 * m) = (b AND c) + 256 * ((w :: nat) AND m)"
proof -
  have j: "x + 256 * y = push_bit 8 y OR x" if "x < 256" for x y :: nat
    using push_bit_or_nat [of x 8 y] that by (simp add: push_bit_eq_mult ac_simps)
  have "take_bit 8 (b AND c) = b AND c" using assms by (simp add: take_bit_nat_eq_self)
  then have "b AND c < 256" using take_bit_nat_less_exp [of 8 "b AND c"] by simp
  moreover have "(push_bit 8 w OR b) AND (push_bit 8 m OR c) = push_bit 8 (w AND m) OR (b AND c)"
    using low_byte_bits [OF assms(1)] low_byte_bits [OF assms(2)] by (intro bit_eqI) (auto simp: bit_simps)
  ultimately show ?thesis using assms by (simp only: j)
qed

lemma byte_high_bit:
  assumes "b < 256"
  shows "(b :: nat) AND 128 = 0 \<longleftrightarrow> b < 128"
proof -
  have "bit b 7 \<longleftrightarrow> b AND 128 \<noteq> 0"
    by (simp only: bit_iff_and_push_bit_not_eq_0 [of b 7] push_bit_eq_mult) simp
  moreover have "bit b 7 \<longleftrightarrow> odd (b div 128)" by (simp add: bit_iff_odd)
  moreover have "b div 128 = (if b < 128 then 0 else 1)" using assms by (simp add: div_nat_eqI)
  ultimately show ?thesis by (simp split: if_splits)
qed

fun high_bits :: "nat \<Rightarrow> nat" where
  "high_bits 0 = 0"
| "high_bits (Suc n) = 128 + 256 * high_bits n"

lemma load_le_ascii: "load_le bs AND high_bits (length bs) = 0 \<longleftrightarrow> (\<forall>b \<in> set bs. b < 0x80)"
proof (induction bs)
  case (Cons b bs)
  show ?case using Cons and_byte_step [of "unat b" 128 "load_le bs" "high_bits (length bs)"] byte_high_bit [of "unat b"]
    by (simp add: word_less_nat_alt)
qed simp

lemma load_le_bound: "load_le bs < 256 ^ length bs"
proof (induction bs)
  case (Cons b bs)
  have "unat b + 256 * load_le bs < 256 + 256 * load_le bs" by simp
  also have "\<dots> \<le> 256 * 256 ^ length bs" using Cons by simp
  finally show ?case by simp
qed simp

lemma load64_ascii:
  assumes "8 \<le> length s"
  shows "load64 s AND 0x8080808080808080 = 0 \<longleftrightarrow> (\<forall>b \<in> set (take 8 s). b < 0x80)"
proof -
  have l: "load_le (take 8 s) < 2 ^ 64" using load_le_bound [of "take 8 s"] assms by simp
  have h8: "high_bits (Suc (Suc (Suc (Suc (Suc (Suc (Suc (Suc 0)))))))) = 0x8080808080808080" by simp
  have "(8 :: nat) = Suc (Suc (Suc (Suc (Suc (Suc (Suc (Suc 0)))))))" by simp
  with h8 have h: "high_bits 8 = 0x8080808080808080" by (simp only:)
  have "unat (load64 s AND 0x8080808080808080) = load_le (take 8 s) AND high_bits 8"
    using l unfolding h load64_def unsigned_and_eq by (simp add: unat_of_nat)
  moreover have "load64 s AND 0x8080808080808080 = 0 \<longleftrightarrow> unat (load64 s AND 0x8080808080808080) = 0"
    by (simp only: unsigned_eq_0_iff)
  ultimately show ?thesis using load_le_ascii [of "take 8 s"] assms by simp
qed

text \<open>The word-at-a-time scan says YES exactly on strings of ASCII bytes.\<close>

lemma detect_tail_iff: "detect_tail s = (if \<forall>b \<in> set s. b < 0x80 then STR_ASCII_YES else STR_ASCII_NO)"
  by (induction s) (auto simp: not_less)

lemma set_take_drop: "set s = set (take n s) \<union> set (drop n s)"
  by (metis append_take_drop_id set_append)

lemma ascii_cases: "(\<forall>b \<in> set s. b < (0x80 :: byte)) \<longleftrightarrow> (\<forall>b \<in> set (take n s). b < 0x80) \<and> (\<forall>b \<in> set (drop n s). b < 0x80)"
  using set_take_drop [of s n] by blast

lemma detect_words_iff: "detect_words s = (if \<forall>b \<in> set s. b < 0x80 then STR_ASCII_YES else STR_ASCII_NO)"
proof (induction s rule: detect_words.induct)
  case (1 s)
  show ?case
  proof (cases "8 \<le> length s")
    case True
    show ?thesis unfolding detect_words.simps [of s] ascii_cases [of s 8] load64_ascii [OF True, symmetric] using 1 True by simp
  next
    case False
    then show ?thesis by (simp add: detect_words.simps [of s] detect_tail_iff)
  qed
qed

lemma or_and_zero: "(a OR b) AND m = 0 \<longleftrightarrow> a AND m = 0 \<and> b AND (m :: u64) = 0"
  by (simp add: bit.conj_disj_distrib2 or_eq_0_iff)

theorem detect_ascii_iff: "str_detect_ascii_bytes s = (if \<forall>b \<in> set s. b < 0x80 then STR_ASCII_YES else STR_ASCII_NO)"
proof (induction s rule: str_detect_ascii_bytes.induct)
  case (1 s)
  show ?case
  proof (cases "32 \<le> length s")
    case True
    then have l: "8 \<le> length s" "8 \<le> length (drop 8 s)" "8 \<le> length (drop 16 s)" "8 \<le> length (drop 24 s)" by simp_all
    have "(load64 s OR load64 (drop 8 s) OR load64 (drop 16 s) OR load64 (drop 24 s)) AND 0x8080808080808080 = 0
      \<longleftrightarrow> (\<forall>b \<in> set (take 32 s). b < 0x80)"
      unfolding or_and_zero load64_ascii [OF l(1)] load64_ascii [OF l(2)] load64_ascii [OF l(3)] load64_ascii [OF l(4)]
      using ascii_cases [of "take 32 s" 8] ascii_cases [of "take 24 (drop 8 s)" 8] ascii_cases [of "take 16 (drop 16 s)" 8]
      by (simp add: drop_take min_def)
    then show ?thesis unfolding str_detect_ascii_bytes.simps [of s] ascii_cases [of s 32] using 1 True by simp
  next
    case False
    then show ?thesis by (simp add: str_detect_ascii_bytes.simps [of s] detect_words_iff)
  qed
qed
section \<open>The packed metadata\<close>

lemma meta_masks:
  "STR_META_UTF16_MASK = mask 56" "STR_META_ASCII_MASK = push_bit 56 (mask 2)" "STR_META_VALID_MASK = push_bit 58 (mask 2)"
  by (simp_all add: STR_META_UTF16_MASK_def STR_META_ASCII_MASK_def STR_META_VALID_MASK_def STR_META_FIELD_MASK_def
      STR_META_ASCII_SHIFT_def STR_META_VALID_SHIFT_def mask_eq_exp_minus_1 push_bit_eq_mult)

lemma small_bits: "unat (st :: byte) < 4 \<Longrightarrow> 2 \<le> n \<Longrightarrow> \<not> bit st n"
  using take_bit_nat_eq_self [of "unat st" 2] bit_take_bit_iff [of 2 "unat st" n] by (simp add: bit_simps)

lemma small_bit: "unat (st :: byte) < 4 \<Longrightarrow> bit st n \<Longrightarrow> n < 2"
  using small_bits [of st n] by (meson not_le)

lemma small_bit6: "unat (st :: byte) < 4 \<Longrightarrow> bit st n \<Longrightarrow> n < 6"
  using small_bit [of st n] by simp

lemmas meta_defs = str_flat_ascii_state_def str_flat_utf_valid_state_def str_flat_cached_utf16_len_def
  str_flat_set_utf_valid_state_def str_flat_init_meta_def str_flat_set_utf16_len_def
  STR_META_STATE_MASK_def STR_UTF16_LEN_UNKNOWN_def STR_META_ASCII_SHIFT_def STR_META_VALID_SHIFT_def meta_masks

lemma init_meta_fields [simp]:
  assumes "unat st < 4"
  shows "str_flat_ascii_state (str_flat_init_meta f st) = st" "str_flat_utf_valid_state (str_flat_init_meta f st) = STR_UTF_UNKNOWN"
    "str_flat_cached_utf16_len (str_flat_init_meta f st) = STR_UTF16_LEN_UNKNOWN"
  using small_bits [OF assms] small_bit [OF assms] small_bit6 [OF assms] by (auto simp: meta_defs bit_simps intro!: bit_word_eqI)

lemma set_valid_fields [simp]:
  assumes "unat st < 4"
  shows "str_flat_ascii_state (str_flat_set_utf_valid_state f st) = str_flat_ascii_state f"
    "str_flat_utf_valid_state (str_flat_set_utf_valid_state f st) = st"
    "str_flat_cached_utf16_len (str_flat_set_utf_valid_state f st) = str_flat_cached_utf16_len f"
  using small_bits [OF assms] small_bit [OF assms] small_bit6 [OF assms] by (auto simp: meta_defs bit_simps intro!: bit_word_eqI)

lemma set_utf16_fields [simp]:
  "str_flat_ascii_state (str_flat_set_utf16_len f len) = str_flat_ascii_state f"
  "str_flat_utf_valid_state (str_flat_set_utf16_len f len) = str_flat_utf_valid_state f"
  "str_flat_cached_utf16_len (str_flat_set_utf16_len f len) = take_bit 56 len"
  by (auto simp: meta_defs bit_simps intro!: bit_word_eqI)

lemma flat_frame [simp]:
  "flat_bytes (str_flat_init_meta f st) = flat_bytes f" "flat_bytes (str_flat_set_utf_valid_state f st) = flat_bytes f"
  "flat_bytes (str_flat_set_utf16_len f len) = flat_bytes f"
  "flat_len (str_flat_init_meta f st) = flat_len f" "flat_len (str_flat_set_utf_valid_state f st) = flat_len f"
  "flat_len (str_flat_set_utf16_len f len) = flat_len f"
  by (simp_all add: str_flat_init_meta_def str_flat_set_utf_valid_state_def str_flat_set_utf16_len_def)

text \<open>
  What the metadata may claim about the bytes. The cached UTF-16 length and the length the
  string has when exported are stated by the theories that compute them.
\<close>

definition ascii_bytes :: "bytes \<Rightarrow> bool" where
  "ascii_bytes s \<longleftrightarrow> (\<forall>b \<in> set s. b < 0x80)"

definition flat_inv :: "flat_string \<Rightarrow> bool" where
  "flat_inv f \<longleftrightarrow>
     unat (flat_len f) = length (flat_bytes f)
     \<and> str_flat_ascii_state f \<in> {STR_ASCII_UNKNOWN, if ascii_bytes (flat_bytes f) then STR_ASCII_YES else STR_ASCII_NO}
     \<and> (str_flat_ascii_state f = STR_ASCII_UNKNOWN \<longrightarrow> str_flat_utf_valid_state f = STR_UTF_UNKNOWN)
     \<and> (if utf8_validate_bytes (flat_bytes f) then str_flat_utf_valid_state f \<in> {STR_UTF_UNKNOWN, STR_UTF_VALID}
        else str_flat_utf_valid_state f \<in> {STR_UTF_UNKNOWN, STR_UTF_INVALID, STR_UTF_INVALID_SAME_LENGTH})"

lemma ascii_validate: "ascii_bytes s \<Longrightarrow> utf8_validate_bytes s"
  by (induction s) (auto simp: ascii_bytes_def utf8_validate_bytes.simps)

lemma is_ascii_correct:
  assumes "flat_inv f"
  shows "snd (str_is_ascii f) \<longleftrightarrow> ascii_bytes (flat_bytes f)" "flat_inv (fst (str_is_ascii f))"
    "flat_bytes (fst (str_is_ascii f)) = flat_bytes f" "flat_len (fst (str_is_ascii f)) = flat_len f"
    "str_flat_ascii_state (fst (str_is_ascii f)) \<noteq> STR_ASCII_UNKNOWN"
  using assms by (auto simp: str_is_ascii_def Let_def flat_inv_def detect_ascii_iff ascii_bytes_def [symmetric] split: if_splits)

lemma is_valid_utf8_correct:
  assumes "flat_inv f"
  shows "snd (str_is_valid_utf8 f) \<longleftrightarrow> utf8_validate_bytes (flat_bytes f)" "flat_inv (fst (str_is_valid_utf8 f))"
    "flat_bytes (fst (str_is_valid_utf8 f)) = flat_bytes f"
proof -
  obtain f1 a where f1: "str_is_ascii f = (f1, a)" by fastforce
  note a = is_ascii_correct [OF assms, unfolded f1, simplified]
  show "snd (str_is_valid_utf8 f) \<longleftrightarrow> utf8_validate_bytes (flat_bytes f)" "flat_inv (fst (str_is_valid_utf8 f))"
    "flat_bytes (fst (str_is_valid_utf8 f)) = flat_bytes f"
    using a ascii_validate [of "flat_bytes f"]
    by (auto simp: str_is_valid_utf8_def f1 Let_def flat_inv_def split: if_splits)
qed

end
