(* ===== verification/Utf16_Scan.thy ===== *)
theory Utf16_Scan
  imports Flat_String
begin

text \<open>
  The UTF-16 view of the runtime's strings (\<open>src/src/utf8.c\<close>): strings are stored as bytes, and the
  JavaScript operations see the sequence of 16-bit code units that \<open>utf16_next_code_unit\<close> yields.
  Pointers into a string are the bytes from the pointer to the end of the string.
\<close>

unbundle bit_operations_syntax

text \<open>
  \<open>utf16_scan_decode\<close> at a non-empty rest: the bytes and the code units of the next character, and
  its code point when \<open>cp_out\<close> is given. A sequence cut off by the end is one byte when the code
  point is asked for, and has its nominal length when it is not.
\<close>

definition utf16_scan_decode :: "bytes \<Rightarrow> bool \<Rightarrow> nat \<times> nat \<times> u32" where
  "utf16_scan_decode p cp_out =
     (let c = hd p
      in if c < 0x80 then (1, 1, ucast c)
         else if c AND 0xE0 = 0xC0 then
           (if cp_out \<and> 1 < length p then (2, 1, push_bit 6 (ucast (c AND 0x1F)) OR ucast (p ! 1 AND 0x3F))
            else if \<not> cp_out then (2, 1, 0)
            else (1, 1, ucast c))
         else if c AND 0xF0 = 0xE0 then
           (if cp_out \<and> 2 < length p then
              (3, 1, push_bit 12 (ucast (c AND 0x0F)) OR push_bit 6 (ucast (p ! 1 AND 0x3F)) OR ucast (p ! 2 AND 0x3F))
            else if \<not> cp_out then (3, 1, 0)
            else (1, 1, ucast c))
         else if c AND 0xF8 = 0xF0 then
           (if cp_out \<and> 3 < length p then
              (4, 2, push_bit 18 (ucast (c AND 0x07)) OR push_bit 12 (ucast (p ! 1 AND 0x3F))
                OR push_bit 6 (ucast (p ! 2 AND 0x3F)) OR ucast (p ! 3 AND 0x3F))
            else if \<not> cp_out then (4, 2, 0)
            else (1, 1, ucast c))
         else (1, 1, ucast c))"

text \<open>The iterator over code units: the rest of the string and the low half of a pair, 0 for none.\<close>

record utf16_iterator =
  it_next :: bytes
  trailing_surrogate :: u16

definition utf16_iterator_start :: "bytes \<Rightarrow> utf16_iterator" where
  "utf16_iterator_start str = \<lparr>it_next = str, trailing_surrogate = 0\<rparr>"

definition utf16_next_code_unit :: "utf16_iterator \<Rightarrow> utf16_iterator \<times> u16 option" where
  "utf16_next_code_unit it =
     (if trailing_surrogate it \<noteq> 0 then (it\<lparr>trailing_surrogate := 0\<rparr>, Some (trailing_surrogate it))
      else if it_next it = [] then (it, None)
      else
        let (bytes, units, codepoint) = utf16_scan_decode (it_next it) True;
            it = it\<lparr>it_next := drop bytes (it_next it)\<rparr>
        in if units = 2 then
             let codepoint = codepoint - 0x10000
             in (it\<lparr>trailing_surrogate := ucast (0xDC00 + (codepoint AND 0x3FF))\<rparr>, Some (ucast (0xD800 + drop_bit 10 codepoint)))
           else (it, Some (ucast codepoint)))"

section \<open>Characters\<close>

text \<open>The nominal length of a sequence, from its first byte.\<close>

definition nominal :: "byte \<Rightarrow> nat" where
  "nominal c = (let n = unat c in if 0xC0 \<le> n \<and> n < 0xE0 then 2 else if 0xE0 \<le> n \<and> n < 0xF0 then 3
     else if 0xF0 \<le> n \<and> n < 0xF8 then 4 else 1)"

lemma nominal_range: "1 \<le> nominal c" "nominal c \<le> 4"
  by (simp_all add: nominal_def Let_def)

lemma decode_nat:
  "utf16_scan_decode p w =
     (let c = hd p; n = nominal c
      in if w \<and> length p < n \<or> n = 1 then (1, 1, ucast c)
         else (n, if n = 4 then 2 else 1,
           if \<not> w then 0
           else if n = 2 then push_bit 6 (ucast (c AND 0x1F)) OR ucast (p ! 1 AND 0x3F)
           else if n = 3 then push_bit 12 (ucast (c AND 0x0F)) OR push_bit 6 (ucast (p ! 1 AND 0x3F)) OR ucast (p ! 2 AND 0x3F)
           else push_bit 18 (ucast (c AND 0x07)) OR push_bit 12 (ucast (p ! 1 AND 0x3F))
                OR push_bit 6 (ucast (p ! 2 AND 0x3F)) OR ucast (p ! 3 AND 0x3F)))"
proof -
  define n where "n = unat (hd p)"
  consider "n < 0x80" | "0x80 \<le> n" "n < 0xC0" | "0xC0 \<le> n" "n < 0xE0" | "0xE0 \<le> n" "n < 0xF0" | "0xF0 \<le> n" "n < 0xF8" | "0xF8 \<le> n"
    by linarith
  then show ?thesis
    unfolding utf16_scan_decode_def nominal_def Let_def high_mask_tests word_less_nat_alt n_def [symmetric]
    by cases (auto simp: not_less)
qed

lemma decode_null: "utf16_scan_decode p False = (nominal (hd p), if nominal (hd p) = 4 then 2 else 1, if nominal (hd p) = 1 then ucast (hd p) else 0)"
  by (simp add: decode_nat Let_def)

lemma decode_size: "fst (utf16_scan_decode p True) = (if nominal (hd p) \<le> length p then nominal (hd p) else 1)"
  by (simp add: decode_nat Let_def)

lemma decode_units: "fst (snd (utf16_scan_decode p True)) = (if nominal (hd p) \<le> length p \<and> nominal (hd p) = 4 then 2 else 1)"
  by (auto simp add: decode_nat Let_def)

lemma decode_bytes_pos: "1 \<le> fst (utf16_scan_decode p True)"
  using nominal_range(1) [of "hd p"] by (simp add: decode_size)

lemma decode_append:
  assumes "p \<noteq> []" "nominal (hd p) \<le> length p"
  shows "utf16_scan_decode (p @ q) True = utf16_scan_decode p True"
proof -
  have n: "(p @ q) ! i = p ! i" if "i < nominal (hd p)" for i using that assms(2) by (simp add: nth_append)
  consider "nominal (hd p) = 1" | "nominal (hd p) = 2" | "nominal (hd p) = 3" | "nominal (hd p) = 4"
    using nominal_range [of "hd p"] by linarith
  then show ?thesis using assms n [of 1] n [of 2] n [of 3] by cases (simp_all add: decode_nat Let_def)
qed

text \<open>The code units of the next character.\<close>

definition char_units :: "bytes \<Rightarrow> u16 list" where
  "char_units p =
     (case utf16_scan_decode p True of (_, units, cp) \<Rightarrow>
        if units = 2 then [ucast (0xD800 + drop_bit 10 (cp - 0x10000)), ucast (0xDC00 + ((cp - 0x10000) AND 0x3FF))]
        else [ucast cp])"

function str_units :: "bytes \<Rightarrow> u16 list" where
  "str_units [] = []"
| "str_units (c # s) = char_units (c # s) @ str_units (drop (fst (utf16_scan_decode (c # s) True)) (c # s))"
  by pat_completeness auto
termination
proof (relation "measure length")
  fix c s
  show "(drop (fst (utf16_scan_decode (c # s) True)) (c # s), c # s) \<in> measure length"
    using decode_bytes_pos [of "c # s"] by simp
qed simp

lemma char_units_length: "length (char_units p) = fst (snd (utf16_scan_decode p True))"
  using decode_units [of p] by (auto simp: char_units_def split: prod.splits if_splits)

section \<open>Boundaries\<close>

text \<open>The positions a scan from the start of \<open>s\<close> reaches, with the code units before each.\<close>

definition unit_count :: "byte \<Rightarrow> nat" where
  "unit_count c = (if nominal c = 4 then 2 else 1)"

inductive bnd :: "bytes \<Rightarrow> nat \<Rightarrow> nat \<Rightarrow> bool" for s where
  start: "bnd s 0 0"
| step: "bnd s b u \<Longrightarrow> b < length s \<Longrightarrow> bnd s (b + nominal (s ! b)) (u + unit_count (s ! b))"

text \<open>No sequence is cut off by the end of the string.\<close>

function complete :: "bytes \<Rightarrow> bool" where
  "complete [] = True"
| "complete (c # s) = (nominal c \<le> length (c # s) \<and> complete (drop (nominal c) (c # s)))"
  by pat_completeness auto
termination
proof (relation "measure length")
  fix c s
  show "(drop (nominal c) (c # s), c # s) \<in> measure length" using nominal_range(1) [of c] by simp
qed simp

lemma complete_char:
  assumes "complete p" "p \<noteq> []"
  shows "nominal (hd p) \<le> length p" "complete (drop (nominal (hd p)) p)"
    "str_units p = char_units p @ str_units (drop (nominal (hd p)) p)" "length (char_units p) = unit_count (hd p)"
    "fst (utf16_scan_decode p True) = nominal (hd p)" "fst (snd (utf16_scan_decode p True)) = unit_count (hd p)"
  using assms by (cases p; simp add: decode_size decode_units char_units_length unit_count_def)+

lemma bnd_suffix:
  assumes "complete s" "bnd s b u"
  shows "b \<le> length s \<and> complete (drop b s) \<and> u \<le> length (str_units s) \<and> str_units (drop b s) = drop u (str_units s)"
  using assms(2)
proof induction
  case (step b u)
  have h: "drop b s \<noteq> []" "hd (drop b s) = s ! b" using step.hyps(2) by (simp_all add: hd_drop_conv_nth)
  note c = complete_char [OF _ h(1), unfolded h(2), simplified]
  have e: "drop u (str_units s) = char_units (drop b s) @ str_units (drop (b + nominal (s ! b)) s)"
    using c(3) step.IH by (simp add: add.commute)
  have l: "length (char_units (drop b s)) = unit_count (s ! b)" using c(4) step.IH by simp
  have "drop (unit_count (s ! b)) (drop u (str_units s)) = str_units (drop (b + nominal (s ! b)) s)" unfolding e by (simp add: l)
  moreover have "unit_count (s ! b) \<le> length (drop u (str_units s))" unfolding e by (simp add: l)
  ultimately show ?case using c(1,2) step.IH step.hyps(2) by (simp add: add.commute) linarith
qed (simp add: assms(1))

lemma bnd_length: "bnd s b u \<Longrightarrow> u \<le> b"
  by (induction rule: bnd.induct) (auto simp: unit_count_def nominal_def Let_def)

lemma complete_append: "complete a \<Longrightarrow> (complete (a @ b) \<longleftrightarrow> complete b) \<and> str_units (a @ b) = str_units a @ str_units b"
proof (induction a rule: complete.induct)
  case (2 c s)
  have l: "nominal c \<le> length (c # s)" "complete (drop (nominal c) (c # s))" using 2(2) by simp_all
  have d: "drop (nominal c) (c # s @ b) = drop (nominal c) (c # s) @ b"
    using l(1) drop_append [of "nominal c" "c # s" b] by simp
  have u: "utf16_scan_decode (c # s @ b) True = utf16_scan_decode (c # s) True" using decode_append [of "c # s" b] l by simp
  have "str_units (c # s @ b) = char_units (c # s) @ str_units (drop (nominal c) (c # s) @ b)"
    using u d l by (simp add: char_units_def decode_size)
  moreover have "str_units (c # s) = char_units (c # s) @ str_units (drop (nominal c) (c # s))" using l by (simp add: decode_size)
  ultimately show ?case using 2(1) [OF l(2)] l d by simp
qed simp

section \<open>Generalized UTF-8\<close>

text \<open>
  The strings of the runtime: the UTF-8 form of code points, with the three-byte form for the
  surrogates that have no partner in the JavaScript string.
\<close>

definition wtf8 :: "nat list \<Rightarrow> bytes" where
  "wtf8 cps = concat (map utf8_bytes cps)"

lemma utf8_bytes_cases:
  assumes "cp < 0x110000"
  obtains (one) "cp < 0x80" "utf8_bytes cp = [byte_of cp]"
  | (two) k x where "cp = k * 64 + x" "2 \<le> k" "k < 32" "x < 64" "utf8_bytes cp = [byte_of (0xC0 + k), byte_of (0x80 + x)]"
  | (three) k x1 x2 where "cp = (k * 64 + x1) * 64 + x2" "0x800 \<le> cp" "k < 16" "x1 < 64" "x2 < 64"
      "utf8_bytes cp = [byte_of (0xE0 + k), byte_of (0x80 + x1), byte_of (0x80 + x2)]"
  | (four) k x1 x2 x3 where "cp = ((k * 64 + x1) * 64 + x2) * 64 + x3" "0x10000 \<le> cp" "k < 5" "x1 < 64" "x2 < 64" "x3 < 64"
      "utf8_bytes cp = [byte_of (0xF0 + k), byte_of (0x80 + x1), byte_of (0x80 + x2), byte_of (0x80 + x3)]"
proof -
  define a b c where "a = cp div 64" and "b = a div 64" and "c = b div 64"
  have cp: "cp = a * 64 + cp mod 64" and a: "a = b * 64 + a mod 64" and b: "b = c * 64 + b mod 64"
    by (simp_all add: a_def b_def c_def)
  consider "cp < 0x80" | "0x80 \<le> cp" "cp < 0x800" | "0x800 \<le> cp" "cp < 0x10000" | "0x10000 \<le> cp" by linarith
  then show thesis
  proof cases
    case 1
    then show thesis by (intro one) (simp_all add: utf8_bytes_def)
  next
    case 2
    then show thesis by (intro two [of a "cp mod 64"]) (auto simp: utf8_bytes_def a_def)
  next
    case 3
    have "b < 16" using 3 by (simp add: b_def a_def less_mult_imp_div_less flip: div_mult2_eq)
    then show thesis using 3 cp a by (intro three [of b "a mod 64" "cp mod 64"]) (simp_all add: utf8_bytes_def a_def b_def flip: div_mult2_eq)
  next
    case 4
    have "c < 5" using assms by (simp add: c_def b_def a_def less_mult_imp_div_less flip: div_mult2_eq)
    then show thesis using 4 cp a b
      by (intro four [of c "b mod 64" "a mod 64" "cp mod 64"]) (simp_all add: utf8_bytes_def a_def b_def c_def flip: div_mult2_eq)
  qed
qed

lemma or3: "push_bit 12 a OR push_bit 6 b OR c = push_bit 6 (push_bit 6 a OR b) OR (c :: u32)"
  by (simp add: push_bit_or or.assoc)

lemma or4: "push_bit 18 a OR push_bit 12 b OR push_bit 6 c OR d = push_bit 6 (push_bit 6 (push_bit 6 a OR b) OR c) OR (d :: u32)"
  by (simp add: push_bit_or or.assoc)

lemma u32_of_unat: "unat (x :: u32) = n \<Longrightarrow> x = word_of_nat n"
  by auto

lemma decode_utf8:
  assumes "cp < 0x110000"
  shows "utf16_scan_decode (utf8_bytes cp @ rest) True = (length (utf8_bytes cp), if cp < 0x10000 then 1 else 2, word_of_nat cp)"
    and "nominal (hd (utf8_bytes cp @ rest)) = length (utf8_bytes cp)"
proof -
  have "utf16_scan_decode (utf8_bytes cp @ rest) True = (length (utf8_bytes cp), if cp < 0x10000 then 1 else 2, word_of_nat cp)
    \<and> nominal (hd (utf8_bytes cp @ rest)) = length (utf8_bytes cp)"
    using assms
  proof (cases rule: utf8_bytes_cases)
    case one
    then show ?thesis by (simp add: decode_nat Let_def nominal_def byte_of_def word_unat_eq_iff unat_of_nat)
  next
    case (two k x)
    have "unat (ucast (byte_of (0xC0 + k) AND 0x1F) :: u32) = k" using two by (simp add: byte_masks unat_low mod_add_eq [symmetric])
    then have "unat (push_bit 6 (ucast (byte_of (0xC0 + k) AND 0x1F)) OR ucast (byte_of (0x80 + x) AND 0x3F) :: u32) = cp"
      using two six_bit_step [of "ucast (byte_of (0xC0 + k) AND 0x1F)" x] by simp
    note u = u32_of_unat [OF this]
    have "cp < 0x10000" using two by simp
    then show ?thesis using two(2-5) u by (simp add: decode_nat Let_def nominal_def)
  next
    case (three k x1 x2)
    let ?a = "ucast (byte_of (0xE0 + k) AND 0x0F) :: u32" let ?b = "push_bit 6 ?a OR ucast (byte_of (0x80 + x1) AND 0x3F)"
    have "unat ?a = k" using three by (simp add: byte_masks unat_low mod_add_eq [symmetric])
    then have "unat ?b = k * 64 + x1" using three six_bit_step [of ?a x1] by simp
    then have "unat (push_bit 6 ?b OR ucast (byte_of (0x80 + x2) AND 0x3F)) = cp" using three six_bit_step [of ?b x2] by simp
    note u = u32_of_unat [OF this]
    have "cp < 0x10000" using three by simp
    then show ?thesis using three(2-6) u by (simp add: decode_nat Let_def nominal_def or3 del: push_bit_or)
  next
    case (four k x1 x2 x3)
    let ?a = "ucast (byte_of (0xF0 + k) AND 0x07) :: u32" let ?b = "push_bit 6 ?a OR ucast (byte_of (0x80 + x1) AND 0x3F)"
    let ?c = "push_bit 6 ?b OR ucast (byte_of (0x80 + x2) AND 0x3F)"
    have "unat ?a = k" using four by (simp add: byte_masks unat_low mod_add_eq [symmetric])
    then have "unat ?b = k * 64 + x1" using four six_bit_step [of ?a x1] by simp
    then have "unat ?c = (k * 64 + x1) * 64 + x2" using four six_bit_step [of ?b x2] by simp
    then have "unat (push_bit 6 ?c OR ucast (byte_of (0x80 + x3) AND 0x3F)) = cp" using four six_bit_step [of ?c x3] by simp
    note u = u32_of_unat [OF this]
    show ?thesis using four(2-7) u by (simp add: decode_nat Let_def nominal_def or4 del: push_bit_or)
  qed
  then show "utf16_scan_decode (utf8_bytes cp @ rest) True = (length (utf8_bytes cp), if cp < 0x10000 then 1 else 2, word_of_nat cp)"
    "nominal (hd (utf8_bytes cp @ rest)) = length (utf8_bytes cp)" by blast+
qed

lemma u16_of_unat: "unat (x :: u16) = n \<Longrightarrow> x = word_of_nat n"
  by auto

lemma char_units_utf8:
  assumes "cp < 0x110000"
  shows "char_units (utf8_bytes cp @ rest) = map word_of_nat (utf16_units cp)"
proof (cases "cp < 0x10000")
  case True
  have "(ucast (word_of_nat cp :: u32) :: u16) = word_of_nat cp"
    using True by (simp add: word_unat_eq_iff unsigned_ucast_eq take_bit_nat_eq_self unat_of_nat)
  then show ?thesis using True by (simp add: char_units_def decode_utf8 [OF assms] utf16_units_def)
next
  case False
  define d where "d = cp - 0x10000"
  have d: "cp = 0x10000 + d" "d < 0x100000" using False assms by (auto simp: d_def)
  have w: "(word_of_nat cp - 0x10000 :: u32) = word_of_nat d" by (simp add: d(1))
  have ud: "unat (word_of_nat d :: u32) = d" using d(2) by (simp add: unat_of_nat)
  have q: "d div 1024 < 1024" "d mod 1024 < 1024" using d(2) by (auto intro: less_mult_imp_div_less)
  have hi: "unat (0xD800 + drop_bit 10 (word_of_nat d) :: u32) = 0xD800 + d div 1024"
    using q(1) by (subst unat_add_fits) (simp_all add: unat_shr ud)
  have "(0x3FF :: u32) = mask 10" by (simp add: mask_eq_exp_minus_1)
  then have m: "unat (word_of_nat d AND 0x3FF :: u32) = d mod 1024" using unat_low [of 10 "word_of_nat d :: u32"] by (simp add: take_bit_eq_mask ud)
  have lo: "unat (0xDC00 + (word_of_nat d AND 0x3FF) :: u32) = 0xDC00 + d mod 1024"
    using q(2) by (subst unat_add_fits) (simp_all add: m)
  have c: "unat (ucast x :: u16) = unat x" if "unat x < 0x10000" for x :: u32
    using that by (simp add: unsigned_ucast_eq take_bit_nat_eq_self)
  have "(ucast (0xD800 + drop_bit 10 (word_of_nat d) :: u32) :: u16) = word_of_nat (0xD800 + d div 1024)"
    using q(1) by (intro u16_of_unat) (simp add: c hi)
  moreover have "(ucast (0xDC00 + (word_of_nat d AND 0x3FF) :: u32) :: u16) = word_of_nat (0xDC00 + d mod 1024)"
    using q(2) by (intro u16_of_unat) (simp add: c lo)
  ultimately show ?thesis using False by (simp add: char_units_def decode_utf8 [OF assms] utf16_units_def w d_def [symmetric])
qed

text \<open>The code units of a string are the UTF-16 form of its code points.\<close>

lemma wtf8_units:
  assumes "\<forall>cp \<in> set cps. cp < 0x110000"
  shows "complete (wtf8 cps)" "str_units (wtf8 cps) = map word_of_nat (concat (map utf16_units cps))"
proof -
  have "complete (wtf8 cps) \<and> str_units (wtf8 cps) = map word_of_nat (concat (map utf16_units cps))"
    using assms
  proof (induction cps)
    case (Cons cp cps)
    obtain c t where ct: "utf8_bytes cp = c # t" by (rule utf8_bytes_cons)
    note d = decode_utf8 [of cp "wtf8 cps"] char_units_utf8 [of cp "wtf8 cps"]
    have "nominal c = length (c # t)" using d(2) Cons.prems ct by simp
    then show ?case using Cons d ct by (simp add: wtf8_def)
  qed (simp add: wtf8_def)
  then show "complete (wtf8 cps)" "str_units (wtf8 cps) = map word_of_nat (concat (map utf16_units cps))" by blast+
qed

section \<open>The iterator\<close>

definition units_left :: "utf16_iterator \<Rightarrow> u16 list" where
  "units_left it = (if trailing_surrogate it \<noteq> 0 then [trailing_surrogate it] else []) @ str_units (it_next it)"

lemma low_surrogate_nonzero: "(ucast (0xDC00 + (x AND 0x3FF) :: u32) :: u16) \<noteq> 0"
proof -
  have "(0x3FF :: u32) = mask 10" by (simp add: mask_eq_exp_minus_1)
  then have m: "unat (x AND 0x3FF) < 1024" using unat_low [of 10 x] by (simp add: take_bit_eq_mask)
  then have "unat (0xDC00 + (x AND 0x3FF)) = 0xDC00 + unat (x AND 0x3FF)" by (subst unat_add_fits) simp_all
  then have "unat (ucast (0xDC00 + (x AND 0x3FF)) :: u16) = 0xDC00 + unat (x AND 0x3FF)"
    using m by (simp add: unsigned_ucast_eq take_bit_nat_eq_self)
  then show ?thesis by (metis add_is_0 unsigned_0 zero_neq_numeral)
qed

theorem next_code_unit_correct:
  "case utf16_next_code_unit it of
     (it1, None) \<Rightarrow> units_left it = [] \<and> it1 = it
   | (it1, Some u) \<Rightarrow> units_left it = u # units_left it1"
proof (cases "trailing_surrogate it = 0 \<and> it_next it \<noteq> []")
  case True
  then obtain c s where n: "it_next it = c # s" by (cases "it_next it") auto
  obtain a b cp where d: "utf16_scan_decode (c # s) True = (a, b, cp)" by (cases "utf16_scan_decode (c # s) True") auto
  show ?thesis using True low_surrogate_nonzero [of "cp - 0x10000"] by (simp add: utf16_next_code_unit_def units_left_def n d char_units_def Let_def)
qed (auto simp: utf16_next_code_unit_def units_left_def)

text \<open>What the first \<open>n\<close> calls return.\<close>

primrec iterator_calls :: "nat \<Rightarrow> utf16_iterator \<Rightarrow> u16 option list" where
  "iterator_calls 0 it = []"
| "iterator_calls (Suc n) it = (case utf16_next_code_unit it of (it1, r) \<Rightarrow> r # iterator_calls n it1)"

lemma iterator_calls_left:
  "iterator_calls n it = map Some (take n (units_left it)) @ replicate (n - length (units_left it)) None"
proof (induction n arbitrary: it)
  case (Suc n)
  obtain it1 r where c: "utf16_next_code_unit it = (it1, r)" by (cases "utf16_next_code_unit it")
  show ?case
  proof (cases r)
    case None
    then have "units_left it = []" "it1 = it" using next_code_unit_correct [of it] c by simp_all
    then show ?thesis using c None Suc.IH [of it] by simp
  next
    case (Some u)
    then have "units_left it = u # units_left it1" using next_code_unit_correct [of it] c by simp
    then show ?thesis using c Some Suc.IH [of it1] by simp
  qed
qed simp

theorem iterator_calls_text:
  assumes "\<forall>cp \<in> set cps. cp < 0x110000"
  shows "iterator_calls n (utf16_iterator_start (wtf8 cps)) =
    map (\<lambda>u. Some (word_of_nat u)) (take n (concat (map utf16_units cps))) @ replicate (n - length (concat (map utf16_units cps))) None"
proof -
  have "units_left (utf16_iterator_start (wtf8 cps)) = map word_of_nat (concat (map utf16_units cps))"
    by (simp only: units_left_def utf16_iterator_start_def utf16_iterator.select_convs wtf8_units(2) [OF assms] simp_thms if_False append_Nil)
  then show ?thesis unfolding iterator_calls_left by (simp add: take_map)
qed

end
