(* ===== verification/Utf16_Index.thy ===== *)
theory Utf16_Index
  imports Utf16_Scan
begin

text \<open>
  Random access to the code units of a string (\<open>src/src/utf8.c\<close>): a scan that resumes at the
  position of the previous access, and an index of one checkpoint every 64 code units for the
  strings accessed most recently. Both caches are keyed by the address of the string and
  dropped when the sweep epoch of the string collector changes. Addresses are natural numbers, 0 is
  \<open>NULL\<close>; pointers into a string are offsets from its start. An operation takes the string, the
  current epoch and the caches, and returns them updated with its result.
\<close>

unbundle bit_operations_syntax

record utf16_scan_cache =
  sc_epoch :: nat
  sc_str :: nat
  sc_byte_len :: nat
  sc_byte_pos :: nat
  sc_utf16_pos :: nat

record utf16_scan_cursor =
  c_str :: nat
  c_byte_len :: nat
  c_p :: nat
  c_utf16 :: nat

definition UTF16_INDEX_CHUNK :: nat where "UTF16_INDEX_CHUNK = 64"
definition UTF16_INDEX_WAYS :: nat where "UTF16_INDEX_WAYS = 8"
definition UTF16_INDEX_MIN_BYTES :: nat where "UTF16_INDEX_MIN_BYTES = 256"

text \<open>The checkpoints of an entry: byte offset and code units before it; empty for a \<open>NULL\<close> array.\<close>

record utf16_index_entry =
  ie_str :: nat
  ie_byte_len :: nat
  ie_points :: "(u32 \<times> u32) list"

record utf16_index_cache =
  ic_epoch :: nat
  ic_victim :: nat
  ic_mru :: nat
  ic_entries :: "utf16_index_entry list"

record utf16_caches =
  scan_cache :: utf16_scan_cache
  index_cache :: utf16_index_cache

section \<open>The scan cache\<close>

definition utf16_scan_cache_sync_epoch :: "nat \<Rightarrow> utf16_scan_cache \<Rightarrow> utf16_scan_cache" where
  "utf16_scan_cache_sync_epoch epoch cache =
     (if sc_epoch cache = epoch then cache
      else \<lparr>sc_epoch = epoch, sc_str = 0, sc_byte_len = 0, sc_byte_pos = 0, sc_utf16_pos = 0\<rparr>)"

definition utf16_scan_cursor_init :: "nat \<Rightarrow> utf16_scan_cache \<Rightarrow> nat \<Rightarrow> nat \<Rightarrow> utf16_scan_cache \<times> utf16_scan_cursor" where
  "utf16_scan_cursor_init epoch cache str byte_len =
     (utf16_scan_cache_sync_epoch epoch cache, \<lparr>c_str = str, c_byte_len = byte_len, c_p = 0, c_utf16 = 0\<rparr>)"

definition utf16_scan_cache_matches :: "utf16_scan_cache \<Rightarrow> utf16_scan_cursor \<Rightarrow> bool" where
  "utf16_scan_cache_matches cache cursor \<longleftrightarrow> sc_str cache = c_str cursor \<and> sc_byte_pos cache \<le> c_byte_len cursor"

definition utf16_scan_cursor_resume_utf16 :: "utf16_scan_cache \<Rightarrow> utf16_scan_cursor \<Rightarrow> nat \<Rightarrow> utf16_scan_cursor" where
  "utf16_scan_cursor_resume_utf16 cache cursor target_utf16 =
     (if \<not> utf16_scan_cache_matches cache cursor then cursor
      else if target_utf16 < sc_utf16_pos cache then cursor
      else cursor\<lparr>c_p := sc_byte_pos cache, c_utf16 := sc_utf16_pos cache\<rparr>)"

definition utf16_scan_cursor_resume_byte :: "utf16_scan_cache \<Rightarrow> utf16_scan_cursor \<Rightarrow> nat \<Rightarrow> utf16_scan_cursor" where
  "utf16_scan_cursor_resume_byte cache cursor target_byte =
     (if \<not> utf16_scan_cache_matches cache cursor then cursor
      else if target_byte < sc_byte_pos cache then cursor
      else cursor\<lparr>c_p := sc_byte_pos cache, c_utf16 := sc_utf16_pos cache\<rparr>)"

definition utf16_scan_cursor_store :: "utf16_scan_cursor \<Rightarrow> utf16_scan_cache \<Rightarrow> utf16_scan_cache" where
  "utf16_scan_cursor_store cursor cache =
     cache\<lparr>sc_str := c_str cursor, sc_byte_len := c_byte_len cursor, sc_byte_pos := c_p cursor, sc_utf16_pos := c_utf16 cursor\<rparr>"

definition utf16_scan_cursor_advance :: "bytes \<Rightarrow> utf16_scan_cursor \<Rightarrow> nat \<Rightarrow> utf16_scan_cursor \<times> bool" where
  "utf16_scan_cursor_advance s cursor bound_end =
     (let (slen, units, _) = utf16_scan_decode (drop (c_p cursor) s) False;
          next = c_p cursor + slen;
          cursor = cursor\<lparr>c_utf16 := c_utf16 cursor + units\<rparr>
      in if next > bound_end then (cursor\<lparr>c_p := bound_end\<rparr>, False) else (cursor\<lparr>c_p := next\<rparr>, True))"

section \<open>The index\<close>

definition empty_entry :: utf16_index_entry where
  "empty_entry = \<lparr>ie_str = 0, ie_byte_len = 0, ie_points = []\<rparr>"

definition utf16_index_sync_epoch :: "nat \<Rightarrow> utf16_index_cache \<Rightarrow> utf16_index_cache" where
  "utf16_index_sync_epoch epoch ic =
     (if ic_epoch ic = epoch then ic
      else \<lparr>ic_epoch = epoch, ic_victim = 0, ic_mru = 0, ic_entries = replicate UTF16_INDEX_WAYS empty_entry\<rparr>)"

function index_build_loop :: "bytes \<Rightarrow> nat \<Rightarrow> nat \<Rightarrow> (u32 \<times> u32) list \<Rightarrow> (u32 \<times> u32) list" where
  "index_build_loop s p utf16_pos points =
     (if p < length s then
        case utf16_scan_decode (drop p s) False of (slen, units, _) \<Rightarrow>
          index_build_loop s (p + slen) (utf16_pos + units)
            (if utf16_pos + units > length points * UTF16_INDEX_CHUNK then points @ [(word_of_nat p, word_of_nat utf16_pos)] else points)
      else points)"
  by pat_completeness auto
termination
proof (relation "measure (\<lambda>(s, p, _). length s - p)")
  fix s p pts a b c d
  assume p: "p < length (s :: bytes)" and d: "(a, b) = utf16_scan_decode (drop p s) False" "(c, d) = b"
  have "1 \<le> a" using d(1) nominal_range(1) [of "hd (drop p s)"] by (simp add: decode_null)
  then show "((s, p + a, u + c, pts'), s, p, u, pts) \<in> measure (\<lambda>(s, p, _). length s - p)" for u pts' using p by auto
qed simp

declare index_build_loop.simps [simp del]

definition utf16_index_max_points :: "nat \<Rightarrow> nat" where
  "utf16_index_max_points byte_len = byte_len div UTF16_INDEX_CHUNK + 2"

definition utf16_index_build :: "mem \<Rightarrow> utf16_index_entry \<Rightarrow> bytes \<Rightarrow> utf16_index_entry \<times> bool" where
  "utf16_index_build m entry s =
     (if \<not> heap_ok m (utf16_index_max_points (length s) * 8) then (entry, False)
      else (entry\<lparr>ie_points := index_build_loop s 0 0 [(0, 0)]\<rparr>, True))"

text \<open>The search of \<open>utf16_index_get\<close> over the ways other than the most recently used one.\<close>

fun find_way :: "utf16_index_entry list \<Rightarrow> nat \<Rightarrow> nat \<Rightarrow> nat \<Rightarrow> nat \<Rightarrow> nat option" where
  "find_way [] i mru str byte_len = None"
| "find_way (e # es) i mru str byte_len =
     (if i \<noteq> mru \<and> ie_str e = str \<and> ie_byte_len e = byte_len then Some i
      else find_way es (i + 1) mru str byte_len)"

definition utf16_index_get :: "mem \<Rightarrow> nat \<Rightarrow> utf16_index_cache \<Rightarrow> nat \<Rightarrow> bytes \<Rightarrow> utf16_index_cache \<times> (u32 \<times> u32) list option" where
  "utf16_index_get m epoch ic str s =
     (let byte_len = length s
      in if byte_len < UTF16_INDEX_MIN_BYTES \<or> byte_len > UINT32_MAX then (ic, None)
         else
           let ic = utf16_index_sync_epoch epoch ic;
               mru = ic_entries ic ! ic_mru ic;
               way = (if ie_str mru = str \<and> ie_byte_len mru = byte_len then Some (ic_mru ic)
                      else find_way (ic_entries ic) 0 (ic_mru ic) str byte_len)
           in case way of
                None \<Rightarrow>
                  (ic\<lparr>ic_entries := (ic_entries ic)[ic_victim ic := \<lparr>ie_str = str, ie_byte_len = byte_len, ie_points = []\<rparr>],
                      ic_mru := ic_victim ic,
                      ic_victim := (if ic_victim ic + 1 = UTF16_INDEX_WAYS then 0 else ic_victim ic + 1)\<rparr>, None)
              | Some i \<Rightarrow>
                  let ic = ic\<lparr>ic_mru := i\<rparr>; entry = ic_entries ic ! i
                  in if ie_points entry \<noteq> [] then (ic, Some (ie_points entry))
                     else
                       (case utf16_index_build m entry s of
                          (entry, False) \<Rightarrow> (ic, None)
                        | (entry, True) \<Rightarrow> (ic\<lparr>ic_entries := (ic_entries ic)[i := entry]\<rparr>, Some (ie_points entry))))"

primrec seek_point :: "(u32 \<times> u32) list \<Rightarrow> nat \<Rightarrow> nat \<Rightarrow> nat" where
  "seek_point points target 0 = 0"
| "seek_point points target (Suc point) =
     (if unat (snd (points ! Suc point)) > target then seek_point points target point else Suc point)"

definition utf16_index_seek :: "(u32 \<times> u32) list \<Rightarrow> utf16_scan_cursor \<Rightarrow> nat \<Rightarrow> utf16_scan_cursor" where
  "utf16_index_seek points cursor target =
     (let point = target div UTF16_INDEX_CHUNK;
          point = (if point \<ge> length points then length points - 1 else point);
          checkpoint = points ! seek_point points target point
      in if unat (snd checkpoint) \<le> c_utf16 cursor then cursor
         else cursor\<lparr>c_p := unat (fst checkpoint), c_utf16 := unat (snd checkpoint)\<rparr>)"

definition utf16_scan_cursor_resume_indexed ::
  "mem \<Rightarrow> nat \<Rightarrow> utf16_caches \<Rightarrow> bytes \<Rightarrow> utf16_scan_cursor \<Rightarrow> nat \<Rightarrow> utf16_caches \<times> utf16_scan_cursor" where
  "utf16_scan_cursor_resume_indexed m epoch ca s cursor target =
     (let cursor = utf16_scan_cursor_resume_utf16 (scan_cache ca) cursor target
      in if target \<le> c_utf16 cursor \<or> target - c_utf16 cursor \<le> UTF16_INDEX_CHUNK then (ca, cursor)
         else
           (case utf16_index_get m epoch (index_cache ca) (c_str cursor) s of
              (ic, index) \<Rightarrow>
                (ca\<lparr>index_cache := ic\<rparr>,
                 case index of None \<Rightarrow> cursor | Some points \<Rightarrow> utf16_index_seek points cursor target)))"

section \<open>The operations\<close>

lemma advance_progress: "c_p cursor < bound \<Longrightarrow> c_p cursor < c_p (fst (utf16_scan_cursor_advance s cursor bound))"
  using nominal_range(1) [of "hd (drop (c_p cursor) s)"] by (simp add: utf16_scan_cursor_advance_def decode_null Let_def)

lemma null_progress: "utf16_scan_decode p False = (slen, units, cp) \<Longrightarrow> 0 < slen"
  using nominal_range(1) [of "hd p"] by (auto simp: decode_null)

lemma cp_progress: "utf16_scan_decode p True = (slen, units, cp) \<Longrightarrow> 0 < slen"
  using decode_bytes_pos [of p] by simp

text \<open>The value of a C \<open>int\<close> converted from a \<open>size_t\<close>.\<close>

definition c_int :: "nat \<Rightarrow> int" where
  "c_int n = sint (word_of_nat n :: u32)"

function strlen_loop :: "bytes \<Rightarrow> utf16_scan_cursor \<Rightarrow> utf16_scan_cursor" where
  "strlen_loop s cursor =
     (if c_p cursor < c_byte_len cursor then strlen_loop s (fst (utf16_scan_cursor_advance s cursor (c_byte_len cursor))) else cursor)"
  by pat_completeness auto
termination
proof (relation "measure (\<lambda>(s, cursor). c_byte_len cursor - c_p cursor)")
  fix s and cursor :: utf16_scan_cursor
  assume c: "c_p cursor < c_byte_len cursor"
  have "c_byte_len (fst (utf16_scan_cursor_advance s cursor (c_byte_len cursor))) = c_byte_len cursor"
    by (simp add: utf16_scan_cursor_advance_def decode_null Let_def)
  then show "((s, fst (utf16_scan_cursor_advance s cursor (c_byte_len cursor))), s, cursor) \<in> measure (\<lambda>(s, cursor). c_byte_len cursor - c_p cursor)"
    using advance_progress [OF c, of s] c by simp
qed simp

definition utf16_strlen :: "nat \<Rightarrow> utf16_caches \<Rightarrow> nat \<Rightarrow> bytes \<Rightarrow> utf16_caches \<times> nat" where
  "utf16_strlen epoch ca str s =
     (let (sc, cursor) = utf16_scan_cursor_init epoch (scan_cache ca) str (length s)
      in (ca\<lparr>scan_cache := sc\<rparr>, c_utf16 (strlen_loop s cursor)))"

function advance_to :: "bytes \<Rightarrow> nat \<Rightarrow> utf16_scan_cursor \<Rightarrow> utf16_scan_cursor" where
  "advance_to s utf16_idx cursor =
     (if c_p cursor < c_byte_len cursor \<and> c_utf16 cursor < utf16_idx
      then advance_to s utf16_idx (fst (utf16_scan_cursor_advance s cursor (c_byte_len cursor))) else cursor)"
  by pat_completeness auto
termination
proof (relation "measure (\<lambda>(s, i, cursor). c_byte_len cursor - c_p cursor)")
  fix s i and cursor :: utf16_scan_cursor
  assume c: "c_p cursor < c_byte_len cursor \<and> c_utf16 cursor < i"
  have "c_byte_len (fst (utf16_scan_cursor_advance s cursor (c_byte_len cursor))) = c_byte_len cursor"
    by (simp add: utf16_scan_cursor_advance_def decode_null Let_def)
  then show "((s, i, fst (utf16_scan_cursor_advance s cursor (c_byte_len cursor))), s, i, cursor) \<in> measure (\<lambda>(s, i, cursor). c_byte_len cursor - c_p cursor)"
    using advance_progress [of cursor "c_byte_len cursor" s] conjunct1 [OF c] by simp
qed simp

text \<open>
  \<open>utf16_index_to_byte_offset\<close>: the offset, or -1, and \<open>*out_char_bytes\<close> when it is written.
\<close>

definition utf16_index_to_byte_offset ::
  "mem \<Rightarrow> nat \<Rightarrow> utf16_caches \<Rightarrow> nat \<Rightarrow> flat_string \<Rightarrow> nat \<Rightarrow> utf16_caches \<times> flat_string \<times> int \<times> nat option" where
  "utf16_index_to_byte_offset m epoch ca str flat utf16_idx =
     (let (flat, is_ascii) = str_is_ascii flat; s = flat_bytes flat; byte_len = length s
      in if is_ascii then
           if utf16_idx > byte_len then (ca, flat, -1, None)
           else (ca, flat, c_int utf16_idx, Some (if utf16_idx < byte_len then 1 else 0))
         else
           let (sc, cursor) = utf16_scan_cursor_init epoch (scan_cache ca) str byte_len;
               (ca, cursor) = utf16_scan_cursor_resume_indexed m epoch (ca\<lparr>scan_cache := sc\<rparr>) s cursor utf16_idx;
               cursor = advance_to s utf16_idx cursor;
               stored = ca\<lparr>scan_cache := utf16_scan_cursor_store cursor (scan_cache ca)\<rparr>
           in if c_p cursor \<ge> byte_len then
                if c_utf16 cursor = utf16_idx then (stored, flat, c_int byte_len, Some 0) else (stored, flat, -1, None)
              else
                let (slen, units, _) = utf16_scan_decode (drop (c_p cursor) s) False
                in (stored, flat, c_int (c_p cursor), Some slen))"

function floor_loop :: "bytes \<Rightarrow> nat \<Rightarrow> utf16_scan_cursor \<Rightarrow> utf16_scan_cursor" where
  "floor_loop s utf16_idx cursor =
     (if c_p cursor < c_byte_len cursor \<and> c_utf16 cursor < utf16_idx then
        case utf16_scan_decode (drop (c_p cursor) s) False of (slen, units, _) \<Rightarrow>
          if c_utf16 cursor + units > utf16_idx then cursor
          else floor_loop s utf16_idx (cursor\<lparr>c_p := c_p cursor + slen, c_utf16 := c_utf16 cursor + units\<rparr>)
      else cursor)"
  by pat_completeness auto
termination
  by (relation "measure (\<lambda>(s, i, cursor). c_byte_len cursor - c_p cursor)") (auto dest!: null_progress [OF sym])

definition utf16_index_to_byte_offset_floor ::
  "nat \<Rightarrow> utf16_caches \<Rightarrow> nat \<Rightarrow> flat_string \<Rightarrow> nat \<Rightarrow> utf16_caches \<times> flat_string \<times> nat" where
  "utf16_index_to_byte_offset_floor epoch ca str flat utf16_idx =
     (let (flat, is_ascii) = str_is_ascii flat; s = flat_bytes flat; byte_len = length s
      in if is_ascii then (ca, flat, if utf16_idx > byte_len then byte_len else utf16_idx)
         else
           let (sc, cursor) = utf16_scan_cursor_init epoch (scan_cache ca) str byte_len;
               cursor = floor_loop s utf16_idx (utf16_scan_cursor_resume_utf16 sc cursor utf16_idx)
           in (ca\<lparr>scan_cache := utf16_scan_cursor_store cursor sc\<rparr>, flat, c_p cursor))"

text \<open>
  \<open>utf16_range_to_byte_range\<close>: the surrogates split off at the ends (0 for none) and the bytes between.
\<close>

record utf16_range_splits =
  prefix_surrogate :: u16
  suffix_surrogate :: u16

function range_start_loop :: "bytes \<Rightarrow> nat \<Rightarrow> utf16_scan_cursor \<Rightarrow> utf16_scan_cursor \<times> u16" where
  "range_start_loop s utf16_start cursor =
     (if c_p cursor < c_byte_len cursor \<and> c_utf16 cursor < utf16_start then
        case utf16_scan_decode (drop (c_p cursor) s) False of (slen, units, _) \<Rightarrow>
          if units = 2 \<and> c_utf16 cursor + 1 = utf16_start then
            (case utf16_scan_decode (drop (c_p cursor) s) True of (slen, units, cp) \<Rightarrow>
               (cursor\<lparr>c_p := c_p cursor + slen, c_utf16 := c_utf16 cursor + units\<rparr>, ucast (0xDC00 + ((cp - 0x10000) AND 0x3FF))))
          else range_start_loop s utf16_start (cursor\<lparr>c_p := c_p cursor + slen, c_utf16 := c_utf16 cursor + units\<rparr>)
      else (cursor, 0))"
  by pat_completeness auto
termination
  by (relation "measure (\<lambda>(s, i, cursor). c_byte_len cursor - c_p cursor)") (auto dest!: null_progress [OF sym])

function range_end_loop :: "bytes \<Rightarrow> nat \<Rightarrow> utf16_scan_cursor \<Rightarrow> utf16_scan_cursor \<times> u16" where
  "range_end_loop s utf16_end cursor =
     (if c_p cursor < c_byte_len cursor \<and> c_utf16 cursor < utf16_end then
        case utf16_scan_decode (drop (c_p cursor) s) False of (slen, units, _) \<Rightarrow>
          if units = 2 \<and> c_utf16 cursor + 1 = utf16_end then
            (case utf16_scan_decode (drop (c_p cursor) s) True of (slen, units, cp) \<Rightarrow>
               (cursor, ucast (0xD800 + drop_bit 10 (cp - 0x10000))))
          else range_end_loop s utf16_end (cursor\<lparr>c_p := c_p cursor + slen, c_utf16 := c_utf16 cursor + units\<rparr>)
      else (cursor, 0))"
  by pat_completeness auto
termination
  by (relation "measure (\<lambda>(s, i, cursor). c_byte_len cursor - c_p cursor)") (auto dest!: null_progress [OF sym])

definition utf16_range_to_byte_range ::
  "mem \<Rightarrow> nat \<Rightarrow> utf16_caches \<Rightarrow> nat \<Rightarrow> flat_string \<Rightarrow> nat \<Rightarrow> nat \<Rightarrow> utf16_caches \<times> flat_string \<times> nat \<times> nat \<times> utf16_range_splits" where
  "utf16_range_to_byte_range m epoch ca str flat utf16_start utf16_end =
     (let splits = \<lparr>prefix_surrogate = 0, suffix_surrogate = 0\<rparr>
      in if utf16_start \<ge> utf16_end then (ca, flat, 0, 0, splits)
         else
           let (flat, is_ascii) = str_is_ascii flat; s = flat_bytes flat; byte_len = length s
           in if is_ascii then
                (ca, flat, if utf16_start \<le> byte_len then utf16_start else byte_len,
                 if utf16_end \<le> byte_len then utf16_end else byte_len, splits)
              else
                let (sc, cursor) = utf16_scan_cursor_init epoch (scan_cache ca) str byte_len;
                    (ca, cursor) = utf16_scan_cursor_resume_indexed m epoch (ca\<lparr>scan_cache := sc\<rparr>) s cursor utf16_start;
                    (cursor, prefix) = range_start_loop s utf16_start cursor;
                    byte_start = c_p cursor;
                    (cursor, suffix) = range_end_loop s utf16_end cursor
                in (ca\<lparr>scan_cache := utf16_scan_cursor_store cursor (scan_cache ca)\<rparr>, flat, byte_start, c_p cursor,
                    \<lparr>prefix_surrogate = prefix, suffix_surrogate = suffix\<rparr>))"

function offset_loop :: "bytes \<Rightarrow> nat \<Rightarrow> utf16_scan_cursor \<Rightarrow> utf16_scan_cursor \<times> bool" where
  "offset_loop s bound_end cursor =
     (if c_p cursor < bound_end then
        case utf16_scan_cursor_advance s cursor bound_end of
          (cursor, True) \<Rightarrow> offset_loop s bound_end cursor
        | (cursor, False) \<Rightarrow> (cursor, False)
      else (cursor, True))"
  by pat_completeness auto
termination
proof (relation "measure (\<lambda>(s, b, cursor). b - c_p cursor)")
  fix s b a r and cursor cursor2 :: utf16_scan_cursor
  assume c: "c_p cursor < b" and a: "(cursor2, r) = utf16_scan_cursor_advance s cursor b"
  show "((s, b, cursor2), s, b, cursor) \<in> measure (\<lambda>(s, b, cursor). b - c_p cursor)"
    using advance_progress [OF c, of s] c unfolding a [symmetric] by simp
qed simp

definition byte_offset_to_utf16 ::
  "nat \<Rightarrow> utf16_caches \<Rightarrow> nat \<Rightarrow> flat_string \<Rightarrow> nat \<Rightarrow> utf16_caches \<times> flat_string \<times> nat" where
  "byte_offset_to_utf16 epoch ca str flat byte_off =
     (let (flat, is_ascii) = str_is_ascii flat; s = flat_bytes flat
      in if is_ascii then (ca, flat, byte_off)
         else
           let (sc, cursor) = utf16_scan_cursor_init epoch (scan_cache ca) str byte_off;
               (cursor, ended_on_boundary) = offset_loop s byte_off (utf16_scan_cursor_resume_byte sc cursor byte_off)
           in (ca\<lparr>scan_cache := (if ended_on_boundary then utf16_scan_cursor_store cursor sc else sc)\<rparr>, flat, c_utf16 cursor))"

function code_unit_loop :: "bytes \<Rightarrow> nat \<Rightarrow> utf16_scan_cursor \<Rightarrow> utf16_scan_cursor \<times> u32" where
  "code_unit_loop s utf16_idx cursor =
     (if c_p cursor < c_byte_len cursor then
        case utf16_scan_decode (drop (c_p cursor) s) True of (slen, units, cp) \<Rightarrow>
          if c_utf16 cursor = utf16_idx then (cursor, if units = 2 then 0xD800 + drop_bit 10 (cp - 0x10000) else cp)
          else if units = 2 \<and> c_utf16 cursor + 1 = utf16_idx then (cursor, 0xDC00 + ((cp - 0x10000) AND 0x3FF))
          else code_unit_loop s utf16_idx (cursor\<lparr>c_p := c_p cursor + slen, c_utf16 := c_utf16 cursor + units\<rparr>)
      else (cursor, 0xFFFFFFFF))"
  by pat_completeness auto
termination
  by (relation "measure (\<lambda>(s, i, cursor). c_byte_len cursor - c_p cursor)") (auto dest!: cp_progress [OF sym])

definition utf16_code_unit_at ::
  "mem \<Rightarrow> nat \<Rightarrow> utf16_caches \<Rightarrow> nat \<Rightarrow> flat_string \<Rightarrow> nat \<Rightarrow> utf16_caches \<times> flat_string \<times> u32" where
  "utf16_code_unit_at m epoch ca str flat utf16_idx =
     (let (flat, is_ascii) = str_is_ascii flat; s = flat_bytes flat; byte_len = length s
      in if is_ascii then (ca, flat, if utf16_idx \<ge> byte_len then 0xFFFFFFFF else ucast (s ! utf16_idx))
         else
           let (sc, cursor) = utf16_scan_cursor_init epoch (scan_cache ca) str byte_len;
               cursor = utf16_scan_cursor_resume_utf16 sc cursor utf16_idx;
               ca = ca\<lparr>scan_cache := sc\<rparr>;
               (ca, cursor) =
                 (if utf16_idx > c_utf16 cursor \<and> utf16_idx - c_utf16 cursor > UTF16_INDEX_CHUNK then
                    (case utf16_index_get m epoch (index_cache ca) str s of
                       (ic, index) \<Rightarrow>
                         (ca\<lparr>index_cache := ic\<rparr>,
                          case index of None \<Rightarrow> cursor | Some points \<Rightarrow> utf16_index_seek points cursor utf16_idx))
                  else (ca, cursor));
               (cursor, result) = code_unit_loop s utf16_idx cursor
           in (ca\<lparr>scan_cache := utf16_scan_cursor_store cursor (scan_cache ca)\<rparr>, flat, result))"

function codepoint_loop :: "bytes \<Rightarrow> nat \<Rightarrow> utf16_scan_cursor \<Rightarrow> utf16_scan_cursor \<times> u32" where
  "codepoint_loop s utf16_idx cursor =
     (if c_p cursor < c_byte_len cursor then
        case utf16_scan_decode (drop (c_p cursor) s) True of (slen, units, cp) \<Rightarrow>
          if c_utf16 cursor = utf16_idx then (cursor, cp)
          else if units = 2 \<and> c_utf16 cursor + 1 = utf16_idx then (cursor, 0xDC00 + ((cp - 0x10000) AND 0x3FF))
          else codepoint_loop s utf16_idx (cursor\<lparr>c_p := c_p cursor + slen, c_utf16 := c_utf16 cursor + units\<rparr>)
      else (cursor, 0xFFFFFFFF))"
  by pat_completeness auto
termination
  by (relation "measure (\<lambda>(s, i, cursor). c_byte_len cursor - c_p cursor)") (auto dest!: cp_progress [OF sym])

definition utf16_codepoint_at ::
  "mem \<Rightarrow> nat \<Rightarrow> utf16_caches \<Rightarrow> nat \<Rightarrow> flat_string \<Rightarrow> nat \<Rightarrow> utf16_caches \<times> flat_string \<times> u32" where
  "utf16_codepoint_at m epoch ca str flat utf16_idx =
     (let (flat, is_ascii) = str_is_ascii flat; s = flat_bytes flat; byte_len = length s
      in if is_ascii then (ca, flat, if utf16_idx \<ge> byte_len then 0xFFFFFFFF else ucast (s ! utf16_idx))
         else
           let (sc, cursor) = utf16_scan_cursor_init epoch (scan_cache ca) str byte_len;
               (ca, cursor) = utf16_scan_cursor_resume_indexed m epoch (ca\<lparr>scan_cache := sc\<rparr>) s cursor utf16_idx;
               (cursor, result) = codepoint_loop s utf16_idx cursor
           in (ca\<lparr>scan_cache := utf16_scan_cursor_store cursor (scan_cache ca)\<rparr>, flat, result))"

text \<open>\<open>flat_utf16_len\<close> of \<open>src/src/ant.c\<close>: the length of a flat string, computed once.\<close>

definition flat_utf16_len :: "nat \<Rightarrow> utf16_caches \<Rightarrow> nat \<Rightarrow> flat_string \<Rightarrow> utf16_caches \<times> flat_string \<times> u64" where
  "flat_utf16_len epoch ca str flat =
     (let ascii_state = str_flat_ascii_state flat;
          (flat, ascii_state) =
            (if ascii_state = STR_ASCII_UNKNOWN then
               let ascii_state = str_detect_ascii_bytes (take (unat (flat_len flat)) (flat_bytes flat))
               in (str_flat_init_meta flat ascii_state, ascii_state)
             else (flat, ascii_state))
      in if ascii_state = STR_ASCII_YES then (ca, flat, flat_len flat)
         else
           let cached = str_flat_cached_utf16_len flat
           in if cached = STR_UTF16_LEN_UNKNOWN then
                case utf16_strlen epoch ca str (take (unat (flat_len flat)) (flat_bytes flat)) of
                  (ca, n) \<Rightarrow> (ca, str_flat_set_utf16_len flat (word_of_nat n), word_of_nat n)
              else (ca, flat, cached))"

declare strlen_loop.simps [simp del] advance_to.simps [simp del] floor_loop.simps [simp del] range_start_loop.simps [simp del]
  range_end_loop.simps [simp del] offset_loop.simps [simp del] code_unit_loop.simps [simp del] codepoint_loop.simps [simp del]

end
