(* ===== verification/Utf16_Access.thy ===== *)
theory Utf16_Access
  imports Utf16_Index
begin

text \<open>
  The caches of \<open>Utf16_Index\<close> hold positions of the strings they name, every operation keeps it so,
  and every operation therefore returns what a scan from the start of the string returns: its
  result is a function of the code points of the string alone.
\<close>

unbundle bit_operations_syntax

section \<open>Positions of a string\<close>

definition cps_ok :: "nat list \<Rightarrow> bool" where
  "cps_ok cps \<longleftrightarrow> (\<forall>cp \<in> set cps. cp < 0x110000)"

definition units :: "nat list \<Rightarrow> nat list" where
  "units cps = concat (map utf16_units cps)"

abbreviation blen :: "nat list \<Rightarrow> nat" where "blen cps \<equiv> length (wtf8 cps)"
abbreviation ulen :: "nat list \<Rightarrow> nat" where "ulen cps \<equiv> length (units cps)"

lemma wtf8_simps [simp]: "wtf8 [] = []" "wtf8 (cp # cps) = utf8_bytes cp @ wtf8 cps" "wtf8 (a @ b) = wtf8 a @ wtf8 b"
  by (simp_all add: wtf8_def)

lemma units_simps [simp]: "units [] = []" "units (cp # cps) = utf16_units cp @ units cps" "units (a @ b) = units a @ units b"
  by (simp_all add: units_def)

lemma cps_ok_simps [simp]: "cps_ok []" "cps_ok (cp # cps) \<longleftrightarrow> cp < 0x110000 \<and> cps_ok cps" "cps_ok (a @ b) \<longleftrightarrow> cps_ok a \<and> cps_ok b"
  by (auto simp: cps_ok_def)

lemma utf16_units_length: "length (utf16_units cp) = (if cp < 0x10000 then 1 else 2)"
  by (simp add: utf16_units_def)

lemma utf8_bytes_pos [simp]: "utf8_bytes cp \<noteq> []"
  by (simp add: utf8_bytes_def)

definition at :: "nat list \<Rightarrow> utf16_scan_cursor \<Rightarrow> bool" where
  "at d cur \<longleftrightarrow> c_p cur = blen d \<and> c_utf16 cur = ulen d"

lemma decode_at:
  assumes "cp < 0x110000"
  shows "utf16_scan_decode (utf8_bytes cp @ rest) True = (length (utf8_bytes cp), length (utf16_units cp), word_of_nat cp)"
    "\<exists>x. utf16_scan_decode (utf8_bytes cp @ rest) False = (length (utf8_bytes cp), length (utf16_units cp), x)"
proof -
  have f: "length (utf8_bytes cp) = 4 \<longleftrightarrow> \<not> cp < 0x10000" by (simp add: utf8_bytes_def)
  show "utf16_scan_decode (utf8_bytes cp @ rest) True = (length (utf8_bytes cp), length (utf16_units cp), word_of_nat cp)"
    by (simp only: decode_utf8 [OF assms] utf16_units_length)
  show "\<exists>x. utf16_scan_decode (utf8_bytes cp @ rest) False = (length (utf8_bytes cp), length (utf16_units cp), x)"
    by (simp only: decode_null decode_utf8 [OF assms] f utf16_units_length) simp
qed

lemma bnd_prefix:
  assumes "bnd (wtf8 cps) b u" "cps_ok cps"
  obtains d r where "cps = d @ r" "b = blen d" "u = ulen d"
proof -
  have "\<exists>d r. cps = d @ r \<and> b = blen d \<and> u = ulen d" using assms(1)
  proof induction
    case (step b u)
    then obtain d r where d: "cps = d @ r" "b = blen d" "u = ulen d" by blast
    then obtain cp r' where r: "r = cp # r'" using step.hyps(2) by (cases r) auto
    have cp: "cp < 0x110000" using assms(2) d(1) r by simp
    have n: "wtf8 cps ! b = hd (utf8_bytes cp @ wtf8 r')" using d r by (simp add: nth_append hd_conv_nth)
    then have "nominal (wtf8 cps ! b) = length (utf8_bytes cp)" using decode_utf8(2) [OF cp] by simp
    moreover have "length (utf8_bytes cp) = 4 \<longleftrightarrow> \<not> cp < 0x10000" by (simp add: utf8_bytes_def)
    ultimately have "b + nominal (wtf8 cps ! b) = blen (d @ [cp])" "u + unit_count (wtf8 cps ! b) = ulen (d @ [cp])"
      using d by (simp_all add: unit_count_def utf16_units_length)
    then show ?case using d r by (intro exI [of _ "d @ [cp]"] exI [of _ r']) simp
  qed (intro exI [of _ "[]"] exI [of _ cps], simp)
  then show thesis using that by blast
qed

lemma prefix_bnd: "cps_ok (d @ r) \<Longrightarrow> bnd (wtf8 (d @ r)) (blen d) (ulen d)"
proof (induction d arbitrary: r rule: rev_induct)
  case (snoc cp d)
  have cp: "cp < 0x110000" using snoc.prems by simp
  have i: "bnd (wtf8 (d @ cp # r)) (blen d) (ulen d)" using snoc.IH [of "cp # r"] snoc.prems by simp
  have n: "wtf8 (d @ cp # r) ! blen d = hd (utf8_bytes cp @ wtf8 r)" by (simp add: nth_append hd_conv_nth)
  have "length (utf8_bytes cp) = 4 \<longleftrightarrow> \<not> cp < 0x10000" by (simp add: utf8_bytes_def)
  then have "bnd (wtf8 (d @ cp # r)) (blen d + length (utf8_bytes cp)) (ulen d + length (utf16_units cp))"
    using bnd.step [OF i] decode_utf8(2) [OF cp, of "wtf8 r"] unfolding n unit_count_def utf16_units_length by (simp split: if_splits)
  then show ?case by simp
qed (simp add: bnd.start)

section \<open>The invariant of the caches\<close>

definition scan_ok :: "(nat \<Rightarrow> bytes option) \<Rightarrow> nat \<Rightarrow> utf16_scan_cache \<Rightarrow> bool" where
  "scan_ok strs epoch sc \<longleftrightarrow>
     sc_epoch sc \<le> epoch
     \<and> (sc_epoch sc = epoch \<longrightarrow> sc_str sc \<noteq> 0 \<longrightarrow> (\<exists>s. strs (sc_str sc) = Some s \<and> bnd s (sc_byte_pos sc) (sc_utf16_pos sc)))"

definition points_ok :: "bytes \<Rightarrow> (u32 \<times> u32) list \<Rightarrow> bool" where
  "points_ok s pts \<longleftrightarrow> pts \<noteq> [] \<and> pts ! 0 = (0, 0) \<and> (\<forall>(b, u) \<in> set pts. bnd s (unat b) (unat u))"

definition entry_ok :: "(nat \<Rightarrow> bytes option) \<Rightarrow> utf16_index_entry \<Rightarrow> bool" where
  "entry_ok strs e \<longleftrightarrow>
     (ie_str e \<noteq> 0 \<longrightarrow>
        (\<exists>s. strs (ie_str e) = Some s \<and> (ie_byte_len e = length s \<longrightarrow> ie_points e \<noteq> [] \<longrightarrow> points_ok s (ie_points e))))"

definition index_ok :: "(nat \<Rightarrow> bytes option) \<Rightarrow> nat \<Rightarrow> utf16_index_cache \<Rightarrow> bool" where
  "index_ok strs epoch ic \<longleftrightarrow>
     ic_epoch ic \<le> epoch \<and> length (ic_entries ic) = UTF16_INDEX_WAYS \<and> ic_victim ic < UTF16_INDEX_WAYS \<and> ic_mru ic < UTF16_INDEX_WAYS
     \<and> (ic_epoch ic = epoch \<longrightarrow> (\<forall>e \<in> set (ic_entries ic). entry_ok strs e))"

definition caches_ok :: "(nat \<Rightarrow> bytes option) \<Rightarrow> nat \<Rightarrow> utf16_caches \<Rightarrow> bool" where
  "caches_ok strs epoch ca \<longleftrightarrow> scan_ok strs epoch (scan_cache ca) \<and> index_ok strs epoch (index_cache ca)"

lemma build_points:
  "bnd s p u \<Longrightarrow> length s \<le> UINT32_MAX \<Longrightarrow> points_ok s pts \<Longrightarrow> points_ok s (index_build_loop s p u pts)"
proof (induction s p u pts rule: index_build_loop.induct)
  case (1 s p u pts)
  show ?case
  proof (cases "p < length s")
    case True
    then have h: "hd (drop p s) = s ! p" by (simp add: hd_drop_conv_nth)
    have d: "utf16_scan_decode (drop p s) False = (nominal (s ! p), unit_count (s ! p), if nominal (s ! p) = 1 then ucast (s ! p) else 0)"
      unfolding decode_null h by (simp add: unit_count_def)
    have "unat (word_of_nat p :: u32) = p" "unat (word_of_nat u :: u32) = u"
      using True 1(3) bnd_length [OF 1(2)] by (simp_all add: unat_of_nat UINT32_MAX_def)
    then have "points_ok s (if u + unit_count (s ! p) > length pts * UTF16_INDEX_CHUNK then pts @ [(word_of_nat p, word_of_nat u)] else pts)"
      using 1(2,4) by (auto simp: points_ok_def nth_append)
    then show ?thesis using 1(1) [OF True d [symmetric] refl] bnd.step [OF 1(2) True] 1(3)
      by (simp add: index_build_loop.simps [of s p] True d)
  qed (use 1 in \<open>simp add: index_build_loop.simps [of s p]\<close>)
qed

text \<open>The checkpoints fit the array that \<open>utf16_index_build\<close> allocates.\<close>

lemma build_bound:
  "bnd s p u \<Longrightarrow> length pts \<le> length s div UTF16_INDEX_CHUNK + 1 \<Longrightarrow> length (index_build_loop s p u pts) < utf16_index_max_points (length s)"
proof (induction s p u pts rule: index_build_loop.induct)
  case (1 s p u pts)
  show ?case
  proof (cases "p < length s")
    case True
    then have h: "hd (drop p s) = s ! p" by (simp add: hd_drop_conv_nth)
    have d: "utf16_scan_decode (drop p s) False = (nominal (s ! p), unit_count (s ! p), if nominal (s ! p) = 1 then ucast (s ! p) else 0)"
      unfolding decode_null h by (simp add: unit_count_def)
    let ?pts = "if u + unit_count (s ! p) > length pts * UTF16_INDEX_CHUNK then pts @ [(word_of_nat p, word_of_nat u)] else pts"
    have "length ?pts \<le> length s div UTF16_INDEX_CHUNK + 1"
    proof (cases "u + unit_count (s ! p) > length pts * UTF16_INDEX_CHUNK")
      case over: True
      have "length pts * UTF16_INDEX_CHUNK \<le> length s" using over True bnd_length [OF 1(2)] by (simp add: unit_count_def split: if_splits)
      then have "length pts \<le> length s div UTF16_INDEX_CHUNK" by (simp add: less_eq_div_iff_mult_less_eq UTF16_INDEX_CHUNK_def)
      then show ?thesis using over by simp
    qed (use 1(3) in simp)
    then show ?thesis using 1(1) [OF True d [symmetric] refl] bnd.step [OF 1(2) True]
      by (simp add: index_build_loop.simps [of s p] True d)
  qed (use 1(3) in \<open>simp add: index_build_loop.simps [of s p] utf16_index_max_points_def\<close>)
qed

section \<open>Resuming\<close>

lemma find_way_some: "find_way es i mru str n = Some k \<Longrightarrow> i \<le> k \<and> k < i + length es \<and> ie_str (es ! (k - i)) = str \<and> ie_byte_len (es ! (k - i)) = n"
proof (induction es arbitrary: i)
  case (Cons e es)
  show ?case
  proof (cases "i \<noteq> mru \<and> ie_str e = str \<and> ie_byte_len e = n")
    case False
    then have k: "find_way es (i + 1) mru str n = Some k" using Cons.prems by auto
    note c = Cons.IH [OF k]
    then have "k - i = Suc (k - (i + 1))" by linarith
    then show ?thesis using c by simp
  qed (use Cons.prems in simp)
qed simp

lemma sync_index_ok: "index_ok strs epoch ic \<Longrightarrow> index_ok strs epoch (utf16_index_sync_epoch epoch ic) \<and> ic_epoch (utf16_index_sync_epoch epoch ic) = epoch"
  by (simp add: index_ok_def utf16_index_sync_epoch_def entry_ok_def empty_entry_def UTF16_INDEX_WAYS_def)

lemma index_get_ok:
  assumes "index_ok strs epoch ic" "str \<noteq> 0" "strs str = Some s" "utf16_index_get m epoch ic str s = (ic', r)"
  shows "index_ok strs epoch ic' \<and> (\<forall>pts. r = Some pts \<longrightarrow> points_ok s pts)"
proof (cases "length s < UTF16_INDEX_MIN_BYTES \<or> length s > UINT32_MAX")
  case True
  then show ?thesis using assms by (auto simp: utf16_index_get_def)
next
  case False
  define ic1 where "ic1 = utf16_index_sync_epoch epoch ic"
  have ok: "index_ok strs epoch ic1" "ic_epoch ic1 = epoch" using sync_index_ok [OF assms(1)] by (simp_all add: ic1_def)
  define way where "way = (if ie_str (ic_entries ic1 ! ic_mru ic1) = str \<and> ie_byte_len (ic_entries ic1 ! ic_mru ic1) = length s then Some (ic_mru ic1)
      else find_way (ic_entries ic1) 0 (ic_mru ic1) str (length s))"
  show ?thesis
  proof (cases way)
    case None
    then have "ic' = ic1\<lparr>ic_entries := (ic_entries ic1)[ic_victim ic1 := \<lparr>ie_str = str, ie_byte_len = length s, ie_points = []\<rparr>],
        ic_mru := ic_victim ic1, ic_victim := (if ic_victim ic1 + 1 = UTF16_INDEX_WAYS then 0 else ic_victim ic1 + 1)\<rparr>" "r = None"
      using assms(4) False by (simp_all add: utf16_index_get_def Let_def ic1_def [symmetric] way_def [symmetric])
    then show ?thesis using ok assms(3) by (auto simp: index_ok_def entry_ok_def dest!: set_update_subset_insert [THEN subsetD])
  next
    case (Some i)
    have i: "i < UTF16_INDEX_WAYS" "ie_str (ic_entries ic1 ! i) = str" "ie_byte_len (ic_entries ic1 ! i) = length s"
      using Some ok(1) find_way_some [of "ic_entries ic1" 0 "ic_mru ic1" str "length s" i] by (auto simp: way_def index_ok_def split: if_splits)
    define e where "e = ic_entries ic1 ! i"
    have e: "entry_ok strs e" using ok i(1) by (simp add: e_def index_ok_def)
    have pts: "ie_points e \<noteq> [] \<Longrightarrow> points_ok s (ie_points e)" using e i assms(2,3) by (simp add: entry_ok_def e_def)
    have b: "points_ok s (index_build_loop s 0 0 [(0, 0)])"
      using False by (intro build_points) (simp_all add: bnd.start points_ok_def)
    have "utf16_index_get m epoch ic str s = (if ie_points e \<noteq> [] then (ic1\<lparr>ic_mru := i\<rparr>, Some (ie_points e))
        else case utf16_index_build m e s of (x, False) \<Rightarrow> (ic1\<lparr>ic_mru := i\<rparr>, None)
          | (x, True) \<Rightarrow> (ic1\<lparr>ic_mru := i, ic_entries := (ic_entries ic1)[i := x]\<rparr>, Some (ie_points x)))"
      using False Some unfolding utf16_index_get_def Let_def ic1_def [symmetric] way_def [symmetric] by (simp add: e_def)
    then show ?thesis using assms(3,4) ok i(1,2) pts b e
      by (auto simp: utf16_index_build_def index_ok_def entry_ok_def e_def split: if_splits dest!: set_update_subset_insert [THEN subsetD])
  qed
qed

lemma seek_point_ok: "pts ! 0 = (0, 0) \<Longrightarrow> seek_point pts target n \<le> n \<and> unat (snd (pts ! seek_point pts target n)) \<le> target"
  by (induction n) auto

lemma seek_ok:
  assumes "points_ok s pts"
  shows "utf16_index_seek pts cur target = cur \<or>
    (\<exists>b u. bnd s b u \<and> u \<le> target \<and> utf16_index_seek pts cur target = cur\<lparr>c_p := b, c_utf16 := u\<rparr>)"
proof -
  define k where "k = seek_point pts target (if target div UTF16_INDEX_CHUNK \<ge> length pts then length pts - 1 else target div UTF16_INDEX_CHUNK)"
  have "k < length pts" "unat (snd (pts ! k)) \<le> target"
    using assms seek_point_ok [of pts target "if target div UTF16_INDEX_CHUNK \<ge> length pts then length pts - 1 else target div UTF16_INDEX_CHUNK"]
    by (auto simp: points_ok_def k_def split: if_splits intro: le_less_trans)
  then have "bnd s (unat (fst (pts ! k))) (unat (snd (pts ! k)))" using assms by (force simp: points_ok_def)
  then show ?thesis using \<open>unat (snd (pts ! k)) \<le> target\<close> by (auto simp: utf16_index_seek_def Let_def k_def [symmetric])
qed

text \<open>
  After the caches have been consulted the cursor stands at a position of the string that does not
  lie beyond the target.
\<close>

definition resumed :: "nat \<Rightarrow> nat list \<Rightarrow> nat \<Rightarrow> utf16_scan_cursor \<Rightarrow> bool" where
  "resumed str cps target cur \<longleftrightarrow> c_str cur = str \<and> c_byte_len cur = blen cps \<and> (\<exists>d r. cps = d @ r \<and> at d cur \<and> ulen d \<le> target)"

lemma sync_scan_ok: "scan_ok strs epoch sc \<Longrightarrow> scan_ok strs epoch (utf16_scan_cache_sync_epoch epoch sc) \<and> sc_epoch (utf16_scan_cache_sync_epoch epoch sc) = epoch"
  by (simp add: scan_ok_def utf16_scan_cache_sync_epoch_def)

lemma resumed_at: "cps_ok cps \<Longrightarrow> bnd (wtf8 cps) b u \<Longrightarrow> u \<le> target \<Longrightarrow> c_str cur = str \<Longrightarrow> c_byte_len cur = blen cps \<Longrightarrow>
    resumed str cps target (cur\<lparr>c_p := b, c_utf16 := u\<rparr>)"
  by (rule bnd_prefix [of cps b u]) (auto simp: resumed_def at_def)

lemma resume_utf16_ok:
  assumes "scan_ok strs epoch sc" "sc_epoch sc = epoch" "strs str = Some (wtf8 cps)" "str \<noteq> 0" "cps_ok cps"
  shows "resumed str cps target (utf16_scan_cursor_resume_utf16 sc \<lparr>c_str = str, c_byte_len = blen cps, c_p = 0, c_utf16 = 0\<rparr> target)"
proof (cases "sc_str sc = str \<and> sc_byte_pos sc \<le> blen cps \<and> sc_utf16_pos sc \<le> target")
  case True
  then have "bnd (wtf8 cps) (sc_byte_pos sc) (sc_utf16_pos sc)" using assms by (simp add: scan_ok_def)
  then show ?thesis using True resumed_at [OF assms(5), of "sc_byte_pos sc" "sc_utf16_pos sc" target "\<lparr>c_str = str, c_byte_len = blen cps, c_p = 0, c_utf16 = 0\<rparr>"] assms
    by (simp add: utf16_scan_cursor_resume_utf16_def utf16_scan_cache_matches_def)
next
  case False
  then show ?thesis by (auto simp: utf16_scan_cursor_resume_utf16_def utf16_scan_cache_matches_def resumed_def at_def not_less intro: exI [of _ "[]"])
qed

lemma resumed_seek:
  assumes "points_ok (wtf8 cps) pts" "resumed str cps target cur" "cps_ok cps"
  shows "resumed str cps target (utf16_index_seek pts cur target)"
  using seek_ok [OF assms(1), of cur target] assms(2) resumed_at [OF assms(3)] by (auto simp: resumed_def)

lemma resume_indexed_ok:
  assumes "caches_ok strs epoch ca" "sc_epoch (scan_cache ca) = epoch" "strs str = Some (wtf8 cps)" "str \<noteq> 0" "cps_ok cps"
    and "utf16_scan_cursor_resume_indexed m epoch ca (wtf8 cps) \<lparr>c_str = str, c_byte_len = blen cps, c_p = 0, c_utf16 = 0\<rparr> target = (ca', cur)"
  shows "caches_ok strs epoch ca' \<and> sc_epoch (scan_cache ca') = epoch \<and> resumed str cps target cur"
proof -
  define c1 where "c1 = utf16_scan_cursor_resume_utf16 (scan_cache ca) \<lparr>c_str = str, c_byte_len = blen cps, c_p = 0, c_utf16 = 0\<rparr> target"
  have r: "resumed str cps target c1" unfolding c1_def using assms by (intro resume_utf16_ok [of strs epoch]) (simp_all add: caches_ok_def)
  then have cs: "c_str c1 = str" by (simp add: resumed_def)
  show ?thesis
  proof (cases "target \<le> c_utf16 c1 \<or> target - c_utf16 c1 \<le> UTF16_INDEX_CHUNK")
    case True
    then have "ca' = ca" "cur = c1" using assms(6) by (auto simp: utf16_scan_cursor_resume_indexed_def c1_def [symmetric] Let_def)
    then show ?thesis using r assms(1,2) by simp
  next
    case False
    obtain ic ix where g: "utf16_index_get m epoch (index_cache ca) str (wtf8 cps) = (ic, ix)" by fastforce
    have ok: "index_ok strs epoch ic" "\<And>pts. ix = Some pts \<Longrightarrow> points_ok (wtf8 cps) pts"
      using index_get_ok [of strs epoch "index_cache ca" str "wtf8 cps" m ic ix] g assms(1,3,4) by (simp_all add: caches_ok_def)
    have e: "ca' = ca\<lparr>index_cache := ic\<rparr>" "cur = (case ix of None \<Rightarrow> c1 | Some pts \<Rightarrow> utf16_index_seek pts c1 target)"
      using assms(6) False by (auto simp: utf16_scan_cursor_resume_indexed_def c1_def [symmetric] Let_def g cs)
    have "resumed str cps target cur" using r resumed_seek [OF ok(2) r assms(5)] by (cases ix) (simp_all add: e(2))
    then show ?thesis using ok(1) assms(1,2) by (simp add: e(1) caches_ok_def)
  qed
qed

lemma resume_utf16_str [simp]: "c_str (utf16_scan_cursor_resume_utf16 sc cur target) = c_str cur"
  by (simp add: utf16_scan_cursor_resume_utf16_def)

text \<open>Storing a cursor that stands at a position of its string keeps the invariant.\<close>

lemma store_ok:
  assumes "caches_ok strs epoch ca" "strs str = Some (wtf8 cps)" "cps_ok cps" "c_str cur = str" "cps = d @ r" "at d cur"
  shows "caches_ok strs epoch (ca\<lparr>scan_cache := utf16_scan_cursor_store cur (scan_cache ca)\<rparr>)"
  using assms prefix_bnd [of d r] by (simp add: caches_ok_def scan_ok_def utf16_scan_cursor_store_def at_def)

lemma init_ok:
  assumes "caches_ok strs epoch ca" "utf16_scan_cursor_init epoch (scan_cache ca) str n = (sc, cur)"
  shows "caches_ok strs epoch (ca\<lparr>scan_cache := sc\<rparr>)" "sc_epoch sc = epoch" "cur = \<lparr>c_str = str, c_byte_len = n, c_p = 0, c_utf16 = 0\<rparr>" "scan_ok strs epoch sc"
  using assms sync_scan_ok [of strs epoch "scan_cache ca"] by (auto simp: caches_ok_def utf16_scan_cursor_init_def)

section \<open>The loops\<close>

lemma drop_wtf8: "at d cur \<Longrightarrow> drop (c_p cur) (wtf8 (d @ r)) = wtf8 r"
  by (simp add: at_def)

lemma advance_at:
  assumes "at d cur" "cps_ok (d @ cp # r)" "c_p cur + length (utf8_bytes cp) \<le> bound"
  shows "utf16_scan_cursor_advance (wtf8 (d @ cp # r)) cur bound = (cur\<lparr>c_p := blen (d @ [cp]), c_utf16 := ulen (d @ [cp])\<rparr>, True)"
proof -
  obtain x where "utf16_scan_decode (utf8_bytes cp @ wtf8 r) False = (length (utf8_bytes cp), length (utf16_units cp), x)"
    using decode_at(2) [of cp "wtf8 r"] assms(2) by auto
  then show ?thesis unfolding utf16_scan_cursor_advance_def drop_wtf8 [OF assms(1)] using assms by (simp add: at_def Let_def)
qed

lemma strlen_loop_at:
  "cps_ok (d @ r) \<Longrightarrow> at d cur \<Longrightarrow> c_byte_len cur = blen (d @ r) \<Longrightarrow> c_utf16 (strlen_loop (wtf8 (d @ r)) cur) = ulen (d @ r)"
proof (induction r arbitrary: d cur)
  case Nil
  then show ?case by (simp add: strlen_loop.simps [of _ cur] at_def)
next
  case (Cons cp r)
  have lt: "c_p cur < c_byte_len cur" using Cons.prems(2,3) by (simp add: at_def)
  show ?case using Cons.IH [of "d @ [cp]" "cur\<lparr>c_p := blen (d @ [cp]), c_utf16 := ulen (d @ [cp])\<rparr>"] Cons.prems lt
      advance_at [OF Cons.prems(2,1), of "c_byte_len cur"] by (simp add: strlen_loop.simps [of _ cur] at_def)
qed

text \<open>The shortest prefix with at least \<open>i\<close> code units, and the longest with at most \<open>i\<close>.\<close>

fun upto :: "nat list \<Rightarrow> nat \<Rightarrow> nat list" where
  "upto [] i = []"
| "upto (cp # cps) i = (if i = 0 then [] else cp # upto cps (i - length (utf16_units cp)))"

fun floor_cps :: "nat list \<Rightarrow> nat \<Rightarrow> nat list" where
  "floor_cps [] i = []"
| "floor_cps (cp # cps) i = (if length (utf16_units cp) > i then [] else cp # floor_cps cps (i - length (utf16_units cp)))"

lemma advance_to_at:
  "cps_ok (d @ r) \<Longrightarrow> at d cur \<Longrightarrow> c_byte_len cur = blen (d @ r) \<Longrightarrow>
    c_str (advance_to (wtf8 (d @ r)) i cur) = c_str cur \<and> at (d @ upto r (i - ulen d)) (advance_to (wtf8 (d @ r)) i cur)"
proof (induction r arbitrary: d cur)
  case Nil
  then show ?case by (simp add: advance_to.simps [of _ _ cur] at_def)
next
  case (Cons cp r)
  have lt: "c_p cur < c_byte_len cur" using Cons.prems(2,3) by (simp add: at_def)
  show ?case
  proof (cases "ulen d < i")
    case True
    then show ?thesis using Cons.IH [of "d @ [cp]" "cur\<lparr>c_p := blen (d @ [cp]), c_utf16 := ulen (d @ [cp])\<rparr>"] Cons.prems lt
      advance_at [OF Cons.prems(2,1), of "c_byte_len cur"] by (simp add: advance_to.simps [of _ _ cur] at_def)
  next
    case False
    then show ?thesis using Cons.prems(2) by (simp add: advance_to.simps [of _ _ cur] at_def)
  qed
qed

lemma floor_loop_at:
  "cps_ok (d @ r) \<Longrightarrow> at d cur \<Longrightarrow> c_byte_len cur = blen (d @ r) \<Longrightarrow> ulen d \<le> i \<Longrightarrow>
    c_str (floor_loop (wtf8 (d @ r)) i cur) = c_str cur \<and> at (d @ floor_cps r (i - ulen d)) (floor_loop (wtf8 (d @ r)) i cur)"
proof (induction r arbitrary: d cur)
  case Nil
  then show ?case by (simp add: floor_loop.simps [of _ _ cur] at_def)
next
  case (Cons cp r)
  have lt: "c_p cur < c_byte_len cur" using Cons.prems(2,3) by (simp add: at_def)
  have dr: "drop (c_p cur) (wtf8 (d @ cp # r)) = utf8_bytes cp @ wtf8 r" by (simp only: drop_wtf8 [OF Cons.prems(2)] wtf8_simps(2))
  obtain x where d: "utf16_scan_decode (utf8_bytes cp @ wtf8 r) False = (length (utf8_bytes cp), length (utf16_units cp), x)"
    using decode_at(2) [of cp "wtf8 r"] Cons.prems(1) by auto
  have u: "1 \<le> length (utf16_units cp)" by (simp add: utf16_units_length)
  show ?case
  proof (cases "ulen d + length (utf16_units cp) \<le> i")
    case True
    then show ?thesis using Cons.IH [of "d @ [cp]" "cur\<lparr>c_p := blen (d @ [cp]), c_utf16 := ulen (d @ [cp])\<rparr>"] Cons.prems lt d u
      unfolding floor_loop.simps [of _ _ cur] dr by (simp add: at_def)
  next
    case False
    then have "i - ulen d < length (utf16_units cp)" using Cons.prems(4) by linarith
    then show ?thesis using Cons.prems(2) False d unfolding floor_loop.simps [of _ _ cur] dr by (simp add: at_def)
  qed
qed

lemma pair_halves:
  assumes "0x10000 \<le> cp" "cp < 0x110000"
  shows "0xD800 + drop_bit 10 (word_of_nat cp - 0x10000 :: u32) = word_of_nat (0xD800 + (cp - 0x10000) div 1024)"
    "0xDC00 + ((word_of_nat cp - 0x10000 :: u32) AND 0x3FF) = word_of_nat (0xDC00 + (cp - 0x10000) mod 1024)"
proof -
  define d where "d = cp - 0x10000"
  have d: "cp = 0x10000 + d" "d < 0x100000" using assms by (auto simp: d_def)
  have w: "(word_of_nat cp - 0x10000 :: u32) = word_of_nat d" by (simp add: d(1))
  have ud: "unat (word_of_nat d :: u32) = d" using d(2) by (simp add: unat_of_nat)
  have q: "d div 1024 < 1024" using d(2) by (auto intro: less_mult_imp_div_less)
  have "unat (0xD800 + drop_bit 10 (word_of_nat d) :: u32) = 0xD800 + d div 1024"
    using q by (subst unat_add_fits) (simp_all add: unat_shr ud)
  then show "0xD800 + drop_bit 10 (word_of_nat cp - 0x10000 :: u32) = word_of_nat (0xD800 + (cp - 0x10000) div 1024)"
    unfolding w d_def [symmetric] by (rule u32_of_unat)
  have "(0x3FF :: u32) = mask 10" by (simp add: mask_eq_exp_minus_1)
  then have m: "unat (word_of_nat d AND 0x3FF :: u32) = d mod 1024" using unat_low [of 10 "word_of_nat d :: u32"] by (simp add: take_bit_eq_mask ud)
  have "unat (0xDC00 + (word_of_nat d AND 0x3FF) :: u32) = 0xDC00 + d mod 1024"
    by (subst unat_add_fits) (simp_all add: m add_less_le_mono [OF mod_less_divisor, of 1024, simplified] less_le_trans [OF add_strict_left_mono [OF mod_less_divisor [of 1024 d]]])
  then show "0xDC00 + ((word_of_nat cp - 0x10000 :: u32) AND 0x3FF) = word_of_nat (0xDC00 + (cp - 0x10000) mod 1024)"
    unfolding w d_def [symmetric] by (rule u32_of_unat)
qed

definition unit_at :: "nat list \<Rightarrow> nat \<Rightarrow> u32" where
  "unit_at cps i = (if i < ulen cps then word_of_nat (units cps ! i) else 0xFFFFFFFF)"

text \<open>The code point that starts at code unit \<open>i\<close>, or the low half of the pair around it.\<close>

fun cp_at :: "nat list \<Rightarrow> nat \<Rightarrow> u32" where
  "cp_at [] i = 0xFFFFFFFF"
| "cp_at (cp # cps) i =
     (if i = 0 then word_of_nat cp
      else if 0x10000 \<le> cp \<and> i = 1 then word_of_nat (0xDC00 + (cp - 0x10000) mod 1024)
      else cp_at cps (i - length (utf16_units cp)))"

lemma code_unit_loop_at:
  "cps_ok (d @ r) \<Longrightarrow> at d cur \<Longrightarrow> c_byte_len cur = blen (d @ r) \<Longrightarrow> ulen d \<le> i \<Longrightarrow> code_unit_loop (wtf8 (d @ r)) i cur = (cur', v) \<Longrightarrow>
    v = unit_at (d @ r) i \<and> c_str cur' = c_str cur \<and> (\<exists>e f. d @ r = e @ f \<and> at e cur')"
proof (induction r arbitrary: d cur)
  case Nil
  then show ?case by (auto simp: code_unit_loop.simps [of _ _ cur] at_def unit_at_def)
next
  case (Cons cp r)
  have lt: "c_p cur < c_byte_len cur" using Cons.prems(2,3) by (simp add: at_def)
  have dr: "drop (c_p cur) (wtf8 (d @ cp # r)) = utf8_bytes cp @ wtf8 r" by (simp only: drop_wtf8 [OF Cons.prems(2)] wtf8_simps(2))
  have cp: "cp < 0x110000" using Cons.prems(1) by simp
  have cu: "c_utf16 cur = ulen d" using Cons.prems(2) by (simp add: at_def)
  note e = Cons.prems(5) [unfolded code_unit_loop.simps [of _ _ cur] dr decode_at(1) [OF cp]]
  show ?case
  proof (cases "ulen d = i \<or> \<not> cp < 0x10000 \<and> ulen d + 1 = i")
    case True
    have "cur' = cur \<and> v = unit_at (d @ cp # r) i"
    proof (cases "cp < 0x10000")
      case True
      then show ?thesis using e lt cu \<open>ulen d = i \<or> _\<close> by (auto simp: utf16_units_length unit_at_def nth_append utf16_units_def)
    next
      case False
      then show ?thesis using e lt cu \<open>ulen d = i \<or> _\<close> pair_halves [of cp] cp
        by (auto simp: utf16_units_length unit_at_def nth_append utf16_units_def)
    qed
    then show ?thesis using Cons.prems(2) by blast
  next
    case False
    have "code_unit_loop (wtf8 ((d @ [cp]) @ r)) i (cur\<lparr>c_p := blen (d @ [cp]), c_utf16 := ulen (d @ [cp])\<rparr>) = (cur', v)"
      using e lt cu False Cons.prems(2) by (auto simp: utf16_units_length at_def split: if_splits)
    then show ?thesis using Cons.IH [of "d @ [cp]" "cur\<lparr>c_p := blen (d @ [cp]), c_utf16 := ulen (d @ [cp])\<rparr>"] Cons.prems(1,3,4) False
      by (auto simp: at_def utf16_units_length split: if_splits)
  qed
qed

lemma cp_at_append: "ulen d \<le> i \<Longrightarrow> cp_at (d @ r) i = cp_at r (i - ulen d)"
proof (induction d arbitrary: i)
  case (Cons cp d)
  then show ?case by (auto simp: utf16_units_length split: if_splits)
qed simp

lemma codepoint_loop_at:
  "cps_ok (d @ r) \<Longrightarrow> at d cur \<Longrightarrow> c_byte_len cur = blen (d @ r) \<Longrightarrow> ulen d \<le> i \<Longrightarrow> codepoint_loop (wtf8 (d @ r)) i cur = (cur', v) \<Longrightarrow>
    v = cp_at r (i - ulen d) \<and> c_str cur' = c_str cur \<and> (\<exists>e f. d @ r = e @ f \<and> at e cur')"
proof (induction r arbitrary: d cur)
  case Nil
  then show ?case by (auto simp: codepoint_loop.simps [of _ _ cur] at_def)
next
  case (Cons cp r)
  have lt: "c_p cur < c_byte_len cur" using Cons.prems(2,3) by (simp add: at_def)
  have dr: "drop (c_p cur) (wtf8 (d @ cp # r)) = utf8_bytes cp @ wtf8 r" by (simp only: drop_wtf8 [OF Cons.prems(2)] wtf8_simps(2))
  have cp: "cp < 0x110000" using Cons.prems(1) by simp
  have cu: "c_utf16 cur = ulen d" using Cons.prems(2) by (simp add: at_def)
  note e = Cons.prems(5) [unfolded codepoint_loop.simps [of _ _ cur] dr decode_at(1) [OF cp]]
  show ?case
  proof (cases "ulen d = i \<or> \<not> cp < 0x10000 \<and> ulen d + 1 = i")
    case True
    have "cur' = cur \<and> v = cp_at (cp # r) (i - ulen d)"
      using e lt cu True pair_halves [of cp] cp by (auto simp: utf16_units_length)
    then show ?thesis using Cons.prems(2) by blast
  next
    case False
    have "codepoint_loop (wtf8 ((d @ [cp]) @ r)) i (cur\<lparr>c_p := blen (d @ [cp]), c_utf16 := ulen (d @ [cp])\<rparr>) = (cur', v)"
      using e lt cu False Cons.prems(2) by (auto simp: utf16_units_length at_def split: if_splits)
    moreover have "cp_at (cp # r) (i - ulen d) = cp_at r (i - ulen (d @ [cp]))"
      using False Cons.prems(4) by (auto simp: utf16_units_length)
    ultimately show ?thesis using Cons.IH [of "d @ [cp]" "cur\<lparr>c_p := blen (d @ [cp]), c_utf16 := ulen (d @ [cp])\<rparr>"] Cons.prems(1,3,4) False
      by (auto simp: at_def utf16_units_length split: if_splits)
  qed
qed

text \<open>The shortest prefix of at least \<open>k\<close> bytes.\<close>

fun cover :: "nat list \<Rightarrow> nat \<Rightarrow> nat list" where
  "cover [] k = []"
| "cover (cp # cps) k = (if k = 0 then [] else cp # cover cps (k - length (utf8_bytes cp)))"

lemma cover_append: "blen d \<le> k \<Longrightarrow> cover (d @ r) k = d @ cover r (k - blen d)"
proof (induction d arbitrary: k)
  case (Cons cp d)
  have "0 < length (utf8_bytes cp)" by simp
  then have "k \<noteq> 0" using Cons.prems by (auto simp del: length_greater_0_conv)
  then show ?case using Cons.IH [of "k - length (utf8_bytes cp)"] Cons.prems by simp
qed simp

lemma offset_loop_at:
  "cps_ok (d @ r) \<Longrightarrow> at d cur \<Longrightarrow> bound = blen d + k \<Longrightarrow> k \<le> blen r \<Longrightarrow> offset_loop (wtf8 (d @ r)) bound cur = (cur', on) \<Longrightarrow>
    c_utf16 cur' = ulen (d @ cover r k) \<and> c_str cur' = c_str cur \<and> (on \<longrightarrow> at (d @ cover r k) cur') \<and> (on \<longleftrightarrow> blen (cover r k) = k)"
proof (induction r arbitrary: d cur k)
  case Nil
  then show ?case by (auto simp: offset_loop.simps [of _ _ cur] at_def)
next
  case (Cons cp r)
  show ?case
  proof (cases "k = 0")
    case True
    then show ?thesis using Cons.prems by (auto simp: offset_loop.simps [of _ _ cur] at_def)
  next
    case False
    have dr: "drop (c_p cur) (wtf8 (d @ cp # r)) = utf8_bytes cp @ wtf8 r" by (simp only: drop_wtf8 [OF Cons.prems(2)] wtf8_simps(2))
    obtain x where x: "utf16_scan_decode (utf8_bytes cp @ wtf8 r) False = (length (utf8_bytes cp), length (utf16_units cp), x)"
      using decode_at(2) [of cp "wtf8 r"] Cons.prems(1) by auto
    have lt: "c_p cur < bound" using Cons.prems(2,3) False by (simp add: at_def)
    show ?thesis
    proof (cases "length (utf8_bytes cp) \<le> k")
      case True
      have a: "utf16_scan_cursor_advance (wtf8 (d @ cp # r)) cur bound = (cur\<lparr>c_p := blen (d @ [cp]), c_utf16 := ulen (d @ [cp])\<rparr>, True)"
        using advance_at [OF Cons.prems(2,1), of bound] True Cons.prems(2,3) by (simp add: at_def)
      have "offset_loop (wtf8 ((d @ [cp]) @ r)) bound (cur\<lparr>c_p := blen (d @ [cp]), c_utf16 := ulen (d @ [cp])\<rparr>) = (cur', on)"
        using Cons.prems(5) lt a by (simp add: offset_loop.simps [of _ _ cur])
      then show ?thesis using Cons.IH [of "d @ [cp]" "cur\<lparr>c_p := blen (d @ [cp]), c_utf16 := ulen (d @ [cp])\<rparr>" "k - length (utf8_bytes cp)"]
          Cons.prems True False by (auto simp: at_def)
    next
      case short: False
      have "utf16_scan_cursor_advance (wtf8 (d @ cp # r)) cur bound = (cur\<lparr>c_utf16 := ulen d + length (utf16_units cp), c_p := bound\<rparr>, False)"
        unfolding utf16_scan_cursor_advance_def dr using x short Cons.prems(2,3) by (simp add: at_def Let_def)
      then have "cur' = cur\<lparr>c_utf16 := ulen d + length (utf16_units cp), c_p := bound\<rparr>" "\<not> on"
        using Cons.prems(5) lt by (auto simp: offset_loop.simps [of _ _ cur])
      moreover have "cover (cp # r) k = [cp]" using short False by (cases r) auto
      ultimately show ?thesis using short by simp
    qed
  qed
qed

lemma surrogate_halves:
  assumes "0x10000 \<le> cp" "cp < 0x110000"
  shows "unat (ucast (0xD800 + drop_bit 10 (word_of_nat cp - 0x10000 :: u32)) :: u16) = 0xD800 + (cp - 0x10000) div 1024"
    "unat (ucast (0xDC00 + ((word_of_nat cp - 0x10000 :: u32) AND 0x3FF)) :: u16) = 0xDC00 + (cp - 0x10000) mod 1024"
proof -
  have q: "(cp - 0x10000) div 1024 < 1024" using assms by (auto intro: less_mult_imp_div_less)
  have c: "unat (ucast (word_of_nat n :: u32) :: u16) = n" if "n < 0x10000" for n
    using that by (simp add: unsigned_ucast_eq take_bit_nat_eq_self unat_of_nat)
  show "unat (ucast (0xD800 + drop_bit 10 (word_of_nat cp - 0x10000 :: u32)) :: u16) = 0xD800 + (cp - 0x10000) div 1024"
    unfolding pair_halves [OF assms] using q by (intro c) simp
  have "0xDC00 + (cp - 0x10000) mod 1024 < 0x10000" using mod_less_divisor [of 1024 "cp - 0x10000"] by linarith
  then show "unat (ucast (0xDC00 + ((word_of_nat cp - 0x10000 :: u32) AND 0x3FF)) :: u16) = 0xDC00 + (cp - 0x10000) mod 1024"
    unfolding pair_halves [OF assms] by (rule c)
qed

text \<open>A code unit split off a pair, as a list: 0 stands for none.\<close>

definition split_units :: "u16 \<Rightarrow> nat list" where
  "split_units x = (if x = 0 then [] else [unat x])"

lemma split_units_unat: "unat x = n \<Longrightarrow> 0 < n \<Longrightarrow> split_units x = [n]"
  by (auto simp: split_units_def)

lemma range_start_at:
  "cps_ok (d @ r) \<Longrightarrow> at d cur \<Longrightarrow> c_byte_len cur = blen (d @ r) \<Longrightarrow> ulen d \<le> start \<Longrightarrow> range_start_loop (wtf8 (d @ r)) start cur = (cur', pre) \<Longrightarrow>
    \<exists>e f. d @ r = e @ f \<and> at e cur' \<and> c_str cur' = c_str cur \<and> c_byte_len cur' = c_byte_len cur
      \<and> drop start (units (d @ r)) = split_units pre @ units f \<and> (ulen e = start + length (split_units pre) \<or> f = [] \<and> pre = 0 \<and> ulen e \<le> start)"
proof (induction r arbitrary: d cur)
  case Nil
  then have "cur' = cur" "pre = 0" by (auto simp: range_start_loop.simps [of _ _ cur] at_def)
  then show ?case using Nil by (intro exI [of _ d] exI [of _ "[]"]) (simp add: split_units_def)
next
  case (Cons cp r)
  have lt: "c_p cur < c_byte_len cur" using Cons.prems(2,3) by (simp add: at_def)
  have dr: "drop (c_p cur) (wtf8 (d @ cp # r)) = utf8_bytes cp @ wtf8 r" by (simp only: drop_wtf8 [OF Cons.prems(2)] wtf8_simps(2))
  have cp: "cp < 0x110000" using Cons.prems(1) by simp
  obtain x where x: "utf16_scan_decode (utf8_bytes cp @ wtf8 r) False = (length (utf8_bytes cp), length (utf16_units cp), x)"
    using decode_at(2) [OF cp, of "wtf8 r"] by auto
  have cu: "c_utf16 cur = ulen d" "c_p cur = blen d" using Cons.prems(2) by (simp_all add: at_def)
  note e = Cons.prems(5) [unfolded range_start_loop.simps [of _ _ cur] dr x decode_at(1) [OF cp]]
  have "ulen d = start \<or> \<not> cp < 0x10000 \<and> ulen d + 1 = start \<or> ulen d + length (utf16_units cp) \<le> start"
    using Cons.prems(4) by (auto simp: utf16_units_length)
  then consider (here) "ulen d = start" | (mid) "\<not> cp < 0x10000" "ulen d + 1 = start" | (further) "ulen d + length (utf16_units cp) \<le> start"
    by blast
  then show ?case
  proof cases
    case here
    then have "cur' = cur" "pre = 0" using e cu by auto
    then show ?thesis using Cons.prems(2) here by (intro exI [of _ d] exI [of _ "cp # r"]) (simp add: split_units_def)
  next
    case mid
    have "cur' = cur\<lparr>c_p := blen (d @ [cp]), c_utf16 := ulen (d @ [cp])\<rparr>" "pre = ucast (0xDC00 + ((word_of_nat cp - 0x10000 :: u32) AND 0x3FF))"
      using e lt cu mid by (auto simp: utf16_units_length)
    moreover from this(2) have "split_units pre = [0xDC00 + (cp - 0x10000) mod 1024]"
      using surrogate_halves(2) [of cp] mid(1) cp by (intro split_units_unat) simp_all
    ultimately show ?thesis using mid by (intro exI [of _ "d @ [cp]"] exI [of _ r]) (auto simp: at_def utf16_units_def)
  next
    case further
    have "0 < length (utf16_units cp)" by (simp add: utf16_units_length)
    then have "range_start_loop (wtf8 ((d @ [cp]) @ r)) start (cur\<lparr>c_p := blen (d @ [cp]), c_utf16 := ulen (d @ [cp])\<rparr>) = (cur', pre)"
      using e lt cu further by (auto simp: utf16_units_length split: if_splits)
    then show ?thesis using Cons.IH [of "d @ [cp]" "cur\<lparr>c_p := blen (d @ [cp]), c_utf16 := ulen (d @ [cp])\<rparr>"] Cons.prems(1,3) further by (simp add: at_def)
  qed
qed

lemma range_end_at:
  "cps_ok (d @ r) \<Longrightarrow> at d cur \<Longrightarrow> c_byte_len cur = blen (d @ r) \<Longrightarrow> ulen d \<le> stop \<Longrightarrow> range_end_loop (wtf8 (d @ r)) stop cur = (cur', suf) \<Longrightarrow>
    \<exists>e f. r = e @ f \<and> at (d @ e) cur' \<and> c_str cur' = c_str cur \<and> take (stop - ulen d) (units r) = units e @ split_units suf"
proof (induction r arbitrary: d cur)
  case Nil
  then show ?case by (auto simp: range_end_loop.simps [of _ _ cur] at_def split_units_def)
next
  case (Cons cp r)
  have lt: "c_p cur < c_byte_len cur" using Cons.prems(2,3) by (simp add: at_def)
  have dr: "drop (c_p cur) (wtf8 (d @ cp # r)) = utf8_bytes cp @ wtf8 r" by (simp only: drop_wtf8 [OF Cons.prems(2)] wtf8_simps(2))
  have cp: "cp < 0x110000" using Cons.prems(1) by simp
  obtain x where x: "utf16_scan_decode (utf8_bytes cp @ wtf8 r) False = (length (utf8_bytes cp), length (utf16_units cp), x)"
    using decode_at(2) [OF cp, of "wtf8 r"] by auto
  have cu: "c_utf16 cur = ulen d" "c_p cur = blen d" using Cons.prems(2) by (simp_all add: at_def)
  note e = Cons.prems(5) [unfolded range_end_loop.simps [of _ _ cur] dr x decode_at(1) [OF cp]]
  have "ulen d = stop \<or> \<not> cp < 0x10000 \<and> ulen d + 1 = stop \<or> ulen d + length (utf16_units cp) \<le> stop"
    using Cons.prems(4) by (auto simp: utf16_units_length)
  then consider (here) "ulen d = stop" | (mid) "\<not> cp < 0x10000" "ulen d + 1 = stop" | (further) "ulen d + length (utf16_units cp) \<le> stop"
    by blast
  then show ?case
  proof cases
    case here
    then have "cur' = cur" "suf = 0" using e cu by auto
    then show ?thesis using Cons.prems(2) here by (intro exI [of _ "[]"] exI [of _ "cp # r"]) (simp add: split_units_def)
  next
    case mid
    have "cur' = cur" "suf = ucast (0xD800 + drop_bit 10 (word_of_nat cp - 0x10000 :: u32))"
      using e lt cu mid by (auto simp: utf16_units_length)
    moreover from this(2) have "split_units suf = [0xD800 + (cp - 0x10000) div 1024]"
      using surrogate_halves(1) [of cp] mid(1) cp by (intro split_units_unat) simp_all
    ultimately show ?thesis using mid Cons.prems(2) by (intro exI [of _ "[]"] exI [of _ "cp # r"]) (auto simp: utf16_units_def)
  next
    case further
    have "0 < length (utf16_units cp)" by (simp add: utf16_units_length)
    then have "range_end_loop (wtf8 ((d @ [cp]) @ r)) stop (cur\<lparr>c_p := blen (d @ [cp]), c_utf16 := ulen (d @ [cp])\<rparr>) = (cur', suf)"
      using e lt cu further by (auto simp: utf16_units_length split: if_splits)
    then obtain a b where "r = a @ b" "at ((d @ [cp]) @ a) cur'" "c_str cur' = c_str cur" "take (stop - ulen (d @ [cp])) (units r) = units a @ split_units suf"
      using Cons.IH [of "d @ [cp]" "cur\<lparr>c_p := blen (d @ [cp]), c_utf16 := ulen (d @ [cp])\<rparr>"] Cons.prems(1,3) further by (auto simp: at_def)
    then show ?thesis using further by (intro exI [of _ "cp # a"] exI [of _ b]) simp
  qed
qed

section \<open>The operations\<close>

text \<open>The strings of the heap: \<open>strs\<close> gives the bytes at the address of each live string, in the form \<open>wtf8\<close>.\<close>

lemma ascii_cps:
  assumes "cps_ok cps" "ascii_bytes (wtf8 cps)"
  shows "units cps = cps" "wtf8 cps = map byte_of cps" "\<forall>cp \<in> set cps. cp < 0x80"
proof -
  have "units cps = cps \<and> wtf8 cps = map byte_of cps \<and> (\<forall>cp \<in> set cps. cp < 0x80)"
    using assms
  proof (induction cps)
    case (Cons cp cps)
    have "cp < 0x80"
    proof (rule ccontr)
      assume n: "\<not> cp < 0x80"
      have "cp < 0x110000" using Cons.prems(1) by simp
      then have "0x80 \<le> hd (utf8_bytes cp)" using n by (cases rule: utf8_bytes_cases) (auto simp: word_le_nat_alt)
      moreover have "hd (utf8_bytes cp) < 0x80" using Cons.prems(2) hd_in_set [of "utf8_bytes cp"] by (simp add: ascii_bytes_def)
      ultimately show False by (simp add: not_less [symmetric])
    qed
    then show ?case using Cons by (simp add: ascii_bytes_def utf16_units_def utf8_bytes_def)
  qed simp
  then show "units cps = cps" "wtf8 cps = map byte_of cps" "\<forall>cp \<in> set cps. cp < 0x80" by blast+
qed

text \<open>What the cached length of a header may be: unknown, or the number of code units.\<close>

definition utf16_len_ok :: "flat_string \<Rightarrow> bool" where
  "utf16_len_ok f \<longleftrightarrow>
     (str_flat_ascii_state f = STR_ASCII_NO \<longrightarrow> str_flat_cached_utf16_len f = STR_UTF16_LEN_UNKNOWN
        \<or> unat (str_flat_cached_utf16_len f) = length (str_units (flat_bytes f)))"

lemma len_ok_is_ascii: "utf16_len_ok f \<Longrightarrow> utf16_len_ok (fst (str_is_ascii f))"
  by (simp add: str_is_ascii_def Let_def utf16_len_ok_def detect_ascii_iff)

lemma len_ok_is_valid: "utf16_len_ok f \<Longrightarrow> utf16_len_ok (fst (str_is_valid_utf8 f))"
  using len_ok_is_ascii [of f] by (auto simp: str_is_valid_utf8_def Let_def utf16_len_ok_def split: prod.splits)

lemma ulen_units: "cps_ok cps \<Longrightarrow> length (str_units (wtf8 cps)) = ulen cps"
  using wtf8_units(2) [of cps] by (simp add: cps_ok_def units_def)

lemma ulen_le_blen: "ulen cps \<le> blen cps"
proof (induction cps)
  case (Cons cp cps)
  have "length (utf16_units cp) \<le> length (utf8_bytes cp)" by (simp add: utf16_units_def utf8_bytes_def)
  then show ?case using Cons by simp
qed simp

definition op_state :: "(nat \<Rightarrow> bytes option) \<Rightarrow> nat \<Rightarrow> utf16_caches \<Rightarrow> nat \<Rightarrow> flat_string \<Rightarrow> nat list \<Rightarrow> bool" where
  "op_state strs epoch ca str flat cps \<longleftrightarrow>
     caches_ok strs epoch ca \<and> str \<noteq> 0 \<and> flat_inv flat \<and> utf16_len_ok flat \<and> flat_bytes flat = wtf8 cps \<and> strs str = Some (wtf8 cps) \<and> cps_ok cps"

lemma op_ascii:
  assumes "op_state strs epoch ca str flat cps" "str_is_ascii flat = (flat', a)"
  shows "a \<longleftrightarrow> ascii_bytes (wtf8 cps)" "op_state strs epoch ca str flat' cps"
  using is_ascii_correct [of flat] len_ok_is_ascii [of flat] assms by (auto simp: op_state_def)

theorem code_unit_at_correct:
  assumes "op_state strs epoch ca str flat cps" "utf16_code_unit_at m epoch ca str flat i = (ca', flat', v)"
  shows "op_state strs epoch ca' str flat' cps \<and> v = unit_at cps i"
proof -
  obtain f1 a where f1: "str_is_ascii flat = (f1, a)" by fastforce
  note o = op_ascii [OF assms(1) f1]
  have s: "flat_bytes f1 = wtf8 cps" "cps_ok cps" "str \<noteq> 0" "caches_ok strs epoch ca" "strs str = Some (wtf8 cps)" using o(2) by (auto simp: op_state_def)
  show ?thesis
  proof (cases a)
    case True
    note c = ascii_cps [OF s(2) o(1) [THEN iffD1, OF True]]
    have "(ucast (byte_of n) :: u32) = word_of_nat n" if "n < 0x80" for n using that by (intro u32_of_unat) simp
    then have "i < length cps \<Longrightarrow> (ucast (wtf8 cps ! i) :: u32) = word_of_nat (cps ! i)" using c nth_mem [of i cps] by simp
    then have "v = unit_at cps i" using assms(2) True c(1) arg_cong [OF c(2), of length]
      by (simp add: utf16_code_unit_at_def f1 s(1) Let_def unit_at_def split: if_splits)
    moreover have "ca' = ca" "flat' = f1" using assms(2) True by (auto simp: utf16_code_unit_at_def f1 s(1) Let_def)
    ultimately show ?thesis using o(2) by simp
  next
    case False
    obtain sc cur where i: "utf16_scan_cursor_init epoch (scan_cache ca) str (blen cps) = (sc, cur)" by fastforce
    note io = init_ok [OF s(4) i]
    obtain ca1 cur1 where r: "utf16_scan_cursor_resume_indexed m epoch (ca\<lparr>scan_cache := sc\<rparr>) (wtf8 cps) cur i = (ca1, cur1)" by fastforce
    have ok: "caches_ok strs epoch ca1 \<and> resumed str cps i cur1"
      using resume_indexed_ok [OF io(1) _ s(5,3,2), of m i ca1 cur1] r io(2,3) by simp
    obtain cur2 v2 where l: "code_unit_loop (wtf8 cps) i cur1 = (cur2, v2)" by fastforce
    have "ca' = ca1\<lparr>scan_cache := utf16_scan_cursor_store cur2 (scan_cache ca1)\<rparr> \<and> flat' = f1 \<and> v = v2"
      using assms(2) False r l io(3) by (auto simp: utf16_code_unit_at_def f1 s(1) Let_def i utf16_scan_cursor_resume_indexed_def not_le split: if_splits prod.splits)
    moreover obtain d t where d: "cps = d @ t" "at d cur1" "ulen d \<le> i" "c_str cur1 = str" "c_byte_len cur1 = blen cps" using ok by (auto simp: resumed_def)
    moreover obtain e f where "v2 = unit_at cps i" "c_str cur2 = str" "cps = e @ f" "at e cur2"
      using code_unit_loop_at [of d t cur1 i cur2 v2] d s(2) l by auto
    moreover have "caches_ok strs epoch (ca1\<lparr>scan_cache := utf16_scan_cursor_store cur2 (scan_cache ca1)\<rparr>)"
      using store_ok [OF conjunct1 [OF ok] s(5,2) calculation(8,9,10)] .
    ultimately show ?thesis using o(2) by (simp add: op_state_def)
  qed
qed

text \<open>The common part of the operations on a string that is not ASCII.\<close>

lemma op_resume:
  assumes "op_state strs epoch ca str flat cps" "utf16_scan_cursor_init epoch (scan_cache ca) str (blen cps) = (sc, cur)"
    and "utf16_scan_cursor_resume_indexed m epoch (ca\<lparr>scan_cache := sc\<rparr>) (wtf8 cps) cur i = (ca1, cur1)"
  obtains d r where "cps = d @ r" "at d cur1" "ulen d \<le> i" "c_str cur1 = str" "c_byte_len cur1 = blen cps" "op_state strs epoch ca1 str flat cps"
proof -
  have s: "cps_ok cps" "str \<noteq> 0" "caches_ok strs epoch ca" "strs str = Some (wtf8 cps)" using assms(1) by (auto simp: op_state_def)
  note io = init_ok [OF s(3) assms(2)]
  have "caches_ok strs epoch ca1 \<and> resumed str cps i cur1" using resume_indexed_ok [OF io(1) _ s(4,2,1), of m i ca1 cur1] assms(3) io(2,3) by simp
  then show thesis using that assms(1) by (auto simp: resumed_def op_state_def)
qed

lemma op_store:
  assumes "op_state strs epoch ca str flat cps" "c_str cur = str" "cps = d @ r" "at d cur"
  shows "op_state strs epoch (ca\<lparr>scan_cache := utf16_scan_cursor_store cur (scan_cache ca)\<rparr>) str flat cps"
  using assms store_ok [of strs epoch ca str cps cur d r] by (simp add: op_state_def)

lemma upto_append: "ulen d \<le> i \<Longrightarrow> upto (d @ r) i = d @ upto r (i - ulen d)"
proof (induction d arbitrary: i)
  case (Cons cp d)
  then show ?case by (auto simp: utf16_units_length split: if_splits)
qed simp

lemma upto_prefix: "\<exists>r. cps = upto cps i @ r"
proof (induction cps arbitrary: i)
  case (Cons cp cps)
  show ?case using Cons [of "i - length (utf16_units cp)"] by auto
qed simp

text \<open>The result of \<open>utf16_index_to_byte_offset\<close>, as a function of the code points.\<close>

definition offset_of :: "nat list \<Rightarrow> nat \<Rightarrow> int \<times> nat option" where
  "offset_of cps i =
     (let e = upto cps i
      in if e = cps then if ulen cps = i then (c_int (blen cps), Some 0) else (-1, None)
         else (c_int (blen e), Some (length (utf8_bytes (cps ! length e)))))"

lemma ascii_wtf8: "\<forall>cp \<in> set cps. cp < 0x80 \<Longrightarrow> wtf8 cps = map byte_of cps"
  by (induction cps) (simp_all add: utf8_bytes_def)

lemma upto_ascii: "\<forall>cp \<in> set cps. cp < 0x80 \<Longrightarrow> upto cps i = take i cps"
proof (induction cps arbitrary: i)
  case (Cons cp cps)
  then show ?case by (cases i) (auto simp: utf16_units_length)
qed simp

lemma blen_prefix: "cps = e @ r \<Longrightarrow> blen e \<ge> blen cps \<longleftrightarrow> r = []"
  by (cases r) auto

theorem index_to_byte_offset_correct:
  assumes "op_state strs epoch ca str flat cps" "utf16_index_to_byte_offset m epoch ca str flat i = (ca', flat', v)"
  shows "op_state strs epoch ca' str flat' cps \<and> v = offset_of cps i"
proof -
  obtain f1 a where f1: "str_is_ascii flat = (f1, a)" by fastforce
  note o = op_ascii [OF assms(1) f1]
  have s: "flat_bytes f1 = wtf8 cps" "cps_ok cps" using o(2) by (auto simp: op_state_def)
  show ?thesis
  proof (cases a)
    case True
    note c = ascii_cps [OF s(2) o(1) [THEN iffD1, OF True]]
    have w: "wtf8 (take i cps) = map byte_of (take i cps)" by (rule ascii_wtf8) (use c(3) in_set_takeD in fast)
    have "i < length cps \<Longrightarrow> length (utf8_bytes (cps ! i)) = 1" using c(3) nth_mem [of i cps] by (simp add: utf8_bytes_def)
    then have "v = offset_of cps i" using assms(2) True c(1) w upto_ascii [OF c(3), of i] arg_cong [OF c(2), of length]
      by (auto simp: utf16_index_to_byte_offset_def f1 s(1) Let_def offset_of_def min_def split: if_splits)
    moreover have "ca' = ca" "flat' = f1" using assms(2) True by (auto simp: utf16_index_to_byte_offset_def f1 s(1) Let_def split: if_splits)
    ultimately show ?thesis using o(2) by simp
  next
    case False
    obtain sc cur where i: "utf16_scan_cursor_init epoch (scan_cache ca) str (blen cps) = (sc, cur)" by fastforce
    obtain ca1 cur1 where r: "utf16_scan_cursor_resume_indexed m epoch (ca\<lparr>scan_cache := sc\<rparr>) (wtf8 cps) cur i = (ca1, cur1)" by fastforce
    obtain d t where d: "cps = d @ t" "at d cur1" "ulen d \<le> i" "c_str cur1 = str" "c_byte_len cur1 = blen cps" "op_state strs epoch ca1 str f1 cps"
      by (rule op_resume [OF o(2) i r])
    define cur2 where "cur2 = advance_to (wtf8 cps) i cur1"
    have c2: "c_str cur2 = str" "at (upto cps i) cur2"
      using advance_to_at [of d t cur1 i] d s(2) upto_append [OF d(3)] by (simp_all add: cur2_def)
    obtain q where q: "cps = upto cps i @ q" using upto_prefix by blast
    have st: "op_state strs epoch (ca1\<lparr>scan_cache := utf16_scan_cursor_store cur2 (scan_cache ca1)\<rparr>) str f1 cps"
      by (rule op_store [OF d(6) c2(1) q c2(2)])
    show ?thesis
    proof (cases q)
      case Nil
      then show ?thesis using assms(2) False st c2(2) q
        by (auto simp: utf16_index_to_byte_offset_def f1 s(1) Let_def i r cur2_def [symmetric] offset_of_def at_def split: if_splits)
    next
      case (Cons cp q')
      have cp: "cps ! length (upto cps i) = cp" "upto cps i \<noteq> cps" using q Cons by (metis nth_append_length, auto)
      have "drop (c_p cur2) (wtf8 cps) = utf8_bytes cp @ wtf8 q'" using c2(2) arg_cong [OF q, of wtf8] Cons by (simp add: at_def)
      moreover have "blen (upto cps i) < blen cps" using blen_prefix [OF q] Cons by simp
      moreover have "cp < 0x110000" using s(2) arg_cong [OF q, of cps_ok] Cons by simp
      ultimately show ?thesis using assms(2) False st c2(2) cp decode_at(2) [of cp "wtf8 q'"]
        by (auto simp: utf16_index_to_byte_offset_def f1 s(1) Let_def i r cur2_def [symmetric] offset_of_def at_def)
    qed
  qed
qed

theorem codepoint_at_correct:
  assumes "op_state strs epoch ca str flat cps" "utf16_codepoint_at m epoch ca str flat i = (ca', flat', v)"
  shows "op_state strs epoch ca' str flat' cps \<and> v = cp_at cps i"
proof -
  obtain f1 a where f1: "str_is_ascii flat = (f1, a)" by fastforce
  note o = op_ascii [OF assms(1) f1]
  have s: "flat_bytes f1 = wtf8 cps" "cps_ok cps" using o(2) by (auto simp: op_state_def)
  show ?thesis
  proof (cases a)
    case True
    note c = ascii_cps [OF s(2) o(1) [THEN iffD1, OF True]]
    have "(ucast (byte_of n) :: u32) = word_of_nat n" if "n < 0x80" for n using that by (intro u32_of_unat) simp
    then have "i < length cps \<Longrightarrow> (ucast (wtf8 cps ! i) :: u32) = word_of_nat (cps ! i)" using c nth_mem [of i cps] by simp
    moreover have "cp_at cps i = (if i < length cps then word_of_nat (cps ! i) else 0xFFFFFFFF)" using c(3)
      by (induction cps arbitrary: i) (auto simp: utf16_units_length nth_Cons')
    ultimately have "v = cp_at cps i" using assms(2) True s(1) arg_cong [OF c(2), of length]
      by (simp add: utf16_codepoint_at_def f1 s(1) Let_def split: if_splits)
    moreover have "ca' = ca" "flat' = f1" using assms(2) True by (auto simp: utf16_codepoint_at_def f1 s(1) Let_def)
    ultimately show ?thesis using o(2) by simp
  next
    case False
    obtain sc cur where i: "utf16_scan_cursor_init epoch (scan_cache ca) str (blen cps) = (sc, cur)" by fastforce
    obtain ca1 cur1 where r: "utf16_scan_cursor_resume_indexed m epoch (ca\<lparr>scan_cache := sc\<rparr>) (wtf8 cps) cur i = (ca1, cur1)" by fastforce
    obtain d t where d: "cps = d @ t" "at d cur1" "ulen d \<le> i" "c_str cur1 = str" "c_byte_len cur1 = blen cps" "op_state strs epoch ca1 str f1 cps"
      by (rule op_resume [OF o(2) i r])
    obtain cur2 v2 where l: "codepoint_loop (wtf8 cps) i cur1 = (cur2, v2)" by fastforce
    obtain e f where e: "v2 = cp_at cps i" "c_str cur2 = str" "cps = e @ f" "at e cur2"
      using codepoint_loop_at [of d t cur1 i cur2 v2] d s(2) l cp_at_append [OF d(3), of t] by auto
    have "ca' = ca1\<lparr>scan_cache := utf16_scan_cursor_store cur2 (scan_cache ca1)\<rparr>" "flat' = f1" "v = v2"
      using assms(2) False r l by (auto simp: utf16_codepoint_at_def f1 s(1) Let_def i)
    then show ?thesis using op_store [OF d(6) e(2-4)] e(1) by simp
  qed
qed

lemma floor_append: "ulen d \<le> i \<Longrightarrow> floor_cps (d @ r) i = d @ floor_cps r (i - ulen d)"
  by (induction d arbitrary: i) auto

lemma floor_prefix: "\<exists>r. cps = floor_cps cps i @ r"
proof (induction cps arbitrary: i)
  case (Cons cp cps)
  show ?case using Cons [of "i - length (utf16_units cp)"] by auto
qed simp

lemma floor_ascii: "\<forall>cp \<in> set cps. cp < 0x80 \<Longrightarrow> floor_cps cps i = take i cps"
proof (induction cps arbitrary: i)
  case (Cons cp cps)
  then show ?case by (cases i) (auto simp: utf16_units_length)
qed simp

theorem index_floor_correct:
  assumes "op_state strs epoch ca str flat cps" "utf16_index_to_byte_offset_floor epoch ca str flat i = (ca', flat', v)"
  shows "op_state strs epoch ca' str flat' cps \<and> v = blen (floor_cps cps i)"
proof -
  obtain f1 a where f1: "str_is_ascii flat = (f1, a)" by fastforce
  note o = op_ascii [OF assms(1) f1]
  have s: "flat_bytes f1 = wtf8 cps" "cps_ok cps" "str \<noteq> 0" "caches_ok strs epoch ca" "strs str = Some (wtf8 cps)" using o(2) by (auto simp: op_state_def)
  show ?thesis
  proof (cases a)
    case True
    note c = ascii_cps [OF s(2) o(1) [THEN iffD1, OF True]]
    have w: "wtf8 (take i cps) = map byte_of (take i cps)" by (rule ascii_wtf8) (use c(3) in_set_takeD in fast)
    then have "v = blen (floor_cps cps i)" using assms(2) True floor_ascii [OF c(3), of i] arg_cong [OF c(2), of length]
      by (simp add: utf16_index_to_byte_offset_floor_def f1 s(1) Let_def min_def split: if_splits)
    moreover have "ca' = ca" "flat' = f1" using assms(2) True by (auto simp: utf16_index_to_byte_offset_floor_def f1 s(1) Let_def)
    ultimately show ?thesis using o(2) by simp
  next
    case False
    obtain sc cur where i: "utf16_scan_cursor_init epoch (scan_cache ca) str (blen cps) = (sc, cur)" by fastforce
    note io = init_ok [OF s(4) i]
    define cur1 where "cur1 = utf16_scan_cursor_resume_utf16 sc cur i"
    have "resumed str cps i cur1" unfolding cur1_def io(3) by (rule resume_utf16_ok [OF io(4,2) s(5,3,2)])
    then obtain d t where d: "cps = d @ t" "at d cur1" "ulen d \<le> i" "c_str cur1 = str" "c_byte_len cur1 = blen cps" by (auto simp: resumed_def)
    define cur2 where "cur2 = floor_loop (wtf8 cps) i cur1"
    have c2: "c_str cur2 = str" "at (floor_cps cps i) cur2"
      using floor_loop_at [of d t cur1 i] d s(2) floor_append [OF d(3)] by (simp_all add: cur2_def)
    obtain q where q: "cps = floor_cps cps i @ q" using floor_prefix by blast
    have "ca' = ca\<lparr>scan_cache := utf16_scan_cursor_store cur2 sc\<rparr>" "flat' = f1" "v = c_p cur2"
      using assms(2) False by (auto simp: utf16_index_to_byte_offset_floor_def f1 s(1) Let_def i cur1_def [symmetric] cur2_def [symmetric])
    moreover have "op_state strs epoch (ca\<lparr>scan_cache := sc\<rparr>) str f1 cps" using o(2) io(1) by (simp add: op_state_def)
    ultimately show ?thesis using op_store [OF _ c2(1) q c2(2), of strs epoch "ca\<lparr>scan_cache := sc\<rparr>" f1] c2(2) by (simp add: at_def)
  qed
qed

lemma resume_byte_ok:
  assumes "scan_ok strs epoch sc" "sc_epoch sc = epoch" "strs str = Some (wtf8 cps)" "str \<noteq> 0" "cps_ok cps"
  obtains d r where "cps = d @ r" "at d (utf16_scan_cursor_resume_byte sc \<lparr>c_str = str, c_byte_len = k, c_p = 0, c_utf16 = 0\<rparr> k)" "blen d \<le> k"
    "c_str (utf16_scan_cursor_resume_byte sc \<lparr>c_str = str, c_byte_len = k, c_p = 0, c_utf16 = 0\<rparr> k) = str"
proof (cases "sc_str sc = str \<and> sc_byte_pos sc \<le> k")
  case True
  then have "bnd (wtf8 cps) (sc_byte_pos sc) (sc_utf16_pos sc)" using assms by (simp add: scan_ok_def)
  then obtain d r where "cps = d @ r" "sc_byte_pos sc = blen d" "sc_utf16_pos sc = ulen d" by (rule bnd_prefix [OF _ assms(5)])
  then show thesis using True that [of d r] by (simp add: utf16_scan_cursor_resume_byte_def utf16_scan_cache_matches_def at_def)
next
  case False
  then show thesis using that [of "[]" cps] by (auto simp: utf16_scan_cursor_resume_byte_def utf16_scan_cache_matches_def at_def)
qed

lemma cover_prefix: "\<exists>r. cps = cover cps i @ r"
proof (induction cps arbitrary: i)
  case (Cons cp cps)
  show ?case using Cons [of "i - length (utf8_bytes cp)"] by auto
qed simp

lemma cover_ascii: "\<forall>cp \<in> set cps. cp < 0x80 \<Longrightarrow> cover cps i = take i cps"
proof (induction cps arbitrary: i)
  case (Cons cp cps)
  then show ?case by (cases i) (auto simp: utf8_bytes_def)
qed simp

theorem byte_offset_correct:
  assumes "op_state strs epoch ca str flat cps" "k \<le> blen cps" "byte_offset_to_utf16 epoch ca str flat k = (ca', flat', v)"
  shows "op_state strs epoch ca' str flat' cps \<and> v = ulen (cover cps k)"
proof -
  obtain f1 a where f1: "str_is_ascii flat = (f1, a)" by fastforce
  note o = op_ascii [OF assms(1) f1]
  have s: "flat_bytes f1 = wtf8 cps" "cps_ok cps" "str \<noteq> 0" "caches_ok strs epoch ca" "strs str = Some (wtf8 cps)" using o(2) by (auto simp: op_state_def)
  show ?thesis
  proof (cases a)
    case True
    note c = ascii_cps [OF s(2) o(1) [THEN iffD1, OF True]]
    have "units (take k cps) = take k cps" using c(3) by (induction cps arbitrary: k) (auto simp: utf16_units_def take_Cons' split: if_splits)
    then have "v = ulen (cover cps k)" using assms(2,3) True cover_ascii [OF c(3), of k] arg_cong [OF c(2), of length]
      by (simp add: byte_offset_to_utf16_def f1 s(1) Let_def)
    moreover have "ca' = ca" "flat' = f1" using assms(3) True by (auto simp: byte_offset_to_utf16_def f1 s(1) Let_def)
    ultimately show ?thesis using o(2) by simp
  next
    case False
    obtain sc cur where i: "utf16_scan_cursor_init epoch (scan_cache ca) str k = (sc, cur)" by fastforce
    note io = init_ok [OF s(4) i]
    define cur1 where "cur1 = utf16_scan_cursor_resume_byte sc cur k"
    obtain d t where d: "cps = d @ t" "at d cur1" "blen d \<le> k" "c_str cur1 = str"
      unfolding cur1_def io(3) by (rule resume_byte_ok [OF io(4,2) s(5,3,2)])
    obtain cur2 ended where l: "offset_loop (wtf8 cps) k cur1 = (cur2, ended)" by fastforce
    have c2: "c_utf16 cur2 = ulen (cover cps k)" "c_str cur2 = str" "ended \<Longrightarrow> at (cover cps k) cur2"
      using offset_loop_at [of d t cur1 k "k - blen d" cur2 ended] d s(2) l assms(2) cover_append [OF d(3)] by simp_all
    obtain q where q: "cps = cover cps k @ q" using cover_prefix by blast
    have e: "ca' = ca\<lparr>scan_cache := (if ended then utf16_scan_cursor_store cur2 sc else sc)\<rparr>" "flat' = f1" "v = c_utf16 cur2"
      using assms(3) False l by (auto simp: byte_offset_to_utf16_def f1 s(1) Let_def i cur1_def [symmetric])
    have "op_state strs epoch (ca\<lparr>scan_cache := sc\<rparr>) str f1 cps" using o(2) io(1) by (simp add: op_state_def)
    then show ?thesis using op_store [OF _ c2(2) q c2(3), of strs epoch "ca\<lparr>scan_cache := sc\<rparr>" f1] c2(1) e by (cases ended) simp_all
  qed
qed

text \<open>
  A range of code units is the half of the pair cut at its start, the characters between the two
  offsets, and the half of the pair cut at its end.
\<close>

lemma ascii_parts:
  assumes "\<forall>cp \<in> set cps. cp < 0x80"
  shows "blen cps = length cps" "units cps = cps"
  using assms by (induction cps) (simp_all add: utf8_bytes_def utf16_units_def)

lemma range_ascii:
  assumes "\<forall>cp \<in> set cps. cp < 0x80" "start < stop"
  shows "\<exists>d mid r. cps = d @ mid @ r \<and> blen d = min start (length cps) \<and> min stop (length cps) = blen d + blen mid
    \<and> take (stop - start) (drop start (units cps)) = units mid"
proof -
  define mid where "mid = take (stop - start) (drop start cps)"
  have "cps = take start cps @ mid @ drop (stop - start) (drop start cps)" unfolding mid_def by (simp only: append_take_drop_id)
  moreover have "\<forall>cp \<in> set (take start cps). cp < 0x80" "\<forall>cp \<in> set mid. cp < 0x80"
    using assms(1) in_set_takeD in_set_dropD unfolding mid_def by fast+
  moreover have "min stop (length cps) = min start (length cps) + length mid" using assms(2) by (simp add: mid_def)
  ultimately show ?thesis using ascii_parts [OF assms(1)]
    by (intro exI [of _ "take start cps"] exI [of _ mid] exI [of _ "drop (stop - start) (drop start cps)"])
      (simp add: ascii_parts mid_def min.commute)
qed

lemma range_loops:
  assumes "cps_ok (d @ t)" "at d cur1" "ulen d \<le> start" "start < stop" "c_byte_len cur1 = blen (d @ t)"
    and l: "range_start_loop (wtf8 (d @ t)) start cur1 = (cur2, pre)" "range_end_loop (wtf8 (d @ t)) stop cur2 = (cur3, suf)"
  obtains e g h where "d @ t = e @ g @ h" "at e cur2" "at (e @ g) cur3" "c_str cur3 = c_str cur1"
    "take (stop - start) (drop start (units (d @ t))) = split_units pre @ units g @ split_units suf"
proof -
  obtain e f where e: "d @ t = e @ f" "at e cur2" "c_str cur2 = c_str cur1" "c_byte_len cur2 = c_byte_len cur1"
      "drop start (units (d @ t)) = split_units pre @ units f" "ulen e = start + length (split_units pre) \<or> f = [] \<and> pre = 0 \<and> ulen e \<le> start"
    using range_start_at [OF assms(1,2,5,3) l(1)] by blast
  have es: "ulen e \<le> stop" using e(6) assms(4) by (auto simp: split_units_def split: if_splits)
  obtain g h where g: "f = g @ h" "at (e @ g) cur3" "c_str cur3 = c_str cur2" "take (stop - ulen e) (units f) = units g @ split_units suf"
    using range_end_at [OF assms(1) [unfolded e(1)] e(2) assms(5) [folded e(4), unfolded e(1)] es l(2) [unfolded e(1)]] by blast
  have "take (stop - start) (split_units pre @ units f) = split_units pre @ units g @ split_units suf"
    using e(6)
  proof
    assume u: "ulen e = start + length (split_units pre)"
    have "take (stop - start) (split_units pre @ units f) = split_units pre @ take (stop - ulen e) (units f)"
      using u assms(4) by (cases "pre = 0") (simp_all add: split_units_def take_Cons')
    then show ?thesis by (simp only: g(4))
  next
    assume "f = [] \<and> pre = 0 \<and> ulen e \<le> start"
    then show ?thesis using g(1,4) by (simp add: split_units_def)
  qed
  then show thesis using that [of e g h] e g by (simp only: append_assoc)
qed

lemma range_split:
  assumes "op_state strs epoch ca str flat cps" "utf16_range_to_byte_range m epoch ca str flat start stop = (ca', flat', bs, be, sp)"
    and "start < stop" "\<not> ascii_bytes (wtf8 cps)"
  shows "op_state strs epoch ca' str flat' cps \<and> (\<exists>d mid r. cps = d @ mid @ r \<and> bs = blen d \<and> be = bs + blen mid
      \<and> take (stop - start) (drop start (units cps)) = split_units (prefix_surrogate sp) @ units mid @ split_units (suffix_surrogate sp))"
proof -
  obtain f1 a where f1: "str_is_ascii flat = (f1, a)" by fastforce
  note o = op_ascii [OF assms(1) f1]
  have s: "flat_bytes f1 = wtf8 cps" "cps_ok cps" "\<not> a" using o assms(4) by (auto simp: op_state_def)
  obtain sc cur where i: "utf16_scan_cursor_init epoch (scan_cache ca) str (blen cps) = (sc, cur)" by fastforce
  obtain ca1 cur1 where r: "utf16_scan_cursor_resume_indexed m epoch (ca\<lparr>scan_cache := sc\<rparr>) (wtf8 cps) cur start = (ca1, cur1)" by fastforce
  obtain d t where d: "cps = d @ t" "at d cur1" "ulen d \<le> start" "c_str cur1 = str" "c_byte_len cur1 = blen cps" "op_state strs epoch ca1 str f1 cps"
    by (rule op_resume [OF o(2) i r])
  obtain cur2 pre where l: "range_start_loop (wtf8 cps) start cur1 = (cur2, pre)" by fastforce
  obtain cur3 suf where l2: "range_end_loop (wtf8 cps) stop cur2 = (cur3, suf)" by fastforce
  obtain e g h where e: "d @ t = e @ g @ h" "at e cur2" "at (e @ g) cur3" "c_str cur3 = c_str cur1"
      "take (stop - start) (drop start (units (d @ t))) = split_units pre @ units g @ split_units suf"
    by (rule range_loops [OF s(2) [unfolded d(1)] d(2,3) assms(3) d(5) [unfolded d(1)] l [unfolded d(1)] l2 [unfolded d(1)]])
  have "utf16_range_to_byte_range m epoch ca str flat start stop = (ca1\<lparr>scan_cache := utf16_scan_cursor_store cur3 (scan_cache ca1)\<rparr>, f1,
      c_p cur2, c_p cur3, \<lparr>prefix_surrogate = pre, suffix_surrogate = suf\<rparr>)"
    using s(3) assms(3) by (simp add: utf16_range_to_byte_range_def f1 s(1) Let_def i r l l2)
  then have v: "bs = c_p cur2" "be = c_p cur3" "sp = \<lparr>prefix_surrogate = pre, suffix_surrogate = suf\<rparr>" "flat' = f1"
      "ca' = ca1\<lparr>scan_cache := utf16_scan_cursor_store cur3 (scan_cache ca1)\<rparr>"
    using assms(2) by simp_all
  have c: "cps = e @ g @ h" using e(1) d(1) by simp
  have "op_state strs epoch ca' str flat' cps"
    unfolding v by (rule op_store [OF d(6) _ _ e(3), of h]) (simp_all only: e(4) d(4) c append_assoc)
  moreover have "bs = blen e" "be = bs + blen g" unfolding v using e(2,3) by (simp_all add: at_def)
  moreover note e(5) [folded d(1)]
  ultimately show ?thesis using c v(3) by auto
qed

theorem range_correct:
  assumes "op_state strs epoch ca str flat cps" "utf16_range_to_byte_range m epoch ca str flat start stop = (ca', flat', bs, be, sp)"
  shows "op_state strs epoch ca' str flat' cps \<and> (\<exists>d mid r. cps = d @ mid @ r \<and> (start < stop \<longrightarrow> bs = blen d) \<and> be = bs + blen mid
      \<and> take (stop - start) (drop start (units cps)) = split_units (prefix_surrogate sp) @ units mid @ split_units (suffix_surrogate sp))"
proof (cases "start < stop")
  case False
  then have "sp = \<lparr>prefix_surrogate = 0, suffix_surrogate = 0\<rparr>" "bs = 0" "be = 0" "ca' = ca" "flat' = flat"
    using assms(2) by (auto simp: utf16_range_to_byte_range_def Let_def)
  then show ?thesis using False assms(1) by (intro conjI exI [of _ "[]"] exI [of _ cps]) (simp_all add: split_units_def)
next
  case lt: True
  obtain f1 a where f1: "str_is_ascii flat = (f1, a)" by fastforce
  note o = op_ascii [OF assms(1) f1]
  have s: "flat_bytes f1 = wtf8 cps" "cps_ok cps" using o(2) by (auto simp: op_state_def)
  show ?thesis
  proof (cases a)
    case True
    note c = ascii_cps [OF s(2) o(1) [THEN iffD1, OF True]]
    have v: "bs = min start (length cps)" "be = min stop (length cps)"
        "sp = \<lparr>prefix_surrogate = 0, suffix_surrogate = 0\<rparr>" "ca' = ca" "flat' = f1"
      using assms(2) True lt s(1) arg_cong [OF c(2), of length] by (auto simp: utf16_range_to_byte_range_def f1 Let_def)
    moreover obtain d mid r where "cps = d @ mid @ r" "blen d = min start (length cps)" "min stop (length cps) = blen d + blen mid"
        "take (stop - start) (drop start (units cps)) = units mid" using range_ascii [OF c(3) lt] by blast
    ultimately show ?thesis using o(2) by (intro conjI exI [of _ d] exI [of _ mid] exI [of _ r]) (simp_all add: split_units_def)
  next
    case False
    then show ?thesis using range_split [OF assms lt] o(1) by blast
  qed
qed

section \<open>The length\<close>

theorem strlen_correct:
  assumes "caches_ok strs epoch ca" "cps_ok cps" "utf16_strlen epoch ca str (wtf8 cps) = (ca', n)"
  shows "caches_ok strs epoch ca' \<and> n = ulen cps"
proof -
  obtain sc cur where i: "utf16_scan_cursor_init epoch (scan_cache ca) str (blen cps) = (sc, cur)" by fastforce
  note io = init_ok [OF assms(1) i]
  have "at [] cur" "c_byte_len cur = blen ([] @ cps)" by (simp_all add: io(3) at_def)
  then have "c_utf16 (strlen_loop (wtf8 cps) cur) = ulen cps" using strlen_loop_at [of "[]" cps cur] assms(2) by simp
  then show ?thesis using assms(3) io(1) by (auto simp: utf16_strlen_def i)
qed

lemma flat_inv_set_utf16_len: "flat_inv (str_flat_set_utf16_len f n) \<longleftrightarrow> flat_inv f"
  by (simp add: flat_inv_def)

lemma flat_utf16_len_unfold:
  "flat_utf16_len epoch ca str flat =
     (case str_is_ascii flat of (f1, a) \<Rightarrow>
        if a then (ca, f1, flat_len f1)
        else if str_flat_cached_utf16_len f1 = STR_UTF16_LEN_UNKNOWN then
          case utf16_strlen epoch ca str (take (unat (flat_len f1)) (flat_bytes f1)) of
            (ca, n) \<Rightarrow> (ca, str_flat_set_utf16_len f1 (word_of_nat n), word_of_nat n)
        else (ca, f1, str_flat_cached_utf16_len f1))"
  by (cases "str_flat_ascii_state flat = STR_ASCII_UNKNOWN") (simp_all add: flat_utf16_len_def str_is_ascii_def Let_def)

theorem flat_utf16_len_correct:
  assumes "op_state strs epoch ca str flat cps" "blen cps < 2 ^ 56 - 1" "flat_utf16_len epoch ca str flat = (ca', flat', n)"
  shows "op_state strs epoch ca' str flat' cps \<and> unat n = ulen cps"
proof -
  obtain f1 a where f1: "str_is_ascii flat = (f1, a)" by fastforce
  note o = op_ascii [OF assms(1) f1]
  have s: "flat_bytes f1 = wtf8 cps" "cps_ok cps" "caches_ok strs epoch ca" "unat (flat_len f1) = blen cps" using o(2) by (auto simp: op_state_def flat_inv_def)
  have l1: "utf16_len_ok f1" using o(2) by (simp add: op_state_def)
  note e = assms(3) [unfolded flat_utf16_len_unfold f1 s(1) prod.case, simplified s(4) take_all order_refl]
  consider (ascii) a | (unknown) "\<not> a" "str_flat_cached_utf16_len f1 = STR_UTF16_LEN_UNKNOWN" | (known) "\<not> a" "str_flat_cached_utf16_len f1 \<noteq> STR_UTF16_LEN_UNKNOWN"
    by blast
  then show ?thesis
  proof cases
    case ascii
    have "ulen cps = length cps" "blen cps = length cps" using ascii_cps [OF s(2)] o(1) ascii by simp_all
    then show ?thesis using e ascii o(2) l1 s(4) by auto
  next
    case unknown
    obtain ca2 k where k: "utf16_strlen epoch ca str (wtf8 cps) = (ca2, k)" by fastforce
    note sl = strlen_correct [OF s(3,2) k]
    have kb: "k < 2 ^ 56" using sl ulen_le_blen [of cps] assms(2) by simp
    have ku: "unat (word_of_nat k :: u64) = k" using kb by (simp add: unat_of_nat)
    have "unat (take_bit 56 (word_of_nat k :: u64)) = k" using kb ku by (simp add: unat_low)
    then have "utf16_len_ok (str_flat_set_utf16_len f1 (word_of_nat k))" using sl s(1) ulen_units [OF s(2)] by (simp add: utf16_len_ok_def)
    moreover have "ca' = ca2" "flat' = str_flat_set_utf16_len f1 (word_of_nat k)" "n = word_of_nat k" using e unknown k by auto
    ultimately show ?thesis using sl o(2) ku by (simp add: op_state_def flat_inv_set_utf16_len)
  next
    case known
    have "str_flat_ascii_state f1 = STR_ASCII_NO"
      using is_ascii_correct(5) [of flat] assms(1) o known(1) f1 by (auto simp: op_state_def flat_inv_def)
    then have "unat (str_flat_cached_utf16_len f1) = ulen cps" using l1 known(2) s(1) ulen_units [OF s(2)] by (simp add: utf16_len_ok_def)
    then show ?thesis using e known o(2) l1 by auto
  qed
qed

text \<open>
  The header keeps what was computed: it says whether the string is ASCII, it holds the length when it
  is not, and another call answers from the header without looking at the bytes or the caches.
\<close>

theorem flat_utf16_len_stored:
  assumes "op_state strs epoch ca str flat cps" "blen cps < 2 ^ 56 - 1" "flat_utf16_len epoch ca str flat = (ca', flat', n)"
  shows "if ascii_bytes (wtf8 cps) then str_flat_ascii_state flat' = STR_ASCII_YES
      else str_flat_ascii_state flat' = STR_ASCII_NO \<and> str_flat_cached_utf16_len flat' = n"
    and "flat_utf16_len epoch2 ca2 str2 flat' = (ca2, flat', n)"
proof -
  obtain f1 a where f1: "str_is_ascii flat = (f1, a)" by fastforce
  note o = op_ascii [OF assms(1) f1]
  have s: "flat_bytes f1 = wtf8 cps" "caches_ok strs epoch ca" "cps_ok cps" "unat (flat_len f1) = blen cps" "flat_inv f1"
    using o(2) by (auto simp: op_state_def flat_inv_def)
  have st: "str_flat_ascii_state f1 = (if a then STR_ASCII_YES else STR_ASCII_NO)"
    using is_ascii_correct(5) [of flat] assms(1) f1 s(1,5) o(1) by (auto simp: op_state_def flat_inv_def)
  have again: "str_is_ascii f = (f, a)" if "str_flat_ascii_state f = str_flat_ascii_state f1" for f
    using that st by (auto simp: str_is_ascii_def Let_def)
  note e = assms(3) [unfolded flat_utf16_len_unfold f1 s(1) prod.case, simplified s(4) take_all order_refl]
  consider (same) "flat' = f1" "n = (if a then flat_len f1 else str_flat_cached_utf16_len f1)"
      "a \<or> str_flat_cached_utf16_len f1 \<noteq> STR_UTF16_LEN_UNKNOWN"
    | (stored) "\<not> a" "flat' = str_flat_set_utf16_len f1 n" "take_bit 56 n = n" "n \<noteq> STR_UTF16_LEN_UNKNOWN"
  proof (cases "a \<or> str_flat_cached_utf16_len f1 \<noteq> STR_UTF16_LEN_UNKNOWN")
    case True
    then show ?thesis using e by (intro same) (auto split: if_splits)
  next
    case False
    obtain ca2 k where k: "utf16_strlen epoch ca str (wtf8 cps) = (ca2, k)" by fastforce
    have kb: "k < 2 ^ 56 - 1" using strlen_correct [OF s(2,3) k] ulen_le_blen [of cps] assms(2) by simp
    have n: "flat' = str_flat_set_utf16_len f1 n" "n = word_of_nat k" using e k False by auto
    have u: "unat n = k" using kb by (simp add: n(2) unat_of_nat)
    have "unat STR_UTF16_LEN_UNKNOWN = 2 ^ 56 - 1" by (simp add: STR_UTF16_LEN_UNKNOWN_def STR_META_UTF16_MASK_def STR_META_ASCII_SHIFT_def)
    then show ?thesis using False n u kb by (intro stored) (auto simp: word_unat_eq_iff unat_low)
  qed
  note cases = this
  show "if ascii_bytes (wtf8 cps) then str_flat_ascii_state flat' = STR_ASCII_YES
      else str_flat_ascii_state flat' = STR_ASCII_NO \<and> str_flat_cached_utf16_len flat' = n"
    by (rule cases) (use st o(1) in auto)
  show "flat_utf16_len epoch2 ca2 str2 flat' = (ca2, flat', n)"
    by (rule cases) (use again [of flat'] in \<open>auto simp: flat_utf16_len_unfold\<close>)
qed

section \<open>Sequences of accesses, allocations and collections\<close>

text \<open>
  The string heap as the accesses see it: the live strings by address, the sweep epoch and the
  caches. A sweep frees strings and starts a new epoch, and only then can an address be used
  again. The epoch is a natural number here; the source counts in 64 bits.
\<close>

record str_heap =
  sh_live :: "nat \<Rightarrow> flat_string option"
  sh_epoch :: nat
  sh_caches :: utf16_caches

datatype str_access =
    Code_unit_at nat | Codepoint_at nat | Byte_offset nat | Byte_offset_floor nat | Byte_range nat nat | Utf16_offset nat | Utf16_len
  | Is_ascii | Is_valid_utf8

fun run_access :: "mem \<Rightarrow> nat \<Rightarrow> utf16_caches \<Rightarrow> nat \<Rightarrow> flat_string \<Rightarrow> str_access \<Rightarrow> utf16_caches \<times> flat_string" where
  "run_access m epoch ca str f (Code_unit_at i) = (case utf16_code_unit_at m epoch ca str f i of (ca, f, _) \<Rightarrow> (ca, f))"
| "run_access m epoch ca str f (Codepoint_at i) = (case utf16_codepoint_at m epoch ca str f i of (ca, f, _) \<Rightarrow> (ca, f))"
| "run_access m epoch ca str f (Byte_offset i) = (case utf16_index_to_byte_offset m epoch ca str f i of (ca, f, _) \<Rightarrow> (ca, f))"
| "run_access m epoch ca str f (Byte_offset_floor i) = (case utf16_index_to_byte_offset_floor epoch ca str f i of (ca, f, _) \<Rightarrow> (ca, f))"
| "run_access m epoch ca str f (Byte_range i j) = (case utf16_range_to_byte_range m epoch ca str f i j of (ca, f, _) \<Rightarrow> (ca, f))"
| "run_access m epoch ca str f (Utf16_offset k) = (case byte_offset_to_utf16 epoch ca str f (min k (length (flat_bytes f))) of (ca, f, _) \<Rightarrow> (ca, f))"
| "run_access m epoch ca str f Utf16_len = (case flat_utf16_len epoch ca str f of (ca, f, _) \<Rightarrow> (ca, f))"
| "run_access m epoch ca str f Is_ascii = (ca, fst (str_is_ascii f))"
| "run_access m epoch ca str f Is_valid_utf8 = (ca, fst (str_is_valid_utf8 f))"

definition string_ok :: "flat_string \<Rightarrow> bool" where
  "string_ok f \<longleftrightarrow> flat_inv f \<and> utf16_len_ok f \<and> length (flat_bytes f) < 2 ^ 56 - 1 \<and> (\<exists>cps. cps_ok cps \<and> flat_bytes f = wtf8 cps)"

inductive str_step :: "str_heap \<Rightarrow> str_heap \<Rightarrow> bool" where
  access: "sh_live h a = Some f \<Longrightarrow> run_access m (sh_epoch h) (sh_caches h) a f op = (ca, f') \<Longrightarrow>
    str_step h (h\<lparr>sh_live := (sh_live h)(a \<mapsto> f'), sh_caches := ca\<rparr>)"
| alloc: "sh_live h a = None \<Longrightarrow> a \<noteq> 0 \<Longrightarrow> string_ok f \<Longrightarrow> str_step h (h\<lparr>sh_live := (sh_live h)(a \<mapsto> f)\<rparr>)"
| sweep: "\<forall>a. live a = None \<or> live a = sh_live h a \<Longrightarrow> str_step h (h\<lparr>sh_live := live, sh_epoch := sh_epoch h + 1\<rparr>)"

definition heap_strs :: "str_heap \<Rightarrow> nat \<Rightarrow> bytes option" where
  "heap_strs h a = map_option flat_bytes (sh_live h a)"

definition str_heap_inv :: "str_heap \<Rightarrow> bool" where
  "str_heap_inv h \<longleftrightarrow> (\<forall>a f. sh_live h a = Some f \<longrightarrow> a \<noteq> 0 \<and> string_ok f) \<and> caches_ok (heap_strs h) (sh_epoch h) (sh_caches h)"

text \<open>The state the thread starts with: nothing cached, epoch 1, no live string.\<close>

definition str_heap_init :: str_heap where
  "str_heap_init = \<lparr>sh_live = (\<lambda>_. None), sh_epoch = 1,
     sh_caches = \<lparr>scan_cache = \<lparr>sc_epoch = 0, sc_str = 0, sc_byte_len = 0, sc_byte_pos = 0, sc_utf16_pos = 0\<rparr>,
       index_cache = \<lparr>ic_epoch = 0, ic_victim = 0, ic_mru = 0, ic_entries = replicate UTF16_INDEX_WAYS empty_entry\<rparr>\<rparr>\<rparr>"

lemma init_inv: "str_heap_inv str_heap_init"
  by (simp add: str_heap_inv_def str_heap_init_def caches_ok_def scan_ok_def index_ok_def entry_ok_def empty_entry_def UTF16_INDEX_WAYS_def)

lemma caches_more: "caches_ok strs epoch ca \<Longrightarrow> strs \<subseteq>\<^sub>m strs' \<Longrightarrow> caches_ok strs' epoch ca"
  unfolding caches_ok_def scan_ok_def index_ok_def entry_ok_def map_le_def by (metis domI)

lemma caches_sweep: "caches_ok strs epoch ca \<Longrightarrow> caches_ok strs' (epoch + 1) ca"
  by (auto simp: caches_ok_def scan_ok_def index_ok_def)

lemma access_ok:
  assumes "op_state strs epoch ca str f cps" "blen cps < 2 ^ 56 - 1" "run_access m epoch ca str f op = (ca', f')"
  shows "op_state strs epoch ca' str f' cps"
proof -
  have k: "min x (length (flat_bytes f)) \<le> blen cps" for x using assms(1) by (simp add: op_state_def)
  show ?thesis
  proof (cases op)
    case (Code_unit_at i)
    obtain x g v where e: "utf16_code_unit_at m epoch ca str f i = (x, g, v)" by (metis prod_cases3)
    show ?thesis using code_unit_at_correct [OF assms(1) e] assms(3) by (simp add: Code_unit_at e)
  next
    case (Codepoint_at i)
    obtain x g v where e: "utf16_codepoint_at m epoch ca str f i = (x, g, v)" by (metis prod_cases3)
    show ?thesis using codepoint_at_correct [OF assms(1) e] assms(3) by (simp add: Codepoint_at e)
  next
    case (Byte_offset i)
    obtain x g v where e: "utf16_index_to_byte_offset m epoch ca str f i = (x, g, v)" by (metis prod_cases3)
    show ?thesis using index_to_byte_offset_correct [OF assms(1) e] assms(3) by (simp add: Byte_offset e)
  next
    case (Byte_offset_floor i)
    obtain x g v where e: "utf16_index_to_byte_offset_floor epoch ca str f i = (x, g, v)" by (metis prod_cases3)
    show ?thesis using index_floor_correct [OF assms(1) e] assms(3) by (simp add: Byte_offset_floor e)
  next
    case (Byte_range i j)
    obtain x g v1 v2 v where e: "utf16_range_to_byte_range m epoch ca str f i j = (x, g, v1, v2, v)" by (metis prod_cases5)
    show ?thesis using range_correct [OF assms(1) e] assms(3) by (simp add: Byte_range e)
  next
    case (Utf16_offset i)
    obtain x g v where e: "byte_offset_to_utf16 epoch ca str f (min i (length (flat_bytes f))) = (x, g, v)" by (metis prod_cases3)
    show ?thesis using byte_offset_correct [OF assms(1) k e] assms(3) by (simp add: Utf16_offset e)
  next
    case Utf16_len
    obtain x g v where e: "flat_utf16_len epoch ca str f = (x, g, v)" by (metis prod_cases3)
    show ?thesis using flat_utf16_len_correct [OF assms(1,2) e] assms(3) by (simp add: Utf16_len e)
  next
    case Is_ascii
    obtain g v where e: "str_is_ascii f = (g, v)" by fastforce
    show ?thesis using op_ascii(2) [OF assms(1) e] assms(3) by (simp add: Is_ascii e)
  next
    case Is_valid_utf8
    obtain g v where e: "str_is_valid_utf8 f = (g, v)" by fastforce
    show ?thesis using is_valid_utf8_correct [of f] len_ok_is_valid [of f] assms(1,3) e by (auto simp: Is_valid_utf8 op_state_def)
  qed
qed

lemma str_step_inv:
  assumes "str_heap_inv h" "str_step h h'"
  shows "str_heap_inv h'"
  using assms(2,1)
proof cases
  case (access a f m op ca f')
  then have f: "a \<noteq> 0" "string_ok f" "caches_ok (heap_strs h) (sh_epoch h) (sh_caches h)" using assms(1) by (auto simp: str_heap_inv_def)
  then obtain cps where cps: "cps_ok cps" "flat_bytes f = wtf8 cps" by (auto simp: string_ok_def)
  have "op_state (heap_strs h) (sh_epoch h) (sh_caches h) a f cps"
    using f cps access(2) by (simp add: op_state_def string_ok_def heap_strs_def)
  then have o: "op_state (heap_strs h) (sh_epoch h) ca a f' cps" using access_ok [OF _ _ access(3)] f(2) cps by (simp add: string_ok_def)
  then have "string_ok f'" using f(2) cps by (auto simp: op_state_def string_ok_def)
  moreover have "heap_strs h' = heap_strs h" using o cps access(1,2) by (auto simp: heap_strs_def fun_eq_iff op_state_def)
  ultimately show ?thesis using assms(1) f(1) o access(1) by (auto simp: str_heap_inv_def op_state_def split: if_splits)
next
  case (alloc a f)
  have "heap_strs h \<subseteq>\<^sub>m heap_strs h'" using alloc by (auto simp: map_le_def heap_strs_def)
  then show ?thesis using assms(1) alloc caches_more [of "heap_strs h"] by (auto simp: str_heap_inv_def split: if_splits)
next
  case (sweep live)
  then show ?thesis using assms(1) caches_sweep by (auto simp: str_heap_inv_def) (metis option.distinct(1))+
qed

theorem reachable_inv: "str_step\<^sup>*\<^sup>* str_heap_init h \<Longrightarrow> str_heap_inv h"
  by (induction rule: rtranclp_induct) (auto simp: init_inv intro: str_step_inv)

text \<open>In every reachable state an access sees the code units of the string, whatever was accessed before.\<close>

text \<open>What every access of a live string finds in a reachable heap.\<close>

lemma reachable_op_state:
  assumes "str_step\<^sup>*\<^sup>* str_heap_init h" "sh_live h a = Some f" "flat_bytes f = wtf8 cps" "cps_ok cps"
  shows "op_state (heap_strs h) (sh_epoch h) (sh_caches h) a f cps" "blen cps < 2 ^ 56 - 1"
proof -
  have "a \<noteq> 0" "string_ok f" "caches_ok (heap_strs h) (sh_epoch h) (sh_caches h)" "heap_strs h a = Some (wtf8 cps)"
    using reachable_inv [OF assms(1)] assms(2,3) by (auto simp: str_heap_inv_def heap_strs_def)
  then show "op_state (heap_strs h) (sh_epoch h) (sh_caches h) a f cps" "blen cps < 2 ^ 56 - 1"
    using assms(3,4) by (simp_all add: op_state_def string_ok_def)
qed

text \<open>A one-string heap, for concrete instances.\<close>

definition heap_of :: "nat list \<Rightarrow> str_heap" where
  "heap_of cps = str_heap_init\<lparr>sh_live := (\<lambda>_. None)(1 \<mapsto>
     str_flat_init_meta \<lparr>flat_len = word_of_nat (length (wtf8 cps)), flat_meta = 0, flat_bytes = wtf8 cps\<rparr> STR_ASCII_UNKNOWN)\<rparr>"

lemma heap_of_reachable:
  assumes "cps_ok cps" "blen cps < 2 ^ 56 - 1"
  shows "str_step\<^sup>*\<^sup>* str_heap_init (heap_of cps)"
proof -
  have "string_ok (str_flat_init_meta \<lparr>flat_len = word_of_nat (length (wtf8 cps)), flat_meta = 0, flat_bytes = wtf8 cps\<rparr> STR_ASCII_UNKNOWN)"
    using assms by (auto simp: string_ok_def flat_inv_def utf16_len_ok_def unat_of_nat)
  from str_step.alloc [of str_heap_init 1, OF _ _ this] show ?thesis
    by (simp add: heap_of_def str_heap_init_def r_into_rtranclp)
qed

end
