(* ===== verification/Utf8_Export.thy ===== *)
theory Utf8_Export
  imports Utf16_Access
begin

text \<open>
  Strings leaving the runtime as UTF-8 (\<open>src/src/utf8.c\<close>, \<open>src/include/gc/strings.h\<close>, \<open>TextEncoder\<close> of
  \<open>src/src/modules/textcodec.c\<close>): a string that is valid UTF-8 is copied, in any other surrogate
  pairs are joined and everything else that is not a code point becomes U+FFFD.
  \<open>utf8proc_encode_char\<close> and \<open>utf8proc_iterate\<close> are parameters; \<open>utf8_iterator\<close> states what the
  documentation of the latter says: the length and the value of the code point the bytes start with,
  an error when they start with none.
\<close>

unbundle bit_operations_syntax

definition utf8_iterator :: "(bytes \<Rightarrow> (nat \<times> nat) option) \<Rightarrow> bool" where
  "utf8_iterator iter \<longleftrightarrow>
     (\<forall>cp rest. scalar cp \<longrightarrow> iter (utf8_bytes cp @ rest) = Some (length (utf8_bytes cp), cp))
     \<and> (\<forall>s n cp. iter s = Some (n, cp) \<longrightarrow> scalar cp \<and> n = length (utf8_bytes cp) \<and> (\<exists>rest. s = utf8_bytes cp @ rest))"

definition utf8_wtf8_surrogate_at :: "bytes \<Rightarrow> u16 option" where
  "utf8_wtf8_surrogate_at str =
     (if 2 \<ge> length str \<or> str ! 0 \<noteq> 0xed \<or> str ! 1 AND 0xe0 \<noteq> 0xa0 \<or> str ! 2 AND 0xc0 \<noteq> 0x80 then None
      else
        let out = push_bit 12 (ucast (str ! 0 AND 0x0f)) OR push_bit 6 (ucast (str ! 1 AND 0x3f)) OR ucast (str ! 2 AND 0x3f) :: u16
        in if 0xd800 \<le> out \<and> out \<le> 0xdfff then Some out else None)"

text \<open>One round of the loop of \<open>utf8_export_wtf8\<close>: the bytes to write, the bytes consumed, the code units read.\<close>

definition export_piece :: "(nat \<Rightarrow> bytes) \<Rightarrow> (bytes \<Rightarrow> (nat \<times> nat) option) \<Rightarrow> bytes \<Rightarrow> bytes \<times> nat \<times> nat" where
  "export_piece enc iter src =
     (case utf8_wtf8_surrogate_at src of
        Some first \<Rightarrow>
          (case if first \<le> 0xdbff then utf8_wtf8_surrogate_at (drop 3 src) else None of
             Some second \<Rightarrow>
               if second \<ge> 0xdc00 then
                 let cp = 0x10000 + push_bit 10 (ucast (first - 0xd800)) + ucast (second - 0xdc00) :: u32
                 in (enc (unat cp), 6, 2)
               else (FFFD, 3, 1)
           | None \<Rightarrow> (FFFD, 3, 1))
      | None \<Rightarrow>
          (case iter src of
             Some (n, cp) \<Rightarrow> (take n src, n, if cp \<ge> 0x10000 then 2 else 1)
           | None \<Rightarrow> (FFFD, 1, 1)))"

function export_loop :: "(nat \<Rightarrow> bytes) \<Rightarrow> (bytes \<Rightarrow> (nat \<times> nat) option) \<Rightarrow> nat \<Rightarrow> bytes \<Rightarrow> bytes \<Rightarrow> nat \<Rightarrow> bytes \<times> nat" where
  "export_loop enc iter dst_len src out read_units =
     (if src = [] then (out, read_units)
      else
        case export_piece enc iter src of (piece, consumed, n_units) \<Rightarrow>
          if length piece > dst_len - length out then (out, read_units)
          else export_loop enc iter dst_len (drop (max 1 consumed) src) (out @ piece) (read_units + n_units))"
  by pat_completeness auto
termination
  by (relation "measure (\<lambda>(enc, iter, n, src, _). length src)") auto

declare export_loop.simps [simp del]

text \<open>
  \<open>utf8_export_wtf8\<close>: the bytes written and the code units read. \<open>utf8proc_iterate\<close> never returns 0,
  so the \<open>max 1\<close> of the loop never applies; it makes the recursion end for every parameter.
\<close>

definition utf8_export_wtf8 :: "(nat \<Rightarrow> bytes) \<Rightarrow> (bytes \<Rightarrow> (nat \<times> nat) option) \<Rightarrow> bytes \<Rightarrow> nat \<Rightarrow> bytes \<times> nat" where
  "utf8_export_wtf8 enc iter str dst_len = export_loop enc iter dst_len str [] 0"

definition utf8_export_length_slow ::
  "(nat \<Rightarrow> bytes) \<Rightarrow> (bytes \<Rightarrow> (nat \<times> nat) option) \<Rightarrow> flat_string \<Rightarrow> flat_string \<times> nat" where
  "utf8_export_length_slow enc iter flat =
     (case str_is_valid_utf8 flat of
        (flat, True) \<Rightarrow> (flat, length (flat_bytes flat))
      | (flat, False) \<Rightarrow>
          let len = length (fst (utf8_export_wtf8 enc iter (flat_bytes flat) SIZE_MAX))
          in (if len = length (flat_bytes flat) then str_flat_set_utf_valid_state flat STR_UTF_INVALID_SAME_LENGTH else flat, len))"

definition utf8_export_length ::
  "(nat \<Rightarrow> bytes) \<Rightarrow> (bytes \<Rightarrow> (nat \<times> nat) option) \<Rightarrow> flat_string \<Rightarrow> flat_string \<times> nat" where
  "utf8_export_length enc iter flat =
     (let str_len = length (flat_bytes flat)
      in if str_len = 0 then (flat, 0)
         else
           let state = str_flat_utf_valid_state flat
           in if state = STR_UTF_VALID \<or> state = STR_UTF_INVALID_SAME_LENGTH then (flat, str_len)
              else if state = STR_UTF_UNKNOWN then
                (case str_is_ascii flat of
                   (flat, True) \<Rightarrow> (flat, str_len)
                 | (flat, False) \<Rightarrow> utf8_export_length_slow enc iter flat)
              else utf8_export_length_slow enc iter flat)"

text \<open>The length of a valid string cut to \<open>len\<close> bytes, moved back to the start of a character.\<close>

primrec cut_back :: "bytes \<Rightarrow> nat \<Rightarrow> nat" where
  "cut_back str 0 = 0"
| "cut_back str (Suc len) = (if str ! Suc len AND 0xc0 = 0x80 then cut_back str len else Suc len)"

text \<open>\<open>want_units\<close> says whether the caller passes a place for the number of units read.\<close>

definition utf8_export_into ::
  "(nat \<Rightarrow> bytes) \<Rightarrow> (bytes \<Rightarrow> (nat \<times> nat) option) \<Rightarrow> nat \<Rightarrow> utf16_caches \<Rightarrow> nat \<Rightarrow> flat_string \<Rightarrow> nat \<Rightarrow> bool
    \<Rightarrow> utf16_caches \<times> flat_string \<times> bytes \<times> nat option" where
  "utf8_export_into enc iter epoch ca str flat dst_len want_units =
     (let s = flat_bytes flat; str_len = length s
      in if str_len = 0 then (ca, flat, [], if want_units then Some 0 else None)
         else
           (case str_is_valid_utf8 flat of
              (flat, False) \<Rightarrow>
                (case utf8_export_wtf8 enc iter s dst_len of
                   (out, read_units) \<Rightarrow> (ca, flat, out, if want_units then Some read_units else None))
            | (flat, True) \<Rightarrow>
                let len = min str_len dst_len;
                    len = (if len < str_len then cut_back s len else len)
                in if want_units then
                     (case utf16_strlen epoch ca str (take len s) of (ca, read_units) \<Rightarrow> (ca, flat, take len s, Some read_units))
                   else (ca, flat, take len s, None)))"

text \<open>\<open>te_encode\<close>: the bytes of the \<open>Uint8Array\<close>, whose buffer is as long as the string.\<close>

definition te_encode ::
  "mem \<Rightarrow> (nat \<Rightarrow> bytes) \<Rightarrow> (bytes \<Rightarrow> (nat \<times> nat) option) \<Rightarrow> nat \<Rightarrow> utf16_caches \<Rightarrow> nat \<Rightarrow> flat_string
    \<Rightarrow> utf16_caches \<times> flat_string \<times> bytes outcome" where
  "te_encode m enc iter epoch ca str flat =
     (if \<not> heap_ok m (length (flat_bytes flat)) then (ca, flat, Inl (js_mkerr ''out of memory''))
      else
        case utf8_export_into enc iter epoch ca str flat (length (flat_bytes flat)) False of
          (ca, flat, out, _) \<Rightarrow> (ca, flat, Inr out))"

text \<open>\<open>encodeInto\<close>: the bytes written to a destination of \<open>available\<close> bytes, and \<open>{read, written}\<close>.\<close>

definition textencoder_encode_into ::
  "(nat \<Rightarrow> bytes) \<Rightarrow> (bytes \<Rightarrow> (nat \<times> nat) option) \<Rightarrow> nat \<Rightarrow> utf16_caches \<Rightarrow> nat \<Rightarrow> flat_string \<Rightarrow> nat option
    \<Rightarrow> utf16_caches \<times> flat_string \<times> (bytes \<times> nat \<times> nat) outcome" where
  "textencoder_encode_into enc iter epoch ca str flat dest =
     (case dest of
        None \<Rightarrow> (ca, flat, Inl (js_mkerr_type ''Second argument must be a Uint8Array''))
      | Some available \<Rightarrow>
          (case utf8_export_into enc iter epoch ca str flat available True of
             (ca, flat, out, read_units) \<Rightarrow> (ca, flat, Inr (out, the read_units, length out))))"

section \<open>Surrogates in the bytes\<close>

lemma u16_masks: "unat (ucast (b :: byte) :: u16) = unat b"
  using unat_lt_B8 [of b] by (simp add: unsigned_ucast_eq take_bit_nat_eq_self del: unat_lt_B8)

lemma six_bit_step16:
  assumes "unat cp < 2 ^ 10" "x < 64"
  shows "unat (push_bit 6 cp OR ucast (byte_of (0x80 + x) AND 0x3F) :: u16) = unat cp * 64 + x"
proof -
  have "unat (ucast (byte_of (0x80 + x) AND 0x3F) :: u16) = x" using assms(2) by (simp add: u16_masks byte_masks unat_low mod_add_eq [symmetric])
  then show ?thesis using assms unat_shl_or [of cp 6 "ucast (byte_of (0x80 + x) AND 0x3F)"] by simp
qed

lemma or3_16: "push_bit 12 a OR push_bit 6 b OR c = push_bit 6 (push_bit 6 a OR b) OR (c :: u16)"
  by (simp add: push_bit_or or.assoc)

definition surrogate :: "nat \<Rightarrow> bool" where
  "surrogate cp \<longleftrightarrow> 0xD800 \<le> cp \<and> cp < 0xE000"

lemma surrogate_at_utf8:
  assumes "cp < 0x110000"
  shows "utf8_wtf8_surrogate_at (utf8_bytes cp @ rest) = (if surrogate cp then Some (word_of_nat cp) else None)"
  using assms
proof (cases rule: utf8_bytes_cases)
  case (three k x1 x2)
  let ?a = "ucast (byte_of (0xE0 + k) AND 0x0F) :: u16" let ?b = "push_bit 6 ?a OR ucast (byte_of (0x80 + x1) AND 0x3F)"
  have "unat ?a = k" using three by (simp add: u16_masks byte_masks unat_low mod_add_eq [symmetric])
  then have "unat ?b = k * 64 + x1" using three six_bit_step16 [of ?a x1] by simp
  then have v: "unat (push_bit 6 ?b OR ucast (byte_of (0x80 + x2) AND 0x3F)) = cp" using three six_bit_step16 [of ?b x2] by simp
  have e0: "byte_of (0x80 + x1) AND 0xe0 = 0xa0 \<longleftrightarrow> 32 \<le> x1" 
  proof -
    have "(128 + x1) div 32 = (if x1 < 32 then 4 else 5)" using three(4) by (auto simp: div_nat_eqI)
    then show ?thesis using three(4) high_masks(3) [of "byte_of (0x80 + x1)"] by (simp add: word_unat_eq_iff)
  qed
  have c0: "byte_of (0x80 + x2) AND 0xc0 = 0x80" using three by (simp add: high_mask_tests)
  have ed: "byte_of (0xE0 + k) = 0xed \<longleftrightarrow> k = 13" using three by (simp add: word_unat_eq_iff)
  have sg: "surrogate cp \<longleftrightarrow> k = 13 \<and> 32 \<le> x1" 
  proof -
    consider "k < 13" | "k = 13" | "14 \<le> k" by linarith
    then show ?thesis using three(1,3-5) by cases (auto simp: surrogate_def)
  qed
  show ?thesis
  proof (cases "surrogate cp")
    case True
    have "push_bit 12 ?a OR push_bit 6 (ucast (byte_of (0x80 + x1) AND 0x3F)) OR ucast (byte_of (0x80 + x2) AND 0x3F) = word_of_nat cp"
      unfolding or3_16 by (rule u16_of_unat [OF v])
    moreover have "0xd800 \<le> (word_of_nat cp :: u16)" "(word_of_nat cp :: u16) \<le> 0xdfff"
      using True by (simp_all add: word_le_nat_alt unat_of_nat surrogate_def)
    ultimately show ?thesis using True sg e0 c0 ed by (simp add: utf8_wtf8_surrogate_at_def three(6) Let_def del: push_bit_or)
  next
    case False
    then show ?thesis using sg e0 ed by (auto simp: utf8_wtf8_surrogate_at_def three(6) Let_def)
  qed
next
  case one
  then have "\<not> surrogate cp" "byte_of cp \<noteq> 0xed" by (auto simp: surrogate_def word_unat_eq_iff)
  then show ?thesis by (simp add: utf8_wtf8_surrogate_at_def one(2))
next
  case (two k x)
  have "\<not> surrogate cp" using two(1,3,4) by (simp add: surrogate_def)
  moreover have "byte_of (0xC0 + k) \<noteq> 0xed" using two(3) by (simp add: word_unat_eq_iff)
  ultimately show ?thesis by (simp add: utf8_wtf8_surrogate_at_def two(5))
next
  case (four k x1 x2 x3)
  have "\<not> surrogate cp" using four(2) by (simp add: surrogate_def)
  moreover have "byte_of (0xF0 + k) \<noteq> 0xed" using four(3) by (simp add: word_unat_eq_iff)
  ultimately show ?thesis by (simp add: utf8_wtf8_surrogate_at_def four(7))
qed

section \<open>What is exported\<close>

definition high_surrogate :: "nat \<Rightarrow> bool" where
  "high_surrogate cp \<longleftrightarrow> 0xD800 \<le> cp \<and> cp < 0xDC00"

definition low_surrogate :: "nat \<Rightarrow> bool" where
  "low_surrogate cp \<longleftrightarrow> 0xDC00 \<le> cp \<and> cp < 0xE000"

definition join_pair :: "nat \<Rightarrow> nat \<Rightarrow> nat" where
  "join_pair hi lo = 0x10000 + (hi - 0xD800) * 1024 + (lo - 0xDC00)"

text \<open>The code points of the string with the pairs joined and the lone surrogates replaced.\<close>

fun to_well_formed :: "nat list \<Rightarrow> nat list" where
  "to_well_formed [] = []"
| "to_well_formed [cp] = [if surrogate cp then 0xFFFD else cp]"
| "to_well_formed (cp # cp2 # cps) =
     (if high_surrogate cp \<and> low_surrogate cp2 then join_pair cp cp2 # to_well_formed cps
      else (if surrogate cp then 0xFFFD else cp) # to_well_formed (cp2 # cps))"

lemma FFFD_bytes: "FFFD = utf8_bytes 0xFFFD"
  by (simp add: utf8_bytes_def byte_of_def)

lemma surrogate_bytes: "surrogate cp \<Longrightarrow> length (utf8_bytes cp) = 3 \<and> length (utf16_units cp) = 1"
  by (simp add: surrogate_def utf8_bytes_def utf16_units_def)

lemma pair_value:
  assumes "high_surrogate hi" "low_surrogate lo"
  shows "unat (0x10000 + push_bit 10 (ucast (word_of_nat hi - 0xd800 :: u16)) + ucast (word_of_nat lo - 0xdc00 :: u16) :: u32) = join_pair hi lo"
    and "scalar (join_pair hi lo)" "0x10000 \<le> join_pair hi lo"
proof -
  have u: "unat (word_of_nat hi :: u16) = hi" "unat (word_of_nat lo :: u16) = lo"
    using assms by (simp_all add: high_surrogate_def low_surrogate_def unat_of_nat)
  have h: "U16_IS_HIGH (word_of_nat hi)" "U16_IS_LOW (word_of_nat lo)"
    using assms by (simp_all add: u16_is_nat u high_surrogate_def low_surrogate_def)
  show v: "unat (0x10000 + push_bit 10 (ucast (word_of_nat hi - 0xd800 :: u16)) + ucast (word_of_nat lo - 0xdc00 :: u16) :: u32) = join_pair hi lo"
    using unat_U16_PAIR [OF h] by (simp add: U16_PAIR_def u join_pair_def)
  show "scalar (join_pair hi lo)" using U16_PAIR_scalar [OF h] v by (simp add: U16_PAIR_def)
  show "0x10000 \<le> join_pair hi lo" by (simp add: join_pair_def)
qed

lemma export_piece_wtf8:
  assumes "utf8_encoder enc" "utf8_iterator iter" "cps_ok (cp # cps)"
  shows "export_piece enc iter (wtf8 (cp # cps)) =
    (if high_surrogate cp \<and> cps \<noteq> [] \<and> low_surrogate (hd cps) then (utf8_bytes (join_pair cp (hd cps)), 6, 2)
     else if surrogate cp then (FFFD, 3, 1)
     else (utf8_bytes cp, length (utf8_bytes cp), length (utf16_units cp)))"
proof -
  have cp: "cp < 0x110000" using assms(3) by simp
  note s1 = surrogate_at_utf8 [OF cp, of "wtf8 cps"]
  show ?thesis
  proof (cases "surrogate cp")
    case False
    then have sc: "scalar cp" using cp by (auto simp: surrogate_def scalar_def)
    then have "iter (utf8_bytes cp @ wtf8 cps) = Some (length (utf8_bytes cp), cp)" using assms(2) by (simp add: utf8_iterator_def)
    then show ?thesis using False s1 by (auto simp: export_piece_def high_surrogate_def surrogate_def utf16_units_length)
  next
    case True
    then have d: "drop 3 (wtf8 (cp # cps)) = wtf8 cps" using surrogate_bytes by simp
    have u: "(word_of_nat cp :: u16) \<le> 0xdbff \<longleftrightarrow> high_surrogate cp" using True by (auto simp: word_le_nat_alt unat_of_nat surrogate_def high_surrogate_def)
    show ?thesis
    proof (cases cps)
      case Nil
      then show ?thesis using True s1 d by (simp add: export_piece_def utf8_wtf8_surrogate_at_def)
    next
      case (Cons cp2 r)
      have cp2: "cp2 < 0x110000" using assms(3) Cons by simp
      have s2: "utf8_wtf8_surrogate_at (wtf8 cps) = (if surrogate cp2 then Some (word_of_nat cp2) else None)" using surrogate_at_utf8 [OF cp2] Cons by simp
      have u2: "surrogate cp2 \<Longrightarrow> (0xdc00 \<le> (word_of_nat cp2 :: u16)) \<longleftrightarrow> low_surrogate cp2" by (auto simp: word_le_nat_alt unat_of_nat surrogate_def low_surrogate_def)
      have e: "enc (join_pair cp cp2) = utf8_bytes (join_pair cp cp2)" if "high_surrogate cp" "low_surrogate cp2"
        using pair_value(2) [OF that] encoder_scalar [OF assms(1)] by blast
      have ls: "low_surrogate cp2 \<Longrightarrow> surrogate cp2" by (simp add: low_surrogate_def surrogate_def)
      show ?thesis
      proof (cases "high_surrogate cp \<and> low_surrogate cp2")
        case p: True
        then show ?thesis using True s1 s2 u u2 d e pair_value(1) [of cp cp2] ls unfolding export_piece_def d by (simp add: Cons Let_def)
      next
        case False
        then show ?thesis using True s1 s2 u u2 ls unfolding export_piece_def d by (auto simp: Cons Let_def)
      qed
    qed
  qed
qed

lemma twf_length: "blen (to_well_formed cps) \<le> blen cps"
proof (induction cps rule: to_well_formed.induct)
  case (2 cp)
  then show ?case using surrogate_bytes [of cp] by (simp add: FFFD_bytes [symmetric])
next
  case (3 cp cp2 cps)
  have p: "length (utf8_bytes (join_pair cp cp2)) \<le> 4" by (simp add: utf8_bytes_def)
  have hl: "high_surrogate cp \<Longrightarrow> length (utf8_bytes cp) = 3" "low_surrogate cp2 \<Longrightarrow> length (utf8_bytes cp2) = 3"
    using surrogate_bytes by (simp_all add: high_surrogate_def low_surrogate_def surrogate_def)
  show ?case
  proof (cases "high_surrogate cp \<and> low_surrogate cp2")
    case True
    then show ?thesis using 3 p hl by simp
  next
    case False
    have "length (utf8_bytes (if surrogate cp then 0xFFFD else cp)) \<le> length (utf8_bytes cp)"
      using surrogate_bytes [of cp] by (simp add: FFFD_bytes [symmetric])
    then show ?thesis using False 3(2) by (auto simp del: wtf8_simps(2)) (simp_all add: wtf8_simps(2))
  qed
qed simp

lemma twf_scalar: "cps_ok cps \<Longrightarrow> \<forall>cp \<in> set (to_well_formed cps). scalar cp"
proof (induction cps rule: to_well_formed.induct)
  case (3 cp cp2 cps)
  then show ?case using pair_value(2) [of cp cp2] by (auto simp: cps_ok_def scalar_def surrogate_def)
qed (auto simp: cps_ok_def scalar_def surrogate_def)

text \<open>The first code point of the exported text, and how many of the string it stands for.\<close>

definition wf_width :: "nat list \<Rightarrow> nat" where
  "wf_width cps = (if 2 \<le> length cps \<and> high_surrogate (cps ! 0) \<and> low_surrogate (cps ! 1) then 2 else 1)"

definition wf_head :: "nat list \<Rightarrow> nat" where
  "wf_head cps = (if wf_width cps = 2 then join_pair (cps ! 0) (cps ! 1) else if surrogate (cps ! 0) then 0xFFFD else cps ! 0)"

lemma twf_step: "cps \<noteq> [] \<Longrightarrow> to_well_formed cps = wf_head cps # to_well_formed (drop (wf_width cps) cps)"
  by (cases cps rule: to_well_formed.cases) (auto simp: wf_head_def wf_width_def numeral_2_eq_2)

lemma piece_wf:
  assumes "utf8_encoder enc" "utf8_iterator iter" "cps_ok cps" "cps \<noteq> []"
  shows "export_piece enc iter (wtf8 cps) = (utf8_bytes (wf_head cps), blen (take (wf_width cps) cps), length (utf16_units (wf_head cps)))"
proof -
  obtain cp r where c: "cps = cp # r" using assms(4) by (cases cps) auto
  note e = export_piece_wtf8 [OF assms(1,2) assms(3) [unfolded c]]
  show ?thesis
  proof (cases "wf_width cps = 2")
    case True
    then obtain cp2 r2 where r: "r = cp2 # r2" "high_surrogate cp" "low_surrogate cp2" using c by (cases r) (auto simp: wf_width_def split: if_splits)
    moreover have "length (utf8_bytes cp) = 3" "length (utf8_bytes cp2) = 3"
      using r(2,3) surrogate_bytes by (simp_all add: high_surrogate_def low_surrogate_def surrogate_def)
    moreover have "wf_head cps = join_pair cp cp2" using True r(1) c by (simp add: wf_head_def)
    ultimately show ?thesis using e True pair_value(3) [OF r(2,3)] c by (simp add: utf16_units_length numeral_2_eq_2)
  next
    case False
    then have w: "wf_width cps = 1" "\<not> (high_surrogate cp \<and> r \<noteq> [] \<and> low_surrogate (hd r))"
      using c by (auto simp: wf_width_def hd_conv_nth Suc_le_eq split: if_splits)
    then show ?thesis using e c surrogate_bytes [of cp] by (auto simp: wf_head_def FFFD_bytes utf16_units_def)
  qed
qed

text \<open>The longest prefix of at most \<open>n\<close> bytes.\<close>

fun fit :: "nat list \<Rightarrow> nat \<Rightarrow> nat list" where
  "fit [] n = []"
| "fit (cp # cps) n = (if length (utf8_bytes cp) \<le> n then cp # fit cps (n - length (utf8_bytes cp)) else [])"

lemma export_loop_wtf8:
  assumes "utf8_encoder enc" "utf8_iterator iter"
  shows "cps_ok cps \<Longrightarrow> length out \<le> n \<Longrightarrow>
    export_loop enc iter n (wtf8 cps) out k =
      (out @ wtf8 (fit (to_well_formed cps) (n - length out)), k + ulen (fit (to_well_formed cps) (n - length out)))"
proof (induction "length cps" arbitrary: cps out k rule: less_induct)
  case less
  show ?case
  proof (cases "cps = []")
    case True
    then show ?thesis by (simp add: export_loop.simps)
  next
    case False
    define w where "w = wf_width cps"
    have w: "1 \<le> w" "w \<le> length cps" using False by (cases cps; simp add: w_def wf_width_def)+
    have sp: "cps = take w cps @ drop w cps" by simp
    have ne: "wtf8 cps \<noteq> []" using False by (cases cps) auto
    have "1 \<le> blen (take w cps)" using w False by (cases cps; cases w) (auto simp: Suc_le_eq)
    then have m: "max 1 (blen (take w cps)) = blen (take w cps)" by simp
    have d: "drop (blen (take w cps)) (wtf8 cps) = wtf8 (drop w cps)" by (subst (2) sp) (simp only: wtf8_simps(3) drop_append drop_all diff_self_eq_0 drop_0 order_refl append_Nil)
    have ok: "cps_ok (drop w cps)" using less.prems(1) by (subst (asm) sp) (simp only: cps_ok_simps)
    note p = piece_wf [OF assms less.prems(1) False, folded w_def]
    note t = twf_step [OF False, folded w_def]
    show ?thesis
    proof (cases "length (utf8_bytes (wf_head cps)) \<le> n - length out")
      case True
      have "export_loop enc iter n (wtf8 cps) out k =
          export_loop enc iter n (wtf8 (drop w cps)) (out @ utf8_bytes (wf_head cps)) (k + length (utf16_units (wf_head cps)))"
        using True ne unfolding export_loop.simps [of _ _ _ "wtf8 cps"] p prod.case m d by simp
      moreover have "length (drop w cps) < length cps" using w by simp
      ultimately show ?thesis using less.hyps [OF _ ok, of "out @ utf8_bytes (wf_head cps)"] True less.prems(2) t by simp
    next
      case False
      then show ?thesis using ne unfolding export_loop.simps [of _ _ _ "wtf8 cps"] p prod.case m d t by simp
    qed
  qed
qed

lemma fit_all: "blen cps \<le> n \<Longrightarrow> fit cps n = cps"
  by (induction cps arbitrary: n) auto

lemma fit_bound: "blen (fit cps n) \<le> n"
proof (induction cps arbitrary: n)
  case (Cons cp cps)
  have "blen (fit cps (n - length (utf8_bytes cp))) \<le> n - length (utf8_bytes cp)" by (rule Cons)
  then show ?case by auto
qed simp

lemma twf_ulen: "ulen (to_well_formed cps) = ulen cps"
proof (induction cps rule: to_well_formed.induct)
  case (3 cp cp2 cps)
  then show ?case using surrogate_bytes [of cp] surrogate_bytes [of cp2] pair_value(3) [of cp cp2]
    by (auto simp: high_surrogate_def low_surrogate_def surrogate_def utf16_units_length)
qed (auto simp: surrogate_def utf16_units_def)

theorem export_wtf8_correct:
  assumes "utf8_encoder enc" "utf8_iterator iter" "cps_ok cps"
  shows "utf8_export_wtf8 enc iter (wtf8 cps) n = (wtf8 (fit (to_well_formed cps) n), ulen (fit (to_well_formed cps) n))"
  using export_loop_wtf8 [OF assms, of "[]" n 0] by (simp add: utf8_export_wtf8_def)

theorem export_all:
  assumes "utf8_encoder enc" "utf8_iterator iter" "cps_ok cps" "blen cps \<le> n"
  shows "utf8_export_wtf8 enc iter (wtf8 cps) n = (wtf8 (to_well_formed cps), ulen cps)"
  using export_wtf8_correct [OF assms(1-3), of n] fit_all [of "to_well_formed cps" n] twf_length [of cps] assms(4) twf_ulen [of cps] by simp

section \<open>Valid strings\<close>

lemma scalar_twf: "\<forall>cp \<in> set cps. scalar cp \<Longrightarrow> to_well_formed cps = cps"
  by (induction cps rule: to_well_formed.induct) (auto simp: scalar_def surrogate_def high_surrogate_def)

lemma scalar_cps_ok: "\<forall>cp \<in> set cps. scalar cp \<Longrightarrow> cps_ok cps"
  by (auto simp: cps_ok_def scalar_def)

lemma utf8_continuation:
  assumes "cp < 0x110000"
  shows "0 < i \<Longrightarrow> i < length (utf8_bytes cp) \<Longrightarrow> utf8_bytes cp ! i AND 0xc0 = 0x80" "utf8_bytes cp ! 0 AND 0xc0 \<noteq> 0x80"
proof -
  have "(0 < i \<longrightarrow> i < length (utf8_bytes cp) \<longrightarrow> utf8_bytes cp ! i AND 0xc0 = 0x80) \<and> utf8_bytes cp ! 0 AND 0xc0 \<noteq> 0x80"
    using assms by (cases rule: utf8_bytes_cases) (auto simp: high_mask_tests nth_Cons' less_Suc_eq)
  then show "0 < i \<Longrightarrow> i < length (utf8_bytes cp) \<Longrightarrow> utf8_bytes cp ! i AND 0xc0 = 0x80" "utf8_bytes cp ! 0 AND 0xc0 \<noteq> 0x80" by blast+
qed

lemma cut_back_run:
  "\<forall>i. b < i \<longrightarrow> i \<le> b + j \<longrightarrow> s ! i AND 0xc0 = 0x80 \<Longrightarrow> b = 0 \<or> s ! b AND 0xc0 \<noteq> 0x80 \<Longrightarrow> cut_back s (b + j) = b"
proof (induction j)
  case 0
  then show ?case by (cases b) simp_all
next
  case (Suc j)
  have "s ! Suc (b + j) AND 0xc0 = 0x80" using Suc.prems(1) by simp
  then show ?case using Suc by simp
qed

lemma fit_split:
  assumes "n < blen cps"
  obtains cp r where "cps = fit cps n @ cp # r" "blen (fit cps n) \<le> n" "n < blen (fit cps n) + length (utf8_bytes cp)"
  using assms
proof (induction cps arbitrary: n thesis)
  case (Cons cp cps)
  show ?case
  proof (cases "length (utf8_bytes cp) \<le> n")
    case True
    obtain c r where "cps = fit cps (n - length (utf8_bytes cp)) @ c # r" "blen (fit cps (n - length (utf8_bytes cp))) \<le> n - length (utf8_bytes cp)"
        "n - length (utf8_bytes cp) < blen (fit cps (n - length (utf8_bytes cp))) + length (utf8_bytes c)"
      by (rule Cons.IH [of "n - length (utf8_bytes cp)"]) (use Cons.prems(2) True in auto)
    then show ?thesis using Cons.prems(1) [of c r] True by simp
  next
    case False
    then show ?thesis using Cons.prems(1) [of cp cps] by simp
  qed
qed simp

text \<open>Cutting a valid string at a byte count and moving back gives the longest whole prefix.\<close>

lemma cut_back_fit:
  assumes "cps_ok cps" "n < blen cps"
  shows "cut_back (wtf8 cps) n = blen (fit cps n)"
proof -
  obtain cp r where c: "cps = fit cps n @ cp # r" "blen (fit cps n) \<le> n" "n < blen (fit cps n) + length (utf8_bytes cp)"
    by (rule fit_split [OF assms(2)])
  define b where "b = blen (fit cps n)"
  have bn: "b \<le> n" "n < b + length (utf8_bytes cp)" using c(2,3) by (simp_all only: b_def)
  have "cps_ok (fit cps n @ cp # r)" using assms(1) by (simp only: c(1) [symmetric])
  then have cp: "cp < 0x110000" by simp
  have w: "wtf8 cps = wtf8 (fit cps n) @ utf8_bytes cp @ wtf8 r" using arg_cong [OF c(1), of wtf8] by (simp only: wtf8_simps)
  have nth: "wtf8 cps ! (b + i) = utf8_bytes cp ! i" if "i < length (utf8_bytes cp)" for i
    unfolding w using that by (simp add: b_def nth_append)
  obtain j where j: "n = b + j" using le_Suc_ex [OF bn(1)] by (elim exE)
  have "wtf8 cps ! i AND 0xc0 = 0x80" if "b < i" "i \<le> b + j" for i
  proof -
    define q where "q = i - b"
    then have q: "i = b + q" using that(1) by simp
    then have "0 < q" "q < length (utf8_bytes cp)" using that j bn(2) by linarith+
    then show ?thesis using nth [of q] utf8_continuation(1) [OF cp, of q] by (simp only: q)
  qed
  moreover have "wtf8 cps ! b AND 0xc0 \<noteq> 0x80" using nth [of 0] utf8_continuation(2) [OF cp] by simp
  ultimately have "cut_back (wtf8 cps) (b + j) = b" by (intro cut_back_run allI impI disjI2)
  then have "cut_back (wtf8 cps) n = b" by (subst j)
  then show ?thesis by (simp only: b_def)
qed

text \<open>A string has one reading as code points.\<close>

lemma wtf8_inj: "cps_ok a \<Longrightarrow> cps_ok b \<Longrightarrow> wtf8 a = wtf8 b \<Longrightarrow> a = b"
proof (induction a arbitrary: b)
  case Nil
  then show ?case by (cases b) auto
next
  case (Cons x a)
  then obtain y b' where b: "b = y # b'" by (cases b) auto
  have xy: "x < 0x110000" "y < 0x110000" using Cons.prems b by simp_all
  have e: "utf8_bytes x @ wtf8 a = utf8_bytes y @ wtf8 b'" using Cons.prems(3) b by simp
  have "(word_of_nat x :: u32) = word_of_nat y"
    using decode_utf8(1) [OF xy(1), of "wtf8 a"] decode_utf8(1) [OF xy(2), of "wtf8 b'"] unfolding e by simp
  then have "x = y" using xy by (auto simp: word_unat_eq_iff unat_of_nat)
  with e b Cons show ?case by simp
qed

lemma valid_scalar:
  assumes "cps_ok cps" "utf8_validate_bytes (wtf8 cps)"
  shows "\<forall>cp \<in> set cps. scalar cp"
proof -
  obtain qs where qs: "\<forall>cp \<in> set qs. scalar cp" "wtf8 cps = wtf8 qs" using assms(2) validate_iff by (auto simp: wtf8_def)
  then show ?thesis using wtf8_inj [OF assms(1) scalar_cps_ok [OF qs(1)] qs(2)] by simp
qed

lemma fit_ok: "cps_ok cps \<Longrightarrow> cps_ok (fit cps n)"
  by (induction cps arbitrary: n) auto

lemma take_fit: "take (blen (fit cps n)) (wtf8 cps) = wtf8 (fit cps n)"
  by (induction cps arbitrary: n) auto

text \<open>The copy of a valid string is what the general loop would write.\<close>

theorem export_into_correct:
  assumes "utf8_encoder enc" "utf8_iterator iter" "op_state strs epoch ca str flat cps"
    and "utf8_export_into enc iter epoch ca str flat n want = (ca', flat', out, read_units)"
  shows "op_state strs epoch ca' str flat' cps \<and> out = wtf8 (fit (to_well_formed cps) n)
    \<and> read_units = (if want then Some (ulen (fit (to_well_formed cps) n)) else None)"
proof -
  have s: "flat_bytes flat = wtf8 cps" "cps_ok cps" "flat_inv flat" "utf16_len_ok flat" using assms(3) by (auto simp: op_state_def)
  show ?thesis
  proof (cases "wtf8 cps = []")
    case True
    then have "cps = []" by (cases cps) auto
    then show ?thesis using assms(3,4) s(1) by (auto simp: utf8_export_into_def)
  next
    case ne: False
    obtain f1 v where f1: "str_is_valid_utf8 flat = (f1, v)" by fastforce
    have v: "v \<longleftrightarrow> utf8_validate_bytes (wtf8 cps)" "op_state strs epoch ca str f1 cps"
      using is_valid_utf8_correct [OF s(3)] len_ok_is_valid [OF s(4)] assms(3) f1 s(1) by (auto simp: op_state_def)
    show ?thesis
    proof (cases v)
      case False
      then show ?thesis using assms(4) v(2) export_wtf8_correct [OF assms(1,2) s(2), of n] ne by (auto simp: utf8_export_into_def s(1) f1 Let_def)
    next
      case True
      then have "utf8_validate_bytes (wtf8 cps)" using v(1) by simp
      then have t: "to_well_formed cps = cps" by (rule scalar_twf [OF valid_scalar [OF s(2)]])
      define len where "len = (if n < blen cps then cut_back (wtf8 cps) n else blen cps)"
      have l: "len = blen (fit cps n)" using cut_back_fit [OF s(2), of n] fit_all [of cps n] by (simp add: len_def)
      obtain ca1 u where u: "utf16_strlen epoch ca str (wtf8 (fit cps n)) = (ca1, u)" by fastforce
      have "utf8_export_into enc iter epoch ca str flat n want =
          (if want then (case utf16_strlen epoch ca str (take len (wtf8 cps)) of (ca, u) \<Rightarrow> (ca, f1, take len (wtf8 cps), Some u))
           else (ca, f1, take len (wtf8 cps), None))"
        using ne True by (cases "n < blen cps") (simp_all add: utf8_export_into_def s(1) f1 Let_def len_def min_def)
      then have e: "(ca', flat', out, read_units) = (if want then (ca1, f1, wtf8 (fit cps n), Some u) else (ca, f1, wtf8 (fit cps n), None))"
        unfolding l take_fit u assms(4) prod.case .
      have "cps_ok (fit cps n)" using s(2) by (rule fit_ok)
      moreover have "caches_ok strs epoch ca" using v(2) by (simp add: op_state_def)
      ultimately have "caches_ok strs epoch ca1 \<and> u = ulen (fit cps n)" using strlen_correct [OF _ _ u] by blast
      then show ?thesis using e v(2) by (cases want) (simp_all add: t op_state_def)
    qed
  qed
qed

section \<open>TextEncoder and the exported length\<close>

text \<open>The buffer of \<open>te_encode\<close> is as long as the string and the export never needs more: nothing is cut.\<close>

theorem te_encode_correct:
  assumes "utf8_encoder enc" "utf8_iterator iter" "op_state strs epoch ca str flat cps" "heap_ok m (blen cps)"
    and "te_encode m enc iter epoch ca str flat = (ca', flat', res)"
  shows "op_state strs epoch ca' str flat' cps \<and> res = Inr (wtf8 (to_well_formed cps))"
proof -
  have b: "flat_bytes flat = wtf8 cps" using assms(3) by (simp add: op_state_def)
  obtain ca1 f1 out u where e: "utf8_export_into enc iter epoch ca str flat (blen cps) False = (ca1, f1, out, u)" by (metis prod.collapse)
  have "fit (to_well_formed cps) (blen cps) = to_well_formed cps" by (rule fit_all [OF twf_length])
  then show ?thesis using export_into_correct [OF assms(1-3) e] assms(4,5) e b by (simp add: te_encode_def)
qed

text \<open>What the header state \<open>STR_UTF_INVALID_SAME_LENGTH\<close> promises.\<close>

definition same_length_ok :: "flat_string \<Rightarrow> nat list \<Rightarrow> bool" where
  "same_length_ok f cps \<longleftrightarrow> (str_flat_utf_valid_state f = STR_UTF_INVALID_SAME_LENGTH \<longrightarrow> blen (to_well_formed cps) = blen cps)"

lemma is_ascii_states:
  "str_flat_utf_valid_state (fst (str_is_ascii f)) \<in> {STR_UTF_UNKNOWN, str_flat_utf_valid_state f}"
  by (simp add: str_is_ascii_def Let_def detect_ascii_iff)

lemma is_valid_states:
  assumes "flat_inv f"
  shows "str_flat_utf_valid_state (fst (str_is_valid_utf8 f)) \<in> {STR_UTF_UNKNOWN, STR_UTF_VALID, STR_UTF_INVALID, str_flat_utf_valid_state f}"
    and "str_flat_ascii_state (fst (str_is_valid_utf8 f)) \<noteq> STR_ASCII_UNKNOWN"
proof -
  obtain f1 a where f1: "str_is_ascii f = (f1, a)" by fastforce
  have "str_flat_utf_valid_state f1 \<in> {STR_UTF_UNKNOWN, str_flat_utf_valid_state f}" "str_flat_ascii_state f1 \<noteq> STR_ASCII_UNKNOWN"
    using is_ascii_states [of f] is_ascii_correct(5) [OF assms] f1 by simp_all
  then show "str_flat_utf_valid_state (fst (str_is_valid_utf8 f)) \<in> {STR_UTF_UNKNOWN, STR_UTF_VALID, STR_UTF_INVALID, str_flat_utf_valid_state f}"
    and "str_flat_ascii_state (fst (str_is_valid_utf8 f)) \<noteq> STR_ASCII_UNKNOWN"
    by (auto simp: str_is_valid_utf8_def f1 Let_def)
qed

lemma export_length_slow_correct:
  assumes "utf8_encoder enc" "utf8_iterator iter" "flat_inv f" "flat_bytes f = wtf8 cps" "cps_ok cps" "blen cps \<le> SIZE_MAX"
    and "same_length_ok f cps" "utf8_export_length_slow enc iter f = (f', n)"
  shows "n = blen (to_well_formed cps) \<and> flat_inv f' \<and> same_length_ok f' cps \<and> flat_bytes f' = flat_bytes f"
proof -
  obtain f1 v where f1: "str_is_valid_utf8 f = (f1, v)" by fastforce
  have v: "v \<longleftrightarrow> utf8_validate_bytes (wtf8 cps)" "flat_inv f1" "flat_bytes f1 = wtf8 cps"
    "str_flat_utf_valid_state f1 \<in> {STR_UTF_UNKNOWN, STR_UTF_VALID, STR_UTF_INVALID, str_flat_utf_valid_state f}"
    "str_flat_ascii_state f1 \<noteq> STR_ASCII_UNKNOWN"
    using is_valid_utf8_correct [OF assms(3)] is_valid_states [OF assms(3)] f1 assms(4) by simp_all
  have k: "same_length_ok f1 cps" using v(4) assms(7) by (auto simp: same_length_ok_def)
  have e: "fst (utf8_export_wtf8 enc iter (wtf8 cps) SIZE_MAX) = wtf8 (to_well_formed cps)"
    using export_all [OF assms(1,2,5,6)] by simp
  show ?thesis
  proof (cases v)
    case True
    then have "utf8_validate_bytes (wtf8 cps)" using v(1) by simp
    then have "to_well_formed cps = cps" by (rule scalar_twf [OF valid_scalar [OF assms(5)]])
    then show ?thesis using True assms(4,8) v(2,3) k by (simp add: utf8_export_length_slow_def f1)
  next
    case False
    then have inv: "flat_inv (str_flat_set_utf_valid_state f1 STR_UTF_INVALID_SAME_LENGTH)" using v by (auto simp: flat_inv_def)
    show ?thesis using False assms(4,8) v(2,3) k inv
      by (auto simp: utf8_export_length_slow_def f1 Let_def e same_length_ok_def split: if_splits)
  qed
qed

text \<open>The exported length is the length of the export, and the header keeps its promise.\<close>

theorem export_length_correct:
  assumes "utf8_encoder enc" "utf8_iterator iter" "flat_inv f" "flat_bytes f = wtf8 cps" "cps_ok cps" "blen cps \<le> SIZE_MAX"
    and "same_length_ok f cps" "utf8_export_length enc iter f = (f', n)"
  shows "n = blen (to_well_formed cps) \<and> flat_inv f' \<and> same_length_ok f' cps \<and> flat_bytes f' = flat_bytes f"
proof -
  have t: "to_well_formed cps = cps" if "utf8_validate_bytes (wtf8 cps)"
    using that by (rule scalar_twf [OF valid_scalar [OF assms(5)]])
  consider (empty) "wtf8 cps = []" | (valid) "wtf8 cps \<noteq> []" "str_flat_utf_valid_state f = STR_UTF_VALID"
    | (same) "wtf8 cps \<noteq> []" "str_flat_utf_valid_state f = STR_UTF_INVALID_SAME_LENGTH"
    | (unknown) "wtf8 cps \<noteq> []" "str_flat_utf_valid_state f = STR_UTF_UNKNOWN"
    | (slow) "wtf8 cps \<noteq> []" "str_flat_utf_valid_state f = STR_UTF_INVALID"
    using assms(3) by (auto simp: flat_inv_def split: if_splits)
  then show ?thesis
  proof cases
    case empty
    then have "cps = []" by (cases cps) auto
    then show ?thesis using assms by (simp add: utf8_export_length_def)
  next
    case valid
    then have "utf8_validate_bytes (wtf8 cps)" using assms(3,4) by (auto simp: flat_inv_def split: if_splits)
    then show ?thesis using valid assms t by (simp add: utf8_export_length_def)
  next
    case same
    then show ?thesis using assms by (simp add: utf8_export_length_def same_length_ok_def)
  next
    case unknown
    obtain f1 a where f1: "str_is_ascii f = (f1, a)" by fastforce
    have a: "a \<longleftrightarrow> ascii_bytes (wtf8 cps)" "flat_inv f1" "flat_bytes f1 = wtf8 cps" "str_flat_utf_valid_state f1 = STR_UTF_UNKNOWN"
      using is_ascii_correct [OF assms(3)] is_ascii_states [of f] f1 assms(4) unknown(2) by simp_all
    have k: "same_length_ok f1 cps" by (simp add: same_length_ok_def a(4))
    show ?thesis
    proof (cases a)
      case True
      then show ?thesis using unknown assms(4,8) a k t ascii_validate [of "wtf8 cps"] f1 by (simp add: utf8_export_length_def)
    next
      case False
      then have "utf8_export_length_slow enc iter f1 = (f', n)" using unknown assms(4,8) f1 by (simp add: utf8_export_length_def)
      from export_length_slow_correct [OF assms(1,2) a(2,3) assms(5,6) k this] show ?thesis using a(3) assms(4) by simp
    qed
  next
    case slow
    then have "utf8_export_length_slow enc iter f = (f', n)" using assms(4,8) by (simp add: utf8_export_length_def)
    from export_length_slow_correct [OF assms(1-7) this] show ?thesis .
  qed
qed

section \<open>An iterator\<close>

text \<open>A concrete iterator, which shows that the assumption can hold.\<close>

definition iterate_utf8 :: "bytes \<Rightarrow> (nat \<times> nat) option" where
  "iterate_utf8 s =
     (case s of
        [] \<Rightarrow> None
      | c # t \<Rightarrow>
          if c < 0x80 then Some (1, unat c)
          else case validate_lead c of
                 None \<Rightarrow> None
               | Some (n, lo, hi) \<Rightarrow>
                   if lead_ok c (take n t) then Some (n + 1, unat (cp_fold c (cp_mask n) (take n t))) else None)"

lemma lead_ok_length: "lead_ok c t \<Longrightarrow> \<exists>lo hi. validate_lead c = Some (length t, lo, hi)"
  by (auto simp: lead_ok_def split: option.splits)

lemma utf8_bytes_inj: "x < 0x110000 \<Longrightarrow> y < 0x110000 \<Longrightarrow> utf8_bytes x = utf8_bytes y \<Longrightarrow> x = y"
  using wtf8_inj [of "[x]" "[y]"] by simp

lemma iterate_utf8_iterator: "utf8_iterator iterate_utf8"
  unfolding utf8_iterator_def
proof (intro conjI allI impI)
  fix cp rest assume sc: "scalar cp"
  then have lt: "cp < 0x110000" by (auto simp: scalar_def)
  show "iterate_utf8 (utf8_bytes cp @ rest) = Some (length (utf8_bytes cp), cp)"
  proof (cases "cp < 0x80")
    case True
    then show ?thesis by (simp add: utf8_bytes_def iterate_utf8_def word_less_nat_alt)
  next
    case False
    obtain c t where ct: "utf8_bytes cp = c # t" by (rule utf8_bytes_cons)
    have l: "lead_ok c t" using scalar_lead_ok [OF _ sc ct] False by simp
    have "\<not> c < 0x80" using l by (auto elim!: lead_okE simp: word_less_nat_alt)
    moreover have "unat (cp_fold c (cp_mask (length t)) t) = cp"
      using lead_ok_value(2,3) [OF l] ct lt by (intro utf8_bytes_inj) (auto simp: scalar_def)
    ultimately show ?thesis using lead_ok_length [OF l] l by (auto simp: iterate_utf8_def ct)
  qed
next
  fix s n cp assume "iterate_utf8 s = Some (n, cp)"
  then obtain c t where s: "s = c # t" and r: "iterate_utf8 (c # t) = Some (n, cp)" by (cases s) (auto simp: iterate_utf8_def)
  have "scalar cp \<and> n = length (utf8_bytes cp) \<and> (\<exists>rest. c # t = utf8_bytes cp @ rest)"
  proof (cases "c < 0x80")
    case True
    then have "n = 1" "cp = unat c" using r by (auto simp: iterate_utf8_def)
    then show ?thesis using True by (auto simp: scalar_def word_less_nat_alt utf8_bytes_def byte_of_def)
  next
    case False
    then obtain k lo hi where v: "validate_lead c = Some (k, lo, hi)" "lead_ok c (take k t)" "n = k + 1" "cp = unat (cp_fold c (cp_mask k) (take k t))"
      using r by (auto simp: iterate_utf8_def split: option.splits if_splits)
    have k: "length (take k t) = k" using lead_ok_length [OF v(2)] v(1) by auto
    have b: "utf8_bytes cp = c # take k t" using lead_ok_value(3) [OF v(2)] k v(4) by simp
    have "c # t = utf8_bytes cp @ drop k t" by (simp add: b)
    then have "\<exists>rest. c # t = utf8_bytes cp @ rest" ..
    then show ?thesis using lead_ok_value(2) [OF v(2)] k v(3,4) b by simp
  qed
  then show "scalar cp" "n = length (utf8_bytes cp)" "\<exists>rest. s = utf8_bytes cp @ rest" using s by blast+
qed

end
