(* ===== verification/Uri.thy ===== *)
theory Uri
  imports Utf16_Scan Bigint_String
begin

text \<open>
  The URI functions of the global object (\<open>src/src/modules/uri.c\<close>): \<open>encodeURIComponent\<close>,
  \<open>encodeURI\<close>, their inverses, \<open>escape\<close> and \<open>unescape\<close>. An argument is a string value or another
  value; a string is read up to its first zero byte, as \<open>strlen\<close> does. The buffers are byte lists;
  that they are never written past their capacity is shown below.
\<close>

unbundle bit_operations_syntax

definition uri_unreserved :: "nat list" where
  "uri_unreserved =
    [0, 0, 0, 0, 0, 0, 0, 0, 0, 0, 0, 0, 0, 0, 0, 0,
     0, 0, 0, 0, 0, 0, 0, 0, 0, 0, 0, 0, 0, 0, 0, 0,
     0, 1, 0, 0, 0, 0, 0, 1, 1, 1, 1, 0, 0, 1, 1, 0,
     1, 1, 1, 1, 1, 1, 1, 1, 1, 1, 0, 0, 0, 0, 0, 0,
     0, 1, 1, 1, 1, 1, 1, 1, 1, 1, 1, 1, 1, 1, 1, 1,
     1, 1, 1, 1, 1, 1, 1, 1, 1, 1, 1, 0, 0, 0, 0, 1,
     0, 1, 1, 1, 1, 1, 1, 1, 1, 1, 1, 1, 1, 1, 1, 1,
     1, 1, 1, 1, 1, 1, 1, 1, 1, 1, 1, 0, 0, 0, 1, 0,
     0, 0, 0, 0, 0, 0, 0, 0, 0, 0, 0, 0, 0, 0, 0, 0,
     0, 0, 0, 0, 0, 0, 0, 0, 0, 0, 0, 0, 0, 0, 0, 0,
     0, 0, 0, 0, 0, 0, 0, 0, 0, 0, 0, 0, 0, 0, 0, 0,
     0, 0, 0, 0, 0, 0, 0, 0, 0, 0, 0, 0, 0, 0, 0, 0,
     0, 0, 0, 0, 0, 0, 0, 0, 0, 0, 0, 0, 0, 0, 0, 0,
     0, 0, 0, 0, 0, 0, 0, 0, 0, 0, 0, 0, 0, 0, 0, 0,
     0, 0, 0, 0, 0, 0, 0, 0, 0, 0, 0, 0, 0, 0, 0, 0,
     0, 0, 0, 0, 0, 0, 0, 0, 0, 0, 0, 0, 0, 0, 0, 0]"

definition uri_reserved :: "nat list" where
  "uri_reserved =
    [0, 0, 0, 0, 0, 0, 0, 0, 0, 0, 0, 0, 0, 0, 0, 0,
     0, 0, 0, 0, 0, 0, 0, 0, 0, 0, 0, 0, 0, 0, 0, 0,
     0, 0, 0, 1, 1, 0, 1, 0, 0, 0, 0, 1, 1, 0, 0, 1,
     0, 0, 0, 0, 0, 0, 0, 0, 0, 0, 1, 1, 0, 1, 0, 1,
     1, 0, 0, 0, 0, 0, 0, 0, 0, 0, 0, 0, 0, 0, 0, 0,
     0, 0, 0, 0, 0, 0, 0, 0, 0, 0, 0, 0, 0, 0, 0, 0,
     0, 0, 0, 0, 0, 0, 0, 0, 0, 0, 0, 0, 0, 0, 0, 0,
     0, 0, 0, 0, 0, 0, 0, 0, 0, 0, 0, 0, 0, 0, 0, 0,
     0, 0, 0, 0, 0, 0, 0, 0, 0, 0, 0, 0, 0, 0, 0, 0,
     0, 0, 0, 0, 0, 0, 0, 0, 0, 0, 0, 0, 0, 0, 0, 0,
     0, 0, 0, 0, 0, 0, 0, 0, 0, 0, 0, 0, 0, 0, 0, 0,
     0, 0, 0, 0, 0, 0, 0, 0, 0, 0, 0, 0, 0, 0, 0, 0,
     0, 0, 0, 0, 0, 0, 0, 0, 0, 0, 0, 0, 0, 0, 0, 0,
     0, 0, 0, 0, 0, 0, 0, 0, 0, 0, 0, 0, 0, 0, 0, 0,
     0, 0, 0, 0, 0, 0, 0, 0, 0, 0, 0, 0, 0, 0, 0, 0,
     0, 0, 0, 0, 0, 0, 0, 0, 0, 0, 0, 0, 0, 0, 0, 0]"

definition is_uri_unreserved :: "byte \<Rightarrow> bool" where
  "is_uri_unreserved c \<longleftrightarrow> uri_unreserved ! unat c \<noteq> 0"

definition is_uri_reserved :: "byte \<Rightarrow> bool" where
  "is_uri_reserved c \<longleftrightarrow> uri_reserved ! unat c \<noteq> 0"

definition is_valid_continuation :: "byte \<Rightarrow> bool" where
  "is_valid_continuation c \<longleftrightarrow> c AND 0xC0 = 0x80"

definition is_lone_surrogate :: "bytes \<Rightarrow> nat \<Rightarrow> bool" where
  "is_lone_surrogate str seq_len \<longleftrightarrow> seq_len = 3 \<and> str ! 0 = 0xED \<and> 0xA0 \<le> str ! 1 \<and> str ! 1 \<le> 0xBF"

text \<open>The byte an escape at the head of the string stands for, and what follows it.\<close>

definition decode_escape_sequence :: "bytes \<Rightarrow> (byte \<times> bytes) option" where
  "decode_escape_sequence str =
     (if 2 \<ge> length str then None
      else if str ! 0 \<noteq> 0x25 then None
      else
        let high = hex_digit (str ! 1); low = hex_digit (str ! 2)
        in if high < 0 \<or> low < 0 then None
           else Some (word_of_int (push_bit 4 high OR low), drop 3 str))"

text \<open>The text \<open>snprintf\<close> writes for \<open>%02X\<close> after a percent sign.\<close>

definition hex_upper :: "nat \<Rightarrow> byte" where
  "hex_upper d = byte_of (if d < 10 then 0x30 + d else 0x41 + (d - 10))"

definition percent :: "byte \<Rightarrow> bytes" where
  "percent c = [0x25, hex_upper (unat c div 16), hex_upper (unat c mod 16)]"

section \<open>Encoding\<close>

text \<open>The loop of both encoders; \<open>keep\<close> is the test for the bytes copied as they are.\<close>

function encode_loop :: "(byte \<Rightarrow> bool) \<Rightarrow> bytes \<Rightarrow> bytes \<Rightarrow> bytes option" where
  "encode_loop keep str out =
     (if str = [] then Some out
      else
        let c = hd str
        in if keep c then encode_loop keep (tl str) (out @ [c])
           else
             let seq_len = utf8_sequence_length c; n = nat seq_len
             in if seq_len < 0 then None
                else if n > length str then None
                else if list_ex (\<lambda>b. \<not> is_valid_continuation b) (drop 1 (take n str)) then None
                else if is_lone_surrogate str n then None
                else encode_loop keep (drop n str) (out @ concat (map percent (take n str))))"
  by pat_completeness auto
termination
proof (relation "measure (\<lambda>(keep, str, out). length str)")
  fix str :: bytes and c x xa and keep :: "byte \<Rightarrow> bool" and out :: bytes
  assume a: "str \<noteq> []" "x = hd str" "xa = utf8_sequence_length x" "\<not> xa < 0" "c = nat xa"
  have "xa \<noteq> 0" by (simp add: a(3) utf8_sequence_length_def)
  then have "0 < c" using a(4,5) by simp
  then show "((keep, drop c str, out @ concat (map percent (take c str))), keep, str, out) \<in> measure (\<lambda>(keep, str, out). length str)"
    using a(1) by simp
qed auto

declare encode_loop.simps [simp del]

text \<open>What \<open>js_getstr\<close> and \<open>strlen\<close> make of the first argument: nothing when it is not a string.\<close>

definition js_getstr :: "js_value \<Rightarrow> bytes option" where
  "js_getstr v = (case v of JsString s \<Rightarrow> Some s | _ \<Rightarrow> None)"

definition uri_encode :: "mem \<Rightarrow> (byte \<Rightarrow> bool) \<Rightarrow> js_value list \<Rightarrow> bytes outcome" where
  "uri_encode m keep args =
     (if args = [] then Inr (ascii ''undefined'')
      else case js_getstr (hd args) of
             None \<Rightarrow> Inr []
           | Some s \<Rightarrow>
               let str = c_string s
               in if \<not> heap_ok m (length str * 12 + 1) then Inl (js_mkerr ''out of memory'')
                  else case encode_loop keep str [] of
                         None \<Rightarrow> Inl (js_mkerr_uri ''URI malformed'')
                       | Some out \<Rightarrow> Inr out)"

definition js_encodeURIComponent :: "mem \<Rightarrow> js_value list \<Rightarrow> bytes outcome" where
  "js_encodeURIComponent m args = uri_encode m is_uri_unreserved args"

definition js_encodeURI :: "mem \<Rightarrow> js_value list \<Rightarrow> bytes outcome" where
  "js_encodeURI m args = uri_encode m (\<lambda>c. is_uri_unreserved c \<or> is_uri_reserved c) args"

section \<open>Decoding\<close>

text \<open>The escapes of \<open>n\<close> continuation bytes.\<close>

primrec decode_conts :: "nat \<Rightarrow> bytes \<Rightarrow> bytes \<Rightarrow> (bytes \<times> bytes) option" where
  "decode_conts 0 str out = Some (str, out)"
| "decode_conts (Suc n) str out =
     (case decode_escape_sequence str of
        None \<Rightarrow> None
      | Some (cont_byte, rest) \<Rightarrow>
          if \<not> is_valid_continuation cont_byte then None else decode_conts n rest (out @ [cont_byte]))"

text \<open>The first byte is written and the rest of its sequence read.\<close>

definition decode_sequence :: "byte \<Rightarrow> bytes \<Rightarrow> bytes \<Rightarrow> (bytes \<times> bytes) option" where
  "decode_sequence first_byte str out =
     (let seq_len = utf8_sequence_length first_byte
      in if seq_len < 0 then None else decode_conts (nat seq_len - 1) str (out @ [first_byte]))"

lemma decode_escape_length: "decode_escape_sequence str = Some (b, rest) \<Longrightarrow> length rest < length str"
  by (auto simp: decode_escape_sequence_def Let_def split: if_splits)

lemma decode_conts_length: "decode_conts n str out = Some (rest, out') \<Longrightarrow> length rest \<le> length str"
proof (induction n arbitrary: str out)
  case (Suc n)
  then obtain b r where b: "decode_escape_sequence str = Some (b, r)" "decode_conts n r (out @ [b]) = Some (rest, out')"
    by (auto split: option.splits if_splits)
  then show ?case using Suc.IH [OF b(2)] decode_escape_length [OF b(1)] by simp
qed simp

lemma decode_sequence_length: "decode_sequence b str out = Some (rest, out') \<Longrightarrow> length rest \<le> length str"
  by (auto simp: decode_sequence_def Let_def dest: decode_conts_length split: if_splits)

function decode_component_loop :: "bytes \<Rightarrow> bytes \<Rightarrow> bytes option" where
  "decode_component_loop str out =
     (if str = [] then Some out
      else if hd str \<noteq> 0x25 then decode_component_loop (tl str) (out @ [hd str])
      else case decode_escape_sequence str of
             None \<Rightarrow> None
           | Some (first_byte, rest) \<Rightarrow>
               (case decode_sequence first_byte rest out of
                  None \<Rightarrow> None
                | Some (rest, out) \<Rightarrow> decode_component_loop rest out))"
  by pat_completeness auto
termination
  by (relation "measure (\<lambda>(str, out). length str)") (auto dest!: decode_escape_length decode_sequence_length)

declare decode_component_loop.simps [simp del]

function decode_uri_loop :: "bytes \<Rightarrow> bytes \<Rightarrow> bytes option" where
  "decode_uri_loop str out =
     (if str = [] then Some out
      else if hd str \<noteq> 0x25 then decode_uri_loop (tl str) (out @ [hd str])
      else if 2 \<ge> length str then None
      else
        let high = hex_digit (str ! 1); low = hex_digit (str ! 2)
        in if high < 0 \<or> low < 0 then None
           else
             let first_byte = word_of_int (push_bit 4 high OR low) :: byte
             in if first_byte < 128 \<and> is_uri_reserved first_byte then decode_uri_loop (drop 3 str) (out @ take 3 str)
                else (case decode_sequence first_byte (drop 3 str) out of
                        None \<Rightarrow> None
                      | Some (rest, out) \<Rightarrow> decode_uri_loop rest out))"
  by pat_completeness auto
termination
  by (relation "measure (\<lambda>(str, out). length str)") (auto dest!: decode_sequence_length)

declare decode_uri_loop.simps [simp del]

definition uri_decode :: "mem \<Rightarrow> (bytes \<Rightarrow> bytes \<Rightarrow> bytes option) \<Rightarrow> js_value list \<Rightarrow> bytes outcome" where
  "uri_decode m loop args =
     (if args = [] then Inr (ascii ''undefined'')
      else case js_getstr (hd args) of
             None \<Rightarrow> Inr []
           | Some s \<Rightarrow>
               let str = c_string s
               in if \<not> heap_ok m (length str + 1) then Inl (js_mkerr ''out of memory'')
                  else case loop str [] of
                         None \<Rightarrow> Inl (js_mkerr_uri ''URI malformed'')
                       | Some out \<Rightarrow> Inr out)"

definition js_decodeURIComponent :: "mem \<Rightarrow> js_value list \<Rightarrow> bytes outcome" where
  "js_decodeURIComponent m args = uri_decode m decode_component_loop args"

definition js_decodeURI :: "mem \<Rightarrow> js_value list \<Rightarrow> bytes outcome" where
  "js_decodeURI m args = uri_decode m decode_uri_loop args"

section \<open>escape and unescape\<close>

definition is_escape_unreserved :: "byte \<Rightarrow> bool" where
  "is_escape_unreserved c \<longleftrightarrow>
     (0x41 \<le> c \<and> c \<le> 0x5A) \<or> (0x61 \<le> c \<and> c \<le> 0x7A) \<or> (0x30 \<le> c \<and> c \<le> 0x39) \<or>
     c = 0x40 \<or> c = 0x2A \<or> c = 0x5F \<or> c = 0x2B \<or> c = 0x2D \<or> c = 0x2E \<or> c = 0x2F"

fun escape_loop :: "bytes \<Rightarrow> bytes \<Rightarrow> bytes" where
  "escape_loop [] out = out"
| "escape_loop (c # str) out = escape_loop str (out @ (if is_escape_unreserved c then [c] else percent c))"

definition js_escape :: "mem \<Rightarrow> js_value list \<Rightarrow> bytes outcome" where
  "js_escape m args =
     (if args = [] then Inr (ascii ''undefined'')
      else case js_getstr (hd args) of
             None \<Rightarrow> Inr (ascii ''undefined'')
           | Some s \<Rightarrow>
               let str = c_string s
               in if \<not> heap_ok m (length str * 6 + 1) then Inl (js_mkerr ''out of memory'')
                  else Inr (escape_loop str []))"

function unescape_loop :: "bytes \<Rightarrow> bytes \<Rightarrow> bytes" where
  "unescape_loop str out =
     (if str = [] then out
      else if hd str = 0x25 \<and> 2 < length str \<and> 0 \<le> hex_digit (str ! 1) \<and> 0 \<le> hex_digit (str ! 2) then
        unescape_loop (drop 3 str) (out @ [word_of_int (push_bit 4 (hex_digit (str ! 1)) OR hex_digit (str ! 2))])
      else unescape_loop (tl str) (out @ [hd str]))"
  by pat_completeness auto
termination
  by (relation "measure (\<lambda>(str, out). length str)") auto

declare unescape_loop.simps [simp del]

definition js_unescape :: "mem \<Rightarrow> js_value list \<Rightarrow> bytes outcome" where
  "js_unescape m args =
     (if args = [] then Inr (ascii ''undefined'')
      else case js_getstr (hd args) of
             None \<Rightarrow> Inr (ascii ''undefined'')
           | Some s \<Rightarrow>
               let str = c_string s
               in if \<not> heap_ok m (length str + 1) then Inl (js_mkerr ''out of memory'')
                  else Inr (unescape_loop str []))"

section \<open>Escapes\<close>

lemma hex_digit_upper: "d < 16 \<Longrightarrow> hex_digit (hex_upper d) = int d"
  by (auto simp: hex_digit_def hex_upper_def word_le_nat_alt uint_nat)

lemma nibbles_join: "push_bit 4 (int (unat c div 16)) OR int (unat c mod 16) = int (unat (c :: byte))"
proof -
  have "push_bit 4 (unat c div 16) OR unat c mod 16 = unat c" by (subst push_bit_or_nat) simp_all
  then have "int (push_bit 4 (unat c div 16) OR unat c mod 16) = int (unat c)" by simp
  then show ?thesis by (simp add: of_nat_or_eq of_nat_push_bit)
qed

lemma percent_digits:
  "hex_digit (hex_upper (unat (c :: byte) div 16)) = int (unat c div 16)" "hex_digit (hex_upper (unat c mod 16)) = int (unat c mod 16)"
  by (simp_all add: hex_digit_upper less_mult_imp_div_less)

lemma decode_percent: "decode_escape_sequence (percent c @ rest) = Some (c, rest)"
  by (simp add: decode_escape_sequence_def percent_def percent_digits nibbles_join Let_def del: of_nat_div of_nat_mod)

lemma uri_tables:
  "drop 128 uri_unreserved = replicate 128 0" "drop 128 uri_reserved = replicate 128 0"
  "uri_unreserved ! 0x25 = 0" "uri_reserved ! 0x25 = 0" "length uri_unreserved = 256" "length uri_reserved = 256"
  by (simp_all add: uri_unreserved_def uri_reserved_def numeral_eq_Suc)

lemma uri_kept:
  assumes "is_uri_unreserved c \<or> is_uri_reserved c"
  shows "c < 0x80" "c \<noteq> 0x25"
proof -
  have "uri_unreserved ! n = 0 \<and> uri_reserved ! n = 0" if "128 \<le> n" "n < 256" for n
    using uri_tables(1,2) [THEN arg_cong, of "\<lambda>xs. xs ! (n - 128)"] uri_tables(5,6) that by simp
  then have "unat c < 128" using assms by (metis is_uri_unreserved_def is_uri_reserved_def not_le unat_lt_B8)
  then show "c < 0x80" by (simp add: word_less_nat_alt)
  show "c \<noteq> 0x25" using assms uri_tables(3,4) by (auto simp: is_uri_unreserved_def is_uri_reserved_def)
qed

lemma lead_ok_continuation: "lead_ok c t \<Longrightarrow> b \<in> set t \<Longrightarrow> is_valid_continuation b"
  by (auto elim!: lead_okE simp: is_valid_continuation_def high_mask_tests)

lemma lead_ok_not_surrogate: "lead_ok c t \<Longrightarrow> \<not> is_lone_surrogate (c # t @ rest) (length t + 1)"
  by (auto elim!: lead_okE simp: is_lone_surrogate_def word_le_nat_alt word_unat_eq_iff)

lemma lead_ok_high: "lead_ok c t \<Longrightarrow> \<not> c < 0x80"
  by (auto elim!: lead_okE simp: word_less_nat_alt)

section \<open>Round trips\<close>

text \<open>What an encoder that keeps the bytes \<open>keep\<close> writes for a code point.\<close>

definition enc_char :: "(byte \<Rightarrow> bool) \<Rightarrow> nat \<Rightarrow> bytes" where
  "enc_char keep cp = (if cp < 0x80 \<and> keep (byte_of cp) then [byte_of cp] else concat (map percent (utf8_bytes cp)))"

lemma encode_char:
  assumes "\<And>c. keep c \<Longrightarrow> c < 0x80" "scalar cp"
  shows "encode_loop keep (utf8_bytes cp @ rest) out = encode_loop keep rest (out @ enc_char keep cp)"
proof (cases "cp < 0x80")
  case True
  then have b: "utf8_bytes cp = [byte_of cp]" "utf8_sequence_length (byte_of cp) = 1"
    by (simp_all add: utf8_bytes_def sequence_length_nat)
  show ?thesis by (subst encode_loop.simps) (simp add: b True enc_char_def is_lone_surrogate_def)
next
  case False
  obtain c t where ct: "utf8_bytes cp = c # t" by (rule utf8_bytes_cons)
  have l: "lead_ok c t" using scalar_lead_ok [OF _ assms(2) ct] False by simp
  have k: "\<not> keep c" using assms(1) [of c] lead_ok_high [OF l] by blast
  have n: "utf8_sequence_length c = int (length t) + 1" by (rule lead_ok_sequence_length [OF l])
  have "\<not> list_ex (\<lambda>b. \<not> is_valid_continuation b) t" using lead_ok_continuation [OF l] by (simp add: list_ex_iff)
  then show ?thesis using False k n lead_ok_not_surrogate [OF l, of rest]
    by (subst encode_loop.simps) (simp add: ct enc_char_def nat_add_distrib)
qed

lemma encode_text:
  assumes "\<And>c. keep c \<Longrightarrow> c < 0x80"
  shows "\<forall>cp \<in> set cps. scalar cp \<Longrightarrow>
    encode_loop keep (concat (map utf8_bytes cps)) out = Some (out @ concat (map (enc_char keep) cps))"
proof (induction cps arbitrary: out)
  case Nil
  then show ?case by (simp add: encode_loop.simps)
next
  case (Cons cp cps)
  then show ?case using encode_char [OF assms, of _ cp "concat (map utf8_bytes cps)" out] by simp
qed

lemma decode_conts_percent:
  "\<forall>b \<in> set t. is_valid_continuation b \<Longrightarrow> decode_conts (length t) (concat (map percent t) @ rest) out = Some (rest, out @ t)"
  by (induction t arbitrary: out) (simp_all add: decode_percent)

lemma decode_sequence_percent:
  assumes "scalar cp" "utf8_bytes cp = c # t"
  shows "decode_sequence c (concat (map percent t) @ rest) out = Some (rest, out @ utf8_bytes cp)"
proof (cases "cp < 0x80")
  case True
  then have "c = byte_of cp" "t = []" using assms(2) by (simp_all add: utf8_bytes_def)
  then show ?thesis using True by (simp add: decode_sequence_def sequence_length_nat assms(2))
next
  case False
  have l: "lead_ok c t" using scalar_lead_ok [OF _ assms] False by simp
  show ?thesis using lead_ok_sequence_length [OF l] decode_conts_percent [of t rest] lead_ok_continuation [OF l]
    by (simp add: decode_sequence_def assms(2) nat_add_distrib)
qed

lemma decode_component_char:
  assumes "\<And>c. keep c \<Longrightarrow> c \<noteq> 0x25" "scalar cp"
  shows "decode_component_loop (enc_char keep cp @ rest) out = decode_component_loop rest (out @ utf8_bytes cp)"
proof (cases "cp < 0x80 \<and> keep (byte_of cp)")
  case True
  then show ?thesis using assms(1) by (subst decode_component_loop.simps) (auto simp: enc_char_def utf8_bytes_def)
next
  case False
  obtain c t where ct: "utf8_bytes cp = c # t" by (rule utf8_bytes_cons)
  have e: "enc_char keep cp @ rest = percent c @ concat (map percent t) @ rest" using False by (auto simp: enc_char_def ct)
  show ?thesis unfolding e
    by (subst decode_component_loop.simps) (simp add: decode_percent decode_sequence_percent [OF assms(2) ct], simp add: percent_def)
qed

lemma decode_uri_char:
  assumes "\<And>c. keep c \<Longrightarrow> c \<noteq> 0x25" "\<And>c. is_uri_reserved c \<Longrightarrow> keep c" "scalar cp"
  shows "decode_uri_loop (enc_char keep cp @ rest) out = decode_uri_loop rest (out @ utf8_bytes cp)"
proof (cases "cp < 0x80 \<and> keep (byte_of cp)")
  case True
  then show ?thesis using assms(1) by (subst decode_uri_loop.simps) (auto simp: enc_char_def utf8_bytes_def)
next
  case False
  obtain c t where ct: "utf8_bytes cp = c # t" by (rule utf8_bytes_cons)
  have e: "enc_char keep cp @ rest = percent c @ concat (map percent t) @ rest" using False by (auto simp: enc_char_def ct)
  have r: "\<not> (c < 128 \<and> is_uri_reserved c)"
  proof (cases "cp < 0x80")
    case True
    then have "c = byte_of cp" using ct by (simp add: utf8_bytes_def)
    then show ?thesis using True False assms(2) by auto
  next
    case F: False
    then show ?thesis using lead_ok_high [OF scalar_lead_ok [OF _ assms(3) ct]] by simp
  qed
  show ?thesis unfolding e
    by (subst decode_uri_loop.simps)
      (simp add: percent_def percent_digits nibbles_join r decode_sequence_percent [OF assms(3) ct] Let_def del: of_nat_div of_nat_mod)
qed

lemma decode_text:
  assumes "\<And>c. keep c \<Longrightarrow> c \<noteq> 0x25"
  shows "\<forall>cp \<in> set cps. scalar cp \<Longrightarrow>
      decode_component_loop (concat (map (enc_char keep) cps)) out = Some (out @ concat (map utf8_bytes cps))"
    and "\<forall>cp \<in> set cps. scalar cp \<Longrightarrow> (\<And>c. is_uri_reserved c \<Longrightarrow> keep c) \<Longrightarrow>
      decode_uri_loop (concat (map (enc_char keep) cps)) out = Some (out @ concat (map utf8_bytes cps))"
proof (induction cps arbitrary: out)
  case Nil
  {
    case 1
    then show ?case by (simp add: decode_component_loop.simps)
  next
    case 2
    then show ?case by (simp add: decode_uri_loop.simps)
  }
next
  case (Cons cp cps)
  {
    case 1
    then show ?case using Cons.IH(1) by (simp add: decode_component_char [OF assms])
  next
    case 2
    then show ?case using Cons.IH(2) by (simp add: decode_uri_char [OF assms 2(2)])
  }
qed

lemma percent_nonzero: "0 \<notin> set (percent c)"
proof -
  have "hex_upper d \<noteq> 0" if "d < 16" for d using that by (auto simp: hex_upper_def word_unat_eq_iff)
  then show ?thesis by (auto simp: percent_def less_mult_imp_div_less)
qed

lemma enc_char_nonzero: "cp \<noteq> 0 \<Longrightarrow> 0 \<notin> set (enc_char keep cp)"
  using percent_nonzero by (auto simp: enc_char_def word_unat_eq_iff)

lemma utf8_bytes_nonzero: "scalar cp \<Longrightarrow> cp \<noteq> 0 \<Longrightarrow> 0 \<notin> set (utf8_bytes cp)"
proof -
  assume "scalar cp" "cp \<noteq> 0"
  then have "cp < 0x110000" by (auto simp: scalar_def)
  then show ?thesis using \<open>cp \<noteq> 0\<close> by (cases rule: utf8_bytes_cases) (auto simp: word_unat_eq_iff)
qed

text \<open>A text of scalar values without U+0000, as the runtime stores it, and its encoded forms.\<close>

definition uri_text :: "nat list \<Rightarrow> bool" where
  "uri_text cps \<longleftrightarrow> (\<forall>cp \<in> set cps. scalar cp \<and> cp \<noteq> 0)"

lemma uri_text_strings:
  assumes "uri_text cps"
  shows "c_string (concat (map utf8_bytes cps)) = concat (map utf8_bytes cps)"
    "c_string (concat (map (enc_char keep) cps)) = concat (map (enc_char keep) cps)"
  by (rule c_string_id, use assms utf8_bytes_nonzero enc_char_nonzero in \<open>auto simp: uri_text_def\<close>)+

theorem encode_uri_value:
  assumes "uri_text cps" "\<And>n. heap_ok m n" "keep = is_uri_unreserved \<or> keep = (\<lambda>c. is_uri_unreserved c \<or> is_uri_reserved c)"
  shows "uri_encode m keep [JsString (concat (map utf8_bytes cps))] = Inr (concat (map (enc_char keep) cps))"
proof -
  have k: "keep c \<Longrightarrow> c < 0x80" for c using assms(3) uri_kept(1) [of c] by auto
  have "\<forall>cp \<in> set cps. scalar cp" using assms(1) by (simp add: uri_text_def)
  from encode_text [of keep, OF k this, of "[]"] show ?thesis
    using uri_text_strings(1) [OF assms(1)] assms(2) by (simp add: uri_encode_def js_getstr_def Let_def)
qed

theorem uri_component_roundtrip:
  assumes "uri_text cps" "\<And>n. heap_ok m n"
  shows "\<exists>e. js_encodeURIComponent m [JsString (concat (map utf8_bytes cps))] = Inr e
    \<and> js_decodeURIComponent m [JsString e] = Inr (concat (map utf8_bytes cps))"
proof -
  have "\<forall>cp \<in> set cps. scalar cp" using assms(1) by (simp add: uri_text_def)
  from decode_text(1) [of is_uri_unreserved, OF _ this, of "[]"] uri_kept(2)
  have "decode_component_loop (concat (map (enc_char is_uri_unreserved) cps)) [] = Some (concat (map utf8_bytes cps))" by simp
  then show ?thesis using encode_uri_value [OF assms, of is_uri_unreserved] uri_text_strings(2) [OF assms(1), of is_uri_unreserved] assms(2)
    by (simp add: js_encodeURIComponent_def js_decodeURIComponent_def uri_decode_def js_getstr_def Let_def)
qed

theorem uri_roundtrip:
  assumes "uri_text cps" "\<And>n. heap_ok m n"
  shows "\<exists>e. js_encodeURI m [JsString (concat (map utf8_bytes cps))] = Inr e
    \<and> js_decodeURI m [JsString e] = Inr (concat (map utf8_bytes cps))"
proof -
  let ?k = "\<lambda>c. is_uri_unreserved c \<or> is_uri_reserved c"
  have "\<forall>cp \<in> set cps. scalar cp" using assms(1) by (simp add: uri_text_def)
  from decode_text(2) [of ?k, OF _ this, of "[]"] uri_kept(2)
  have "decode_uri_loop (concat (map (enc_char ?k) cps)) [] = Some (concat (map utf8_bytes cps))" by simp
  then show ?thesis using encode_uri_value [OF assms, of ?k] uri_text_strings(2) [OF assms(1), of ?k] assms(2)
    by (simp add: js_encodeURI_def js_decodeURI_def uri_decode_def js_getstr_def Let_def)
qed

section \<open>Buffers\<close>

lemma percent_length [simp]: "length (percent c) = 3"
  by (simp add: percent_def)

lemma percents_length: "length (concat (map percent s)) = 3 * length s"
  by (induction s) simp_all

text \<open>At most three bytes are written for each byte read, so the buffer of the encoders never overflows.\<close>

lemma encode_length: "encode_loop keep str out = Some r \<Longrightarrow> length r \<le> length out + 3 * length str"
proof (induction keep str out rule: encode_loop.induct)
  case (1 keep str out)
  note e = 1(3) [unfolded encode_loop.simps [of keep str]]
  show ?case
  proof (cases "str = []")
    case True
    then show ?thesis using e by simp
  next
    case ne: False
    define n where "n = nat (utf8_sequence_length (hd str))"
    show ?thesis
    proof (cases "keep (hd str)")
      case True
      then show ?thesis using e ne 1(1) by (cases str) (auto simp: Let_def)
    next
      case False
      then have "encode_loop keep (drop n str) (out @ concat (map percent (take n str))) = Some r" "n \<le> length str"
        using e ne by (auto simp: Let_def n_def split: if_splits)
      moreover from this have "length r \<le> length (out @ concat (map percent (take n str))) + 3 * length (drop n str)"
        using 1(2) [OF ne refl False refl refl] e ne False by (auto simp: Let_def n_def split: if_splits)
      ultimately show ?thesis by (simp add: percents_length)
    qed
  qed
qed

lemma decode_conts_output:
  "decode_conts n str out = Some (rest, out') \<Longrightarrow> length out' + length rest \<le> length out + length str"
proof (induction n arbitrary: str out)
  case (Suc n)
  then obtain b r where b: "decode_escape_sequence str = Some (b, r)" "decode_conts n r (out @ [b]) = Some (rest, out')"
    by (auto split: option.splits if_splits)
  then show ?case using Suc.IH [OF b(2)] decode_escape_length [OF b(1)] by simp
qed simp

lemma decode_sequence_output:
  "decode_sequence c str out = Some (rest, out') \<Longrightarrow> length out' + length rest \<le> Suc (length out + length str)"
  by (auto simp: decode_sequence_def Let_def dest: decode_conts_output split: if_splits)

lemma decode_component_length: "decode_component_loop str out = Some r \<Longrightarrow> length r \<le> length out + length str"
proof (induction str out rule: decode_component_loop.induct)
  case (1 str out)
  note e = 1(3) [unfolded decode_component_loop.simps [of str]]
  show ?case
  proof (cases "str = [] \<or> hd str \<noteq> 0x25")
    case True
    then show ?thesis using e 1(1) by (cases str) (auto split: if_splits)
  next
    case False
    then obtain b r1 r2 o2 where d: "decode_escape_sequence str = Some (b, r1)" "decode_sequence b r1 out = Some (r2, o2)" "decode_component_loop r2 o2 = Some r"
      using e by (auto split: option.splits)
    have "length r \<le> length o2 + length r2" using 1(2) [OF _ _ d(1) _ d(2) _ d(3)] False by auto
    then show ?thesis using decode_sequence_output [OF d(2)] decode_escape_length [OF d(1)] by simp
  qed
qed

section \<open>What the decoders let through\<close>

text \<open>
  Only the pattern of lead and continuation bytes is tested. A sequence of that pattern whose value is
  overlong, a surrogate or above U+10FFFF is not UTF-8, and yet it is decoded.
\<close>

definition sequence_shaped :: "byte \<Rightarrow> bytes \<Rightarrow> bool" where
  "sequence_shaped c t \<longleftrightarrow>
     (0xC0 \<le> c \<and> c \<le> 0xDF \<and> length t = 1 \<or> 0xE0 \<le> c \<and> c \<le> 0xEF \<and> length t = 2 \<or> 0xF0 \<le> c \<and> c \<le> 0xF7 \<and> length t = 3)
     \<and> (\<forall>b \<in> set t. 0x80 \<le> b \<and> b \<le> 0xBF)"

definition sequence_overlong :: "byte \<Rightarrow> bytes \<Rightarrow> bool" where
  "sequence_overlong c t \<longleftrightarrow> c = 0xC0 \<or> c = 0xC1 \<or> c = 0xE0 \<and> hd t < 0xA0 \<or> c = 0xF0 \<and> hd t < 0x90"

definition sequence_surrogate :: "byte \<Rightarrow> bytes \<Rightarrow> bool" where
  "sequence_surrogate c t \<longleftrightarrow> c = 0xED \<and> 0xA0 \<le> hd t"

definition sequence_above :: "byte \<Rightarrow> bytes \<Rightarrow> bool" where
  "sequence_above c t \<longleftrightarrow> c = 0xF4 \<and> 0x90 \<le> hd t \<or> 0xF5 \<le> c"

lemma continuation_range: "0x80 \<le> b \<Longrightarrow> b \<le> 0xBF \<Longrightarrow> is_valid_continuation b"
  by (simp add: is_valid_continuation_def high_mask_tests word_le_nat_alt)

lemma shaped_length: "sequence_shaped c t \<Longrightarrow> utf8_sequence_length c = int (length t) + 1"
  by (auto simp: sequence_shaped_def sequence_length_nat word_le_nat_alt)

lemma decode_shaped:
  assumes "sequence_shaped c t"
  shows "decode_component_loop (concat (map percent (c # t))) [] = Some (c # t)" "decode_uri_loop (concat (map percent (c # t))) [] = Some (c # t)"
proof -
  have "\<forall>b \<in> set t. is_valid_continuation b" using assms continuation_range by (auto simp: sequence_shaped_def)
  then have s: "decode_sequence c (concat (map percent t)) [] = Some ([], c # t)"
    using decode_conts_percent [of t "[]" "[c]"] shaped_length [OF assms] by (simp add: decode_sequence_def nat_add_distrib)
  have r: "\<not> (c < 128 \<and> is_uri_reserved c)" using assms by (auto simp: sequence_shaped_def word_le_nat_alt word_less_nat_alt)
  show "decode_component_loop (concat (map percent (c # t))) [] = Some (c # t)"
    by (subst decode_component_loop.simps) (simp add: decode_percent s decode_component_loop.simps [of "[]"], simp add: percent_def)
  show "decode_uri_loop (concat (map percent (c # t))) [] = Some (c # t)"
    by (subst decode_uri_loop.simps)
      (simp add: percent_def percent_digits nibbles_join r s decode_uri_loop.simps [of "[]"] Let_def del: of_nat_div of_nat_mod)
qed

lemma ill_formed_invalid:
  assumes "sequence_shaped c t" "sequence_overlong c t \<or> sequence_surrogate c t \<or> sequence_above c t"
  shows "\<not> utf8_validate_bytes (c # t)"
proof -
  have "t \<noteq> []" using assms(1) by (auto simp: sequence_shaped_def)
  then have t: "t ! 0 = hd t" by (simp add: hd_conv_nth)
  have c: "\<not> c < 0x80" using assms(1) by (auto simp: sequence_shaped_def word_le_nat_alt word_less_nat_alt)
  consider "c = 0xC0 \<or> c = 0xC1 \<or> 0xF5 \<le> c" | "c = 0xE0" "hd t < 0xA0" | "c = 0xF0" "hd t < 0x90" | "c = 0xED" "0xA0 \<le> hd t" | "c = 0xF4" "0x90 \<le> hd t"
    using assms(2) unfolding sequence_overlong_def sequence_surrogate_def sequence_above_def by blast
  then have "validate_lead c = None \<or> (\<exists>n lo hi. validate_lead c = Some (n, lo, hi) \<and> (hd t < lo \<or> hd t > hi))"
    by cases (auto simp: validate_lead_def word_le_nat_alt word_less_nat_alt)
  then show ?thesis using c unfolding utf8_validate_bytes.simps(2) t by auto
qed

theorem decode_ill_formed:
  assumes "sequence_shaped c t" "sequence_overlong c t \<or> sequence_surrogate c t \<or> sequence_above c t" "\<And>n. heap_ok m n"
  shows "js_decodeURIComponent m [JsString (concat (map percent (c # t)))] = Inr (c # t)"
    "js_decodeURI m [JsString (concat (map percent (c # t)))] = Inr (c # t)" "\<not> utf8_validate_bytes (c # t)"
proof -
  have z: "c_string (concat (map percent (c # t))) = concat (map percent (c # t))"
    using percent_nonzero by (intro c_string_id) auto
  show "js_decodeURIComponent m [JsString (concat (map percent (c # t)))] = Inr (c # t)"
    using decode_shaped(1) [OF assms(1)] z assms(3) by (simp add: js_decodeURIComponent_def uri_decode_def js_getstr_def Let_def)
  show "js_decodeURI m [JsString (concat (map percent (c # t)))] = Inr (c # t)"
    using decode_shaped(2) [OF assms(1)] z assms(3) by (simp add: js_decodeURI_def uri_decode_def js_getstr_def Let_def)
  show "\<not> utf8_validate_bytes (c # t)" by (rule ill_formed_invalid [OF assms(1,2)])
qed

section \<open>escape and unescape\<close>

lemma escape_map: "escape_loop str out = out @ concat (map (\<lambda>c. if is_escape_unreserved c then [c] else percent c) str)"
  by (induction str arbitrary: out) simp_all

lemma unescape_escape:
  "unescape_loop (concat (map (\<lambda>c. if is_escape_unreserved c then [c] else percent c) str)) out = out @ str"
proof (induction str arbitrary: out)
  case Nil
  then show ?case by (simp add: unescape_loop.simps)
next
  case (Cons c str)
  have "is_escape_unreserved c \<Longrightarrow> c \<noteq> 0x25" by (auto simp: is_escape_unreserved_def)
  then show ?case using Cons
    by (subst unescape_loop.simps) (auto simp: percent_def percent_digits nibbles_join simp del: of_nat_div of_nat_mod)
qed

end
