(* ===== verification/Json_Quote.thy ===== *)
theory Json_Quote
  imports Utf8_Export String_Decoder Bigint_String
begin

text \<open>
  Quoting of strings for JSON (\<open>utf8_json_quote\<close> of \<open>src/src/utf8.c\<close>). The output buffer is the bytes
  written and its capacity, which \<open>utf8_json_quote_reserve\<close> doubles; \<open>utf8_encode\<close> is a wrapper of
  \<open>utf8proc_encode_char\<close>, the parameter \<open>enc\<close>.
\<close>

unbundle bit_operations_syntax

section \<open>The buffer\<close>

function grow_cap :: "nat \<Rightarrow> nat \<Rightarrow> nat" where
  "grow_cap cap_next need = (if cap_next < need \<and> 0 < cap_next then grow_cap (cap_next * 2) need else cap_next)"
  by pat_completeness auto
termination
  by (relation "measure (\<lambda>(n, need). need - n)") auto

declare grow_cap.simps [simp del]

definition utf8_json_quote_reserve :: "mem \<Rightarrow> nat \<Rightarrow> nat \<Rightarrow> nat option" where
  "utf8_json_quote_reserve m cap need =
     (if need \<le> cap then Some cap
      else
        let cap_next = grow_cap (if cap \<noteq> 0 then cap * 2 else 64) need
        in if heap_ok m cap_next then Some cap_next else None)"

type_synonym json_buf = "bytes \<times> nat"

definition utf8_json_quote_append :: "mem \<Rightarrow> bytes \<Rightarrow> json_buf \<Rightarrow> json_buf option" where
  "utf8_json_quote_append m src b =
     (case b of (raw, cap) \<Rightarrow>
        map_option (Pair (raw @ src)) (utf8_json_quote_reserve m cap (length raw + length src + 1)))"

definition utf8_json_quote_append_char :: "mem \<Rightarrow> byte \<Rightarrow> json_buf \<Rightarrow> json_buf option" where
  "utf8_json_quote_append_char m ch b = utf8_json_quote_append m [ch] b"

definition hex_char :: "u32 \<Rightarrow> byte" where
  "hex_char v = hex_table ! unat (v AND 0x0F)"

definition u_escape :: "u32 \<Rightarrow> bytes" where
  "u_escape code_unit =
     [0x5C, 0x75, hex_char (drop_bit 12 code_unit), hex_char (drop_bit 8 code_unit), hex_char (drop_bit 4 code_unit), hex_char code_unit]"

definition utf8_json_quote_append_u_escape :: "mem \<Rightarrow> u32 \<Rightarrow> json_buf \<Rightarrow> json_buf option" where
  "utf8_json_quote_append_u_escape m code_unit b = utf8_json_quote_append m (u_escape code_unit) b"

section \<open>Characters\<close>

definition json_ascii_escape_action :: "byte \<Rightarrow> byte" where
  "json_ascii_escape_action c =
     (if c = 0x22 then 0x22
      else if c = 0x5C then 0x5C
      else if c = 0x08 then 0x62
      else if c = 0x0C then 0x66
      else if c = 0x0A then 0x6E
      else if c = 0x0D then 0x72
      else if c = 0x09 then 0x74
      else if c < 0x20 then 0x75
      else 0)"

fun wtf8_conts :: "u32 \<Rightarrow> bytes \<Rightarrow> u32 option" where
  "wtf8_conts cp [] = Some cp"
| "wtf8_conts cp (b # bs) = (if b AND 0xC0 \<noteq> 0x80 then None else wtf8_conts (push_bit 6 cp OR ucast (b AND 0x3F)) bs)"

text \<open>The length and the value of the sequence at the head of the string; \<open>None\<close> is the length 0 of the source.\<close>

definition wtf8_decode_at :: "bytes \<Rightarrow> (nat \<times> u32) option" where
  "wtf8_decode_at str =
     (let c = hd str
      in if c < 0x80 then Some (1, ucast c)
         else
           let n = (if c < 0xC0 then 0 else if c < 0xE0 then 2 else if c < 0xF0 then 3 else 4) :: nat
           in if n = 0 \<or> n > length str then None
              else map_option (Pair n) (wtf8_conts (ucast (c AND drop_bit n 0x7F)) (take (n - 1) (tl str))))"

definition wtf8_is_high_surrogate :: "u32 \<Rightarrow> bool" where
  "wtf8_is_high_surrogate cp \<longleftrightarrow> 0xD800 \<le> cp \<and> cp \<le> 0xDBFF"

definition wtf8_is_low_surrogate :: "u32 \<Rightarrow> bool" where
  "wtf8_is_low_surrogate cp \<longleftrightarrow> 0xDC00 \<le> cp \<and> cp \<le> 0xDFFF"

section \<open>Quoting\<close>

text \<open>The text of an ASCII character: itself, a two-character escape or a \<open>\u\<close> escape.\<close>

definition quote_ascii :: "byte \<Rightarrow> bytes" where
  "quote_ascii c =
     (let action = json_ascii_escape_action c
      in if action = 0 then [c] else if action = 0x75 then u_escape (ucast c) else [0x5C, action])"

text \<open>
  The low surrogate that follows a high one, if any, and the code point of the two; then one round of
  the loop: the text to append and the bytes consumed. The encoder result \<open>[]\<close> stands
  for a length that is not positive, which the source treats as out of memory.
\<close>

definition quote_second :: "u32 \<Rightarrow> nat \<Rightarrow> bytes \<Rightarrow> (nat \<times> u32) option" where
  "quote_second cp n str =
     (if wtf8_is_high_surrogate cp \<and> n < length str then
        (case wtf8_decode_at (drop n str) of
           Some (n2, cp2) \<Rightarrow> if wtf8_is_low_surrogate cp2 then Some (n2, cp2) else None
         | None \<Rightarrow> None)
      else None)"

definition quote_full :: "u32 \<Rightarrow> u32 \<Rightarrow> u32" where
  "quote_full cp cp2 = 0x10000 + push_bit 10 (cp - 0xD800) + (cp2 - 0xDC00)"

definition quote_piece :: "(nat \<Rightarrow> bytes) \<Rightarrow> bytes \<Rightarrow> (bytes \<times> nat) option" where
  "quote_piece enc str =
     (let c = hd str
      in if c < 0x80 then Some (quote_ascii c, 1)
         else case wtf8_decode_at str of
                None \<Rightarrow> Some ([c], 1)
              | Some (n, cp) \<Rightarrow>
                  (case quote_second cp n str of
                     Some (n2, cp2) \<Rightarrow>
                       let e = enc (unat (quote_full cp cp2))
                       in if e = [] then None else Some (e, n + n2)
                   | None \<Rightarrow>
                       if wtf8_is_high_surrogate cp \<or> wtf8_is_low_surrogate cp then Some (u_escape cp, n)
                       else Some (take n str, n)))"

lemma quote_piece_progress: "quote_piece enc str = Some (out, k) \<Longrightarrow> 0 < k"
  by (auto simp: quote_piece_def wtf8_decode_at_def Let_def split: if_splits option.splits)

function quote_loop :: "mem \<Rightarrow> (nat \<Rightarrow> bytes) \<Rightarrow> bytes \<Rightarrow> json_buf \<Rightarrow> json_buf option" where
  "quote_loop m enc str b =
     (if str = [] then Some b
      else case quote_piece enc str of
             None \<Rightarrow> None
           | Some (out, k) \<Rightarrow>
               (case utf8_json_quote_append m out b of
                  None \<Rightarrow> None
                | Some b \<Rightarrow> quote_loop m enc (drop k str) b))"
  by pat_completeness auto
termination
  by (relation "measure (\<lambda>(m, enc, str, b). length str)") (auto dest!: quote_piece_progress)

declare quote_loop.simps [simp del]

definition utf8_json_quote :: "mem \<Rightarrow> (nat \<Rightarrow> bytes) \<Rightarrow> bytes \<Rightarrow> bytes option" where
  "utf8_json_quote m enc str =
     (if \<not> heap_ok m (length str + 12) then None
      else
        case utf8_json_quote_append_char m 0x22 ([], length str + 12) of
          None \<Rightarrow> None
        | Some b \<Rightarrow>
            (case quote_loop m enc str b of
               None \<Rightarrow> None
             | Some b \<Rightarrow> map_option fst (utf8_json_quote_append_char m 0x22 b)))"

section \<open>The buffer never overflows\<close>

lemma grow_cap_ge: "0 < n \<Longrightarrow> need \<le> grow_cap n need"
  by (induction n need rule: grow_cap.induct) (subst grow_cap.simps, auto)

lemma reserve_enough: "utf8_json_quote_reserve m cap need = Some cap' \<Longrightarrow> need \<le> cap'"
  by (auto simp: utf8_json_quote_reserve_def Let_def grow_cap_ge split: if_splits)

lemma append_spec:
  "utf8_json_quote_append m src (raw, cap) = Some (raw', cap') \<Longrightarrow> raw' = raw @ src \<and> length raw' + 1 \<le> cap'"
  by (auto simp: utf8_json_quote_append_def dest!: reserve_enough)

lemma append_granted:
  assumes "\<And>n. heap_ok m n"
  obtains cap' where "utf8_json_quote_append m src (raw, cap) = Some (raw @ src, cap')"
  using assms by (cases "utf8_json_quote_reserve m cap (length raw + length src + 1)")
    (auto simp: utf8_json_quote_append_def utf8_json_quote_reserve_def Let_def split: if_splits)

section \<open>Sequences\<close>

lemma decode_at_lead:
  assumes "\<not> c < 0xC0" "n = (if c < 0xE0 then 2 else if c < 0xF0 then 3 else 4)" "length t = n - 1"
  shows "wtf8_decode_at (c # t @ rest) = map_option (Pair n) (wtf8_conts (ucast (c AND drop_bit n 0x7F)) t)"
proof -
  have "\<not> c < 0x80" using assms(1) by (simp add: word_less_nat_alt)
  then show ?thesis using assms by (auto simp: wtf8_decode_at_def Let_def)
qed

lemma lead_masks: "drop_bit 2 (0x7F :: byte) = 0x1F" "drop_bit 3 (0x7F :: byte) = 0x0F" "drop_bit 4 (0x7F :: byte) = 0x07"
  by code_simp+

lemma decode_at_utf8:
  assumes "cp < 0x110000"
  shows "wtf8_decode_at (utf8_bytes cp @ rest) = Some (length (utf8_bytes cp), word_of_nat cp)"
  using assms
proof (cases rule: utf8_bytes_cases)
  case one
  then show ?thesis by (simp add: wtf8_decode_at_def word_less_nat_alt u32_of_unat)
next
  case (two k x)
  let ?a = "ucast (byte_of (0xC0 + k) AND 0x1F) :: u32"
  have "unat ?a = k" using two by (simp add: byte_masks unat_low mod_add_eq [symmetric])
  then have "unat (push_bit 6 ?a OR ucast (byte_of (0x80 + x) AND 0x3F)) = cp" using two six_bit_step [of ?a x] by simp
  from u32_of_unat [OF this] show ?thesis unfolding two(5) using two(2-4)
decode_at_lead [of "byte_of (0xC0 + k)" 2 "[byte_of (0x80 + x)]" rest]
    by (simp add: lead_masks word_less_nat_alt high_mask_tests)
next
  case (three k x1 x2)
  let ?a = "ucast (byte_of (0xE0 + k) AND 0x0F) :: u32" let ?b = "push_bit 6 ?a OR ucast (byte_of (0x80 + x1) AND 0x3F)"
  have "unat ?a = k" using three by (simp add: byte_masks unat_low mod_add_eq [symmetric])
  then have "unat ?b = k * 64 + x1" using three six_bit_step [of ?a x1] by simp
  then have "unat (push_bit 6 ?b OR ucast (byte_of (0x80 + x2) AND 0x3F)) = cp" using three six_bit_step [of ?b x2] by simp
  from u32_of_unat [OF this] show ?thesis unfolding three(6) using three(3-5)
decode_at_lead [of "byte_of (0xE0 + k)" 3 "[byte_of (0x80 + x1), byte_of (0x80 + x2)]" rest]
    by (simp add: lead_masks word_less_nat_alt high_mask_tests del: push_bit_or)
next
  case (four k x1 x2 x3)
  let ?a = "ucast (byte_of (0xF0 + k) AND 0x07) :: u32" let ?b = "push_bit 6 ?a OR ucast (byte_of (0x80 + x1) AND 0x3F)"
  let ?c = "push_bit 6 ?b OR ucast (byte_of (0x80 + x2) AND 0x3F)"
  have "unat ?a = k" using four by (simp add: byte_masks unat_low mod_add_eq [symmetric])
  then have "unat ?b = k * 64 + x1" using four six_bit_step [of ?a x1] by simp
  then have "unat ?c = (k * 64 + x1) * 64 + x2" using four six_bit_step [of ?b x2] by simp
  then have "unat (push_bit 6 ?c OR ucast (byte_of (0x80 + x3) AND 0x3F)) = cp" using four six_bit_step [of ?c x3] by simp
  from u32_of_unat [OF this] show ?thesis unfolding four(7) using four(3-6)
decode_at_lead [of "byte_of (0xF0 + k)" 4 "[byte_of (0x80 + x1), byte_of (0x80 + x2), byte_of (0x80 + x3)]" rest]
    by (simp add: lead_masks word_less_nat_alt high_mask_tests del: push_bit_or)
qed

lemma surrogate_tests:
  assumes "cp < 0x110000"
  shows "wtf8_is_high_surrogate (word_of_nat cp) \<longleftrightarrow> high_surrogate cp" "wtf8_is_low_surrogate (word_of_nat cp) \<longleftrightarrow> low_surrogate cp"
  using assms by (auto simp: wtf8_is_high_surrogate_def wtf8_is_low_surrogate_def high_surrogate_def low_surrogate_def word_le_nat_alt unat_of_nat)

lemma pair_parts:
  assumes "high_surrogate hi" "low_surrogate lo"
  obtains a b where "hi = 0xD800 + a" "lo = 0xDC00 + b" "a < 1024" "b < 1024" "join_pair hi lo = 0x10000 + (a * 1024 + b)"
proof (rule that [of "hi - 0xD800" "lo - 0xDC00"])
qed (use assms in \<open>auto simp: high_surrogate_def low_surrogate_def join_pair_def\<close>)

lemma pair_value32:
  assumes "high_surrogate hi" "low_surrogate lo"
  shows "unat (quote_full (word_of_nat hi) (word_of_nat lo)) = join_pair hi lo"
proof -
  have "word_of_nat hi - 0xD800 = (word_of_nat (hi - 0xD800) :: u32)" "word_of_nat lo - 0xDC00 = (word_of_nat (lo - 0xDC00) :: u32)"
    using assms by (simp_all add: high_surrogate_def low_surrogate_def of_nat_diff)
  then have "0x10000 + push_bit 10 (word_of_nat hi - 0xD800) + (word_of_nat lo - 0xDC00) = (word_of_nat (join_pair hi lo) :: u32)"
    by (simp add: join_pair_def push_bit_eq_mult)
  moreover have "join_pair hi lo < 0x110000" by (rule pair_parts [OF assms]) simp
  ultimately show ?thesis by (simp add: quote_full_def unat_of_nat)
qed

section \<open>What is written\<close>

fun join_pairs :: "nat list \<Rightarrow> nat list" where
  "join_pairs [] = []"
| "join_pairs [cp] = [cp]"
| "join_pairs (cp # cp2 # cps) =
     (if high_surrogate cp \<and> low_surrogate cp2 then join_pair cp cp2 # join_pairs cps else cp # join_pairs (cp2 # cps))"

definition json_head :: "nat list \<Rightarrow> nat" where
  "json_head cps = (if wf_width cps = 2 then join_pair (cps ! 0) (cps ! 1) else cps ! 0)"

definition quote_cp :: "nat \<Rightarrow> bytes" where
  "quote_cp cp = (if cp < 0x80 then quote_ascii (byte_of cp) else if surrogate cp then u_escape (word_of_nat cp) else utf8_bytes cp)"

lemma join_step: "cps \<noteq> [] \<Longrightarrow> join_pairs cps = json_head cps # join_pairs (drop (wf_width cps) cps)"
  by (cases cps rule: join_pairs.cases) (auto simp: json_head_def wf_width_def numeral_2_eq_2)

lemma join_units: "units (join_pairs cps) = units cps"
proof (induction cps rule: join_pairs.induct)
  case (3 cp cp2 cps)
  have "utf16_units (join_pair cp cp2) = utf16_units cp @ utf16_units cp2" if "high_surrogate cp" "low_surrogate cp2"
    by (rule pair_parts [OF that]) (simp add: utf16_units_def)
  then show ?case using 3 by simp
qed simp_all

lemma quote_piece_json:
  assumes "utf8_encoder enc" "cps_ok cps" "cps \<noteq> []"
  shows "quote_piece enc (wtf8 cps) = Some (quote_cp (json_head cps), blen (take (wf_width cps) cps))"
proof -
  obtain cp r where c: "cps = cp # r" using assms(3) by (cases cps) auto
  have cp: "cp < 0x110000" using assms(2) c by simp
  have w: "wtf8 cps = utf8_bytes cp @ wtf8 r" by (simp add: c)
  note d1 = decode_at_utf8 [OF cp, of "wtf8 r"] and t1 = surrogate_tests [OF cp]
  have hd: "hd (utf8_bytes cp @ wtf8 r) < 0x80 \<longleftrightarrow> cp < 0x80"
    using cp by (cases rule: utf8_bytes_cases) (auto simp: word_less_nat_alt)
  have s: "surrogate cp \<longleftrightarrow> high_surrogate cp \<or> low_surrogate cp" "surrogate cp \<Longrightarrow> \<not> cp < 0x80"
    by (auto simp: surrogate_def high_surrogate_def low_surrogate_def)
  have n2: "\<not> wf_width cps = 2 \<Longrightarrow> wf_width cps = 1" by (auto simp: wf_width_def split: if_splits)
  show ?thesis
  proof (cases "wf_width cps = 2")
    case True
    then obtain cp2 r2 where r: "r = cp2 # r2" "high_surrogate cp" "low_surrogate cp2" using c by (cases r) (auto simp: wf_width_def split: if_splits)
    have cp2: "cp2 < 0x110000" using assms(2) c r by simp
    have j: "json_head cps = join_pair cp cp2" "take (wf_width cps) cps = [cp, cp2]" using True c r by (simp_all add: json_head_def)
    have e: "enc (join_pair cp cp2) = utf8_bytes (join_pair cp cp2)" using encoder_scalar [OF assms(1) pair_value(2) [OF r(2,3)]] .
    have q: "quote_cp (join_pair cp cp2) = utf8_bytes (join_pair cp cp2)"
      by (rule pair_parts [OF r(2,3)]) (simp add: quote_cp_def surrogate_def)
    have "\<not> cp < 0x80" "length (utf8_bytes cp) < length (utf8_bytes cp @ wtf8 r)" using r by (auto simp: high_surrogate_def)
    moreover have "quote_second (word_of_nat cp) (length (utf8_bytes cp)) (utf8_bytes cp @ wtf8 r) = Some (length (utf8_bytes cp2), word_of_nat cp2)"
      using t1 r decode_at_utf8 [OF cp2, of "wtf8 r2"] surrogate_tests [OF cp2] by (simp add: quote_second_def)
    ultimately show ?thesis using d1 hd e pair_value32 [OF r(2,3)] unfolding w j q quote_piece_def by (simp add: Let_def)
  next
    case False
    have j: "json_head cps = cp" "blen (take (wf_width cps) cps) = length (utf8_bytes cp)" using False n2 c by (simp_all add: json_head_def)
    have p: "quote_second (word_of_nat cp) (length (utf8_bytes cp)) (utf8_bytes cp @ wtf8 r) = None"
    proof (cases r)
      case (Cons cp2 r2)
      have "cp2 < 0x110000" using assms(2) c Cons by simp
      then show ?thesis using decode_at_utf8 [of cp2 "wtf8 r2"] surrogate_tests [of cp2] t1 False c Cons by (auto simp: wf_width_def quote_second_def)
    qed (simp add: quote_second_def)
    show ?thesis
    proof (cases "cp < 0x80")
      case True
      then have "utf8_bytes cp = [byte_of cp]" by (simp add: utf8_bytes_def)
      then show ?thesis using True hd unfolding w j quote_piece_def by (simp add: quote_cp_def)
    next
      case F: False
      then show ?thesis using d1 t1 s(1) hd unfolding w j quote_piece_def by (simp add: quote_cp_def p Let_def)
    qed
  qed
qed

lemma quote_loop_json:
  assumes "utf8_encoder enc"
  shows "cps_ok cps \<Longrightarrow> quote_loop m enc (wtf8 cps) (raw, cap) = Some (out, cap') \<Longrightarrow>
    out = raw @ concat (map quote_cp (join_pairs cps)) \<and> (length raw + 1 \<le> cap \<longrightarrow> length out + 1 \<le> cap')"
    and "cps_ok cps \<Longrightarrow> (\<And>n. heap_ok m n) \<Longrightarrow> quote_loop m enc (wtf8 cps) (raw, cap) \<noteq> None"
proof (induction "length cps" arbitrary: cps raw cap rule: less_induct)
  case less
  define w where "w = wf_width cps"
  have w: "1 \<le> w" by (simp add: w_def wf_width_def)
  have sp: "cps = take w cps @ drop w cps" by simp
  have d: "drop (blen (take w cps)) (wtf8 cps) = wtf8 (drop w cps)"
    by (subst (2) sp) (simp only: wtf8_simps(3) drop_append drop_all diff_self_eq_0 drop_0 order_refl append_Nil)
  {
    case 1
    show ?case
    proof (cases "cps = []")
      case True
      then show ?thesis using 1(2) by (simp add: quote_loop.simps)
    next
      case False
      then have ne: "wtf8 cps \<noteq> []" by (cases cps) auto
      have ok: "cps_ok (drop w cps)" using 1(1) by (subst (asm) sp) (simp only: cps_ok_simps)
      note q = quote_piece_json [OF assms 1(1) False, folded w_def]
      obtain raw1 cap1 where a: "utf8_json_quote_append m (quote_cp (json_head cps)) (raw, cap) = Some (raw1, cap1)"
        and l: "quote_loop m enc (wtf8 (drop w cps)) (raw1, cap1) = Some (out, cap')"
        using 1(2) ne unfolding quote_loop.simps [of _ _ "wtf8 cps"] q d option.case prod.case by (auto simp: d split: option.splits)
      have "length (drop w cps) < length cps" using w False by simp
      from less(1) [OF this ok l] append_spec [OF a] show ?thesis by (auto simp: join_step [OF False, folded w_def])
    qed
  next
    case 2
    show ?case
    proof (cases "cps = []")
      case True
      then show ?thesis by (simp add: quote_loop.simps)
    next
      case False
      then have ne: "wtf8 cps \<noteq> []" by (cases cps) auto
      have ok: "cps_ok (drop w cps)" using 2(1) by (subst (asm) sp) (simp only: cps_ok_simps)
      note q = quote_piece_json [OF assms 2(1) False, folded w_def]
      obtain cap1 where a: "utf8_json_quote_append m (quote_cp (json_head cps)) (raw, cap) = Some (raw @ quote_cp (json_head cps), cap1)"
        by (rule append_granted [OF 2(2)])
      have "length (drop w cps) < length cps" using w False by simp
      from less(2) [OF this ok 2(2)] show ?thesis using ne unfolding quote_loop.simps [of _ _ "wtf8 cps"] q d option.case prod.case a by (simp add: d)
    qed
  }
qed

section \<open>JSON strings\<close>

text \<open>
  The characters of a JSON string, after the grammar: \<open>json_body s cps\<close> holds when the text \<open>s\<close> between
  the quotes denotes the code points \<open>cps\<close>.
\<close>

definition simple_escapes :: "(byte \<times> nat) list" where
  "simple_escapes = [(0x22, 0x22), (0x5C, 0x5C), (0x2F, 0x2F), (0x62, 0x08), (0x66, 0x0C), (0x6E, 0x0A), (0x72, 0x0D), (0x74, 0x09)]"

inductive json_body :: "bytes \<Rightarrow> nat list \<Rightarrow> bool" where
  empty: "json_body [] []"
| plain: "scalar cp \<Longrightarrow> 0x20 \<le> cp \<Longrightarrow> cp \<noteq> 0x22 \<Longrightarrow> cp \<noteq> 0x5C \<Longrightarrow> json_body s cps \<Longrightarrow> json_body (utf8_bytes cp @ s) (cp # cps)"
| escape: "(e, cp) \<in> set simple_escapes \<Longrightarrow> json_body s cps \<Longrightarrow> json_body ([0x5C, e] @ s) (cp # cps)"
| unicode: "hex_digit a = int da \<Longrightarrow> hex_digit b = int db \<Longrightarrow> hex_digit c = int dc \<Longrightarrow> hex_digit d = int dd \<Longrightarrow>
    cp = ((da * 16 + db) * 16 + dc) * 16 + dd \<Longrightarrow> json_body s cps \<Longrightarrow> json_body ([0x5C, 0x75, a, b, c, d] @ s) (cp # cps)"

lemma hex_char_digit: "hex_digit (hex_char v) = int (unat v mod 16)"
proof -
  have m: "unat (v AND 0x0F) = unat v mod 16"
    using unat_low [of 4 v] by (simp add: take_bit_eq_mask mask_numeral)
  have "list_all (\<lambda>d. hex_digit (hex_table ! d) = int d) [0..<16]" by code_simp
  then have "hex_digit (hex_table ! d) = int d" if "d < 16" for d using that by (simp add: list_all_iff)
  then show ?thesis by (simp add: hex_char_def m)
qed

lemma hex_digits4:
  assumes "n < (0x10000 :: nat)"
  shows "n = ((n div 4096 mod 16 * 16 + n div 256 mod 16) * 16 + n div 16 mod 16) * 16 + n mod 16"
proof -
  have d: "n div 256 = n div 16 div 16" "n div 4096 = n div 16 div 16 div 16" by (simp_all flip: div_mult2_eq)
  have "n div 16 div 16 div 16 < 16" using assms by (simp flip: div_mult2_eq add: less_mult_imp_div_less)
  then have "n div 16 div 16 div 16 mod 16 = n div 16 div 16 div 16" by (rule mod_less)
  then show ?thesis unfolding d by (simp only: div_mult_mod_eq)
qed

lemma u_escape_body:
  assumes "unat cu < 0x10000" "json_body s cps"
  shows "json_body (u_escape cu @ s) (unat cu # cps)"
proof -
  have "unat cu = ((unat (drop_bit 12 cu) mod 16 * 16 + unat (drop_bit 8 cu) mod 16) * 16 + unat (drop_bit 4 cu) mod 16) * 16 + unat cu mod 16"
  proof -
    have "unat (drop_bit 12 cu) = unat cu div 4096" "unat (drop_bit 8 cu) = unat cu div 256" "unat (drop_bit 4 cu) = unat cu div 16"
      by (simp_all add: unat_shr)
    then show ?thesis using hex_digits4 [OF assms(1)] by (simp only:)
  qed
  from json_body.unicode [OF hex_char_digit hex_char_digit hex_char_digit hex_char_digit this assms(2)] show ?thesis
    by (simp add: u_escape_def)
qed

lemma escape_action:
  assumes "cp < 0x80"
  shows "json_ascii_escape_action (byte_of cp) =
    (if cp = 0x22 then 0x22 else if cp = 0x5C then 0x5C else if cp = 8 then 0x62 else if cp = 12 then 0x66
     else if cp = 10 then 0x6E else if cp = 13 then 0x72 else if cp = 9 then 0x74 else if cp < 0x20 then 0x75 else 0)"
proof -
  have "unat (byte_of cp) = cp" using assms by simp
  then have e: "byte_of cp = k \<longleftrightarrow> cp = unat k" "byte_of cp < k \<longleftrightarrow> cp < unat k" for k :: byte
    by (auto simp: word_less_nat_alt word_unat_eq_iff)
  show ?thesis unfolding json_ascii_escape_action_def e by simp
qed

lemma quote_ascii_body:
  assumes "cp < 0x80" "json_body s cps"
  shows "json_body (quote_ascii (byte_of cp) @ s) (cp # cps)"
proof -
  note q = quote_ascii_def [of "byte_of cp", unfolded escape_action [OF assms(1)] Let_def]
  consider (simple) e where "(e, cp) \<in> set simple_escapes" "cp \<noteq> 0x2F" | (plain) "0x20 \<le> cp" "cp \<noteq> 0x22" "cp \<noteq> 0x5C"
    | (control) "cp < 0x20" "cp \<noteq> 8" "cp \<noteq> 9" "cp \<noteq> 10" "cp \<noteq> 12" "cp \<noteq> 13"
    unfolding simple_escapes_def by (cases "cp < 0x20") force+
  then show ?thesis
  proof cases
    case (simple e)
    then have "quote_ascii (byte_of cp) = [0x5C, e]" unfolding q by (auto simp: simple_escapes_def)
    then show ?thesis using json_body.escape [OF simple(1) assms(2)] by simp
  next
    case plain
    then have "quote_ascii (byte_of cp) = utf8_bytes cp" unfolding q using assms(1) by (simp add: utf8_bytes_def)
    then show ?thesis using json_body.plain [of cp s cps] plain assms by (simp add: scalar_def)
  next
    case control
    then have "quote_ascii (byte_of cp) = u_escape (ucast (byte_of cp))" unfolding q using assms(1) by (simp add: utf8_bytes_def)
    then show ?thesis using u_escape_body [of "ucast (byte_of cp)" s cps] assms by simp
  qed
qed

lemma quote_cp_body:
  assumes "cp < 0x110000" "json_body s cps"
  shows "json_body (quote_cp cp @ s) (cp # cps)"
proof -
  consider "cp < 0x80" | "0x80 \<le> cp" "surrogate cp" | "0x80 \<le> cp" "\<not> surrogate cp" by linarith
  then show ?thesis
  proof cases
    case 1
    then show ?thesis using quote_ascii_body [OF 1 assms(2)] by (simp add: quote_cp_def)
  next
    case 2
    then have "unat (word_of_nat cp :: u32) = cp" "cp < 0x10000" by (simp_all add: unat_of_nat surrogate_def)
    then show ?thesis using u_escape_body [of "word_of_nat cp" s cps] assms(2) 2 by (simp add: quote_cp_def)
  next
    case 3
    then have "scalar cp" using assms(1) by (auto simp: scalar_def surrogate_def)
    then show ?thesis using json_body.plain [of cp s cps] 3 assms(2) by (simp add: quote_cp_def)
  qed
qed

lemma join_ok: "cps_ok cps \<Longrightarrow> cps_ok (join_pairs cps)"
proof (induction cps rule: join_pairs.induct)
  case (3 cp cp2 cps)
  have "join_pair cp cp2 < 0x110000" if "high_surrogate cp" "low_surrogate cp2" by (rule pair_parts [OF that]) simp
  then show ?case using 3 by auto
qed simp_all

lemma quoted_body: "cps_ok cps \<Longrightarrow> json_body (concat (map quote_cp cps)) cps"
  by (induction cps) (simp_all add: json_body.empty quote_cp_body)

theorem json_quote_correct:
  assumes "utf8_encoder enc" "cps_ok cps" "utf8_json_quote m enc (wtf8 cps) = Some out"
  shows "\<exists>body. out = [0x22] @ body @ [0x22] \<and> json_body body (join_pairs cps)"
proof -
  obtain b1 b2 cap3 where b: "utf8_json_quote_append_char m 0x22 ([], blen cps + 12) = Some b1"
      "quote_loop m enc (wtf8 cps) b1 = Some b2" "utf8_json_quote_append_char m 0x22 b2 = Some (out, cap3)"
    using assms(3) by (auto simp: utf8_json_quote_def split: if_splits option.splits)
  obtain raw1 cap1 raw2 cap2 where p: "b1 = (raw1, cap1)" "b2 = (raw2, cap2)" by (cases b1; cases b2)
  have "raw1 = [0x22]" using b(1) append_spec [of m "[0x22]" "[]"] by (simp add: utf8_json_quote_append_char_def p)
  moreover have "raw2 = raw1 @ concat (map quote_cp (join_pairs cps))"
    using quote_loop_json(1) [OF assms(1,2)] b(2) unfolding p by blast
  moreover have "out = raw2 @ [0x22]" using b(3) append_spec [of m "[0x22]" raw2 cap2] by (simp add: utf8_json_quote_append_char_def p)
  ultimately show ?thesis using quoted_body [OF join_ok [OF assms(2)]] by auto
qed

theorem json_quote_total:
  assumes "utf8_encoder enc" "cps_ok cps" "\<And>n. heap_ok m n"
  shows "utf8_json_quote m enc (wtf8 cps) \<noteq> None"
proof -
  obtain c1 where a: "utf8_json_quote_append m [0x22] ([], blen cps + 12) = Some ([] @ [0x22], c1)" by (rule append_granted [OF assms(3)])
  obtain b2 where l: "quote_loop m enc (wtf8 cps) ([0x22], c1) = Some b2" using quote_loop_json(2) [OF assms] by blast
  obtain raw2 cap2 where p: "b2 = (raw2, cap2)" by (cases b2)
  obtain c3 where "utf8_json_quote_append m [0x22] (raw2, cap2) = Some (raw2 @ [0x22], c3)" by (rule append_granted [OF assms(3)])
  then show ?thesis using a l assms(3) by (simp add: utf8_json_quote_def utf8_json_quote_append_char_def p)
qed

text \<open>The text between the quotes is valid UTF-8, whatever the string holds.\<close>

lemma ascii_valid: "list_all (\<lambda>b. b < 0x80) s \<Longrightarrow> utf8_validate_bytes s"
  by (rule ascii_validate) (simp add: ascii_bytes_def list_all_iff)

lemma json_body_valid: "json_body s cps \<Longrightarrow> utf8_validate_bytes s"
proof (induction rule: json_body.induct)
  case (plain cp s cps)
  then show ?case by (intro validate_append validate_utf8_bytes)
next
  case (escape e cp s cps)
  then have "list_all (\<lambda>b. b < 0x80) [0x5C, e]" by (auto simp: simple_escapes_def)
  then show ?case using validate_append [OF ascii_valid escape.IH] by blast
next
  case (unicode a da b db c dc d dd cp s cps)
  have "x < 0x80" if "hex_digit x = int n" for x n using that by (auto simp: hex_digit_def word_less_nat_alt word_le_nat_alt split: if_splits)
  then have "list_all (\<lambda>b. b < 0x80) [0x5C, 0x75, a, b, c, d]" using unicode(1-4) by simp
  then show ?case using validate_append [OF ascii_valid unicode.IH] by blast
qed (simp add: utf8_validate_bytes.simps)

end
