(* ===== verification/Websocket.thy ===== *)
theory Websocket
  imports Flat_String String_Decoder
begin

text \<open>
  The WebSocket wire protocol (\<open>src/src/http/websocket.c\<close>, \<open>src/include/http/websocket.h\<close>): the tests of the
  opening handshake, masking, and the parser and the encoder of frames. A C string is the list of
  its bytes before the terminator. \<open>uv_random\<close> (libuv), the SHA-1 digest (OpenSSL) and the decoder of
  libbase64 are parameters. Lengths are natural numbers; \<open>payload_len\<close> keeps its 64 bits until it has
  been tested to be below \<open>2 ^ 63\<close>, after which no sum in the parser can wrap.
\<close>

unbundle bit_operations_syntax

section \<open>The handshake\<close>

definition strcasecmp_eq :: "bytes \<Rightarrow> bytes \<Rightarrow> bool" where
  "strcasecmp_eq s t \<longleftrightarrow> map tolower s = map tolower t"

record http_header =
  hh_name :: "bytes option"
  hh_value :: "bytes option"

fun ant_ws_find_header :: "http_header list \<Rightarrow> bytes \<Rightarrow> bytes option" where
  "ant_ws_find_header [] name = None"
| "ant_ws_find_header (entry # rest) name =
     (case hh_name entry of
        Some n \<Rightarrow> if strcasecmp_eq n name then hh_value entry else ant_ws_find_header rest name
      | None \<Rightarrow> ant_ws_find_header rest name)"

definition ws_sep :: "byte \<Rightarrow> bool" where
  "ws_sep c \<longleftrightarrow> c = 0x20 \<or> c = 0x09 \<or> c = 0x2C"

definition ws_blank :: "byte \<Rightarrow> bool" where
  "ws_blank c \<longleftrightarrow> c = 0x20 \<or> c = 0x09"

definition trim_end :: "bytes \<Rightarrow> bytes" where
  "trim_end s = rev (dropWhile ws_blank (rev s))"

definition skip_comma :: "bytes \<Rightarrow> bytes" where
  "skip_comma p = (case p of c # rest \<Rightarrow> if c = 0x2C then rest else p | [] \<Rightarrow> [])"

lemma skip_comma_length: "length (skip_comma p) \<le> length p"
  by (simp add: skip_comma_def split: list.splits)

text \<open>
  The loops over a header value; \<open>stop\<close> ends an item (a comma, or a comma or a semicolon). Every round
  moves on: the value is not empty, and what is skipped, read and stepped over is at least one byte.
\<close>

function token_loop :: "(byte \<Rightarrow> bool) \<Rightarrow> bytes \<Rightarrow> bytes \<Rightarrow> bool" where
  "token_loop stop token p =
     (if p = [] then False
      else
        let start = dropWhile ws_sep p;
            item = takeWhile (\<lambda>c. \<not> stop c) start;
            q = dropWhile (\<lambda>c. \<not> stop c) start;
            core = trim_end item
        in if length core = length token \<and> strncasecmp_eq core token (length token) then True
           else token_loop stop token (skip_comma (dropWhile (\<lambda>c. c \<noteq> 0x2C) q)))"
  by pat_completeness auto
termination
proof (relation "measure (\<lambda>(stop, token, p). length p)")
  fix stop :: "byte \<Rightarrow> bool" and token p start item q core :: bytes
  assume a: "p \<noteq> []" "start = dropWhile ws_sep p" "item = takeWhile (\<lambda>c. \<not> stop c) start" "q = dropWhile (\<lambda>c. \<not> stop c) start"
  have le: "length q \<le> length start" "length start \<le> length p" using a(2,4) by (simp_all add: length_dropWhile_le)
  have l2: "length (skip_comma (dropWhile (\<lambda>c. c \<noteq> 0x2C) q)) \<le> length q"
    using skip_comma_length length_dropWhile_le order_trans by blast
  have "length (skip_comma (dropWhile (\<lambda>c. c \<noteq> 0x2C) q)) < length p"
  proof (cases "start = p")
    case True
    then have hd: "hd p \<noteq> 0x2C" using hd_dropWhile [of ws_sep p] a(1,2) by (simp add: ws_sep_def)
    show ?thesis
    proof (cases "length q < length p")
      case F: False
      have "length q < length p \<or> q = p" unfolding a(4) True by (cases p) (auto simp: length_dropWhile_le le_imp_less_Suc)
      then have "q = p" using F by simp
      then have "length (dropWhile (\<lambda>c. c \<noteq> 0x2C) q) < length p" using hd a(1) by (cases p) (auto simp: length_dropWhile_le le_imp_less_Suc)
      then show ?thesis using skip_comma_length [of "dropWhile (\<lambda>c. c \<noteq> 0x2C) q"] by simp
    qed (use l2 in simp)
  next
    case False
    then have "length start < length p" using a(1,2) by (cases p) (auto simp: length_dropWhile_le le_imp_less_Suc split: if_splits)
    then show ?thesis using l2 le by simp
  qed
  then show "((stop, token, skip_comma (dropWhile (\<lambda>c. c \<noteq> 0x2C) q)), stop, token, p) \<in> measure (\<lambda>(stop, token, p). length p)" by simp
qed simp

declare token_loop.simps [simp del]

definition ant_ws_header_contains_token :: "bytes option \<Rightarrow> bytes \<Rightarrow> bool" where
  "ant_ws_header_contains_token value token =
     (case value of None \<Rightarrow> False | Some v \<Rightarrow> if token = [] then False else token_loop (\<lambda>c. c = 0x2C) token v)"

definition ant_ws_header_contains_extension :: "bytes option \<Rightarrow> bytes \<Rightarrow> bool" where
  "ant_ws_header_contains_extension value extension =
     (case value of None \<Rightarrow> False | Some v \<Rightarrow> if extension = [] then False else token_loop (\<lambda>c. c = 0x3B \<or> c = 0x2C) extension v)"

definition ant_base64_decode :: "mem \<Rightarrow> (bytes \<Rightarrow> bytes option) \<Rightarrow> bytes \<Rightarrow> bytes option" where
  "ant_base64_decode m base64_decode data =
     (if \<not> heap_ok m ((length data div 4) * 3 + 3) then None else base64_decode data)"

text \<open>The key of the client, when the handshake is accepted.\<close>

definition ant_ws_validate_client_handshake :: "mem \<Rightarrow> (bytes \<Rightarrow> bytes option) \<Rightarrow> http_header list \<Rightarrow> bytes option" where
  "ant_ws_validate_client_handshake m base64_decode headers =
     (let upgrade = ant_ws_find_header headers (ascii ''upgrade'');
          connection = ant_ws_find_header headers (ascii ''connection'');
          version = ant_ws_find_header headers (ascii ''sec-websocket-version'');
          key = ant_ws_find_header headers (ascii ''sec-websocket-key'')
      in case upgrade of
           None \<Rightarrow> None
         | Some u \<Rightarrow>
             if \<not> strcasecmp_eq u (ascii ''websocket'') then None
             else if \<not> ant_ws_header_contains_token connection (ascii ''upgrade'') then None
             else if version \<noteq> Some (ascii ''13'') then None
             else (case key of
                     None \<Rightarrow> None
                   | Some k \<Rightarrow>
                       if length k < 16 then None
                       else (case ant_base64_decode m base64_decode k of
                               None \<Rightarrow> None
                             | Some decoded \<Rightarrow> if length decoded \<noteq> 16 then None else Some k)))"

definition ANT_WS_GUID :: bytes where
  "ANT_WS_GUID = ascii ''258EAFA5-E914-47DA-95CA-C5AB0DC85B11''"

definition ant_ws_accept_key :: "mem \<Rightarrow> (bytes \<Rightarrow> bytes option) \<Rightarrow> (bytes \<Rightarrow> bytes) \<Rightarrow> bytes option \<Rightarrow> bytes option" where
  "ant_ws_accept_key m sha1 base64_encode client_key =
     (case client_key of
        None \<Rightarrow> None
      | Some key \<Rightarrow>
          if \<not> heap_ok m (length key + length ANT_WS_GUID) then None
          else (case sha1 (key @ ANT_WS_GUID) of
                  None \<Rightarrow> None
                | Some digest \<Rightarrow> ant_base64_encode m base64_encode digest))"

section \<open>Masking\<close>

definition store64 :: "u64 \<Rightarrow> bytes" where
  "store64 w = map (\<lambda>k. ucast (drop_bit (8 * k) w)) [0..<8]"

function unmask_words :: "u64 \<Rightarrow> bytes \<Rightarrow> bytes \<times> bytes" where
  "unmask_words mask64 data =
     (if 8 \<le> length data then
        (case unmask_words mask64 (drop 8 data) of (out, rest) \<Rightarrow> (store64 (load64 data XOR mask64) @ out, rest))
      else ([], data))"
  by pat_completeness auto
termination
  by (relation "measure (\<lambda>(mask64, data). length data)") auto

declare unmask_words.simps [simp del]

fun unmask_tail :: "bytes \<Rightarrow> nat \<Rightarrow> bytes \<Rightarrow> bytes" where
  "unmask_tail key i [] = []"
| "unmask_tail key i (b # bs) = (b XOR key ! (i mod 4)) # unmask_tail key (Suc i) bs"

definition ant_ws_unmask :: "bytes \<Rightarrow> bytes \<Rightarrow> bytes" where
  "ant_ws_unmask data key =
     (if 8 \<le> length data then
        (case unmask_words (load64 (key @ key)) data of (out, rest) \<Rightarrow> out @ unmask_tail key (length out) rest)
      else unmask_tail key 0 data)"

section \<open>Frames\<close>

datatype ant_ws_frame_result = ANT_WS_FRAME_INCOMPLETE | ANT_WS_FRAME_OK | ANT_WS_FRAME_PROTOCOL_ERROR

record ant_ws_frame =
  f_payload :: bytes
  f_payload_len :: nat
  f_consumed_len :: nat
  f_opcode :: byte
  f_mask :: bytes
  f_fin :: bool
  f_rsv1 :: bool
  f_masked :: bool
  f_owned :: bool

definition empty_frame :: ant_ws_frame where
  "empty_frame = \<lparr>f_payload = [], f_payload_len = 0, f_consumed_len = 0, f_opcode = 0, f_mask = [0, 0, 0, 0],
     f_fin = False, f_rsv1 = False, f_masked = False, f_owned = False\<rparr>"

definition ant_ws_frame_clear :: "ant_ws_frame \<Rightarrow> ant_ws_frame" where
  "ant_ws_frame_clear frame = empty_frame"

definition ant_ws_read_u64_be :: "bytes \<Rightarrow> u64" where
  "ant_ws_read_u64_be data = foldl (\<lambda>value b. push_bit 8 value OR ucast b) 0 (take 8 data)"

text \<open>The payload length after the two fixed bytes and the position that follows it, or why there is none.\<close>

definition ws_payload_length :: "bytes \<Rightarrow> ant_ws_frame_result + nat \<times> u64" where
  "ws_payload_length data =
     (let payload_len = ucast (data ! 1 AND 0x7f) :: u64
      in if payload_len = 126 then
           if length data < 2 + 2 then Inl ANT_WS_FRAME_INCOMPLETE
           else Inr (4, push_bit 8 (ucast (data ! 2)) OR ucast (data ! 3))
         else if payload_len = 127 then
           if length data < 2 + 8 then Inl ANT_WS_FRAME_INCOMPLETE
           else
             let payload_len = ant_ws_read_u64_be (drop 2 data)
             in if payload_len AND push_bit 63 1 \<noteq> 0 then Inl ANT_WS_FRAME_PROTOCOL_ERROR else Inr (10, payload_len)
         else Inr (2, payload_len))"

text \<open>The tests of the first two bytes.\<close>

definition ws_header_error :: "byte \<Rightarrow> byte \<Rightarrow> bool \<Rightarrow> bool \<Rightarrow> bool" where
  "ws_header_error d0 d1 require_mask allow_rsv1 \<longleftrightarrow>
     (let opcode = d0 AND 0x0f; masked = (d1 AND 0x80 \<noteq> 0); payload_len = d1 AND 0x7f
      in d0 AND 0x30 \<noteq> 0
         \<or> d0 AND 0x40 \<noteq> 0 \<and> \<not> allow_rsv1
         \<or> require_mask \<and> \<not> masked
         \<or> opcode \<ge> 0x8 \<and> (d0 AND 0x80 = 0 \<or> payload_len > 125)
         \<or> opcode \<ge> 0x8 \<and> d0 AND 0x40 \<noteq> 0)"

text \<open>
  \<open>ant_ws_parse_frame\<close>: the result, the frame it fills in and the buffer, in which an in-place call
  unmasks the payload.
\<close>

definition ant_ws_parse_frame ::
  "mem \<Rightarrow> bytes \<Rightarrow> bool \<Rightarrow> bool \<Rightarrow> bool \<Rightarrow> ant_ws_frame_result \<times> ant_ws_frame \<times> bytes" where
  "ant_ws_parse_frame m data require_mask allow_rsv1 inplace =
     (if length data < 2 then (ANT_WS_FRAME_INCOMPLETE, empty_frame, data)
      else if ws_header_error (data ! 0) (data ! 1) require_mask allow_rsv1 then (ANT_WS_FRAME_PROTOCOL_ERROR, empty_frame, data)
      else
        case ws_payload_length data of
          Inl r \<Rightarrow> (r, empty_frame, data)
        | Inr (pos, payload_len) \<Rightarrow>
            let masked = (data ! 1 AND 0x80 \<noteq> 0); n = unat payload_len
            in if masked \<and> length data < pos + 4 then (ANT_WS_FRAME_INCOMPLETE, empty_frame, data)
               else
                 let key = (if masked then take 4 (drop pos data) else [0, 0, 0, 0]);
                     pos = (if masked then pos + 4 else pos)
                 in if length data < pos + n then (ANT_WS_FRAME_INCOMPLETE, empty_frame\<lparr>f_mask := key\<rparr>, data)
                    else if \<not> inplace \<and> \<not> heap_ok m (n + 1) then (ANT_WS_FRAME_PROTOCOL_ERROR, empty_frame\<lparr>f_mask := key\<rparr>, data)
                    else
                      let payload = take n (drop pos data);
                          payload = (if masked \<and> 0 < n then ant_ws_unmask payload key else payload)
                      in (ANT_WS_FRAME_OK,
                          \<lparr>f_payload = payload, f_payload_len = n, f_consumed_len = pos + n, f_opcode = data ! 0 AND 0x0f, f_mask = key,
                            f_fin = (data ! 0 AND 0x80 \<noteq> 0), f_rsv1 = (data ! 0 AND 0x40 \<noteq> 0), f_masked = masked, f_owned = \<not> inplace\<rparr>,
                          if inplace then take pos data @ payload @ drop (pos + n) data else data))"

definition ant_ws_write_u64_be :: "u64 \<Rightarrow> bytes" where
  "ant_ws_write_u64_be value = map (\<lambda>i. ucast (drop_bit (8 * (7 - i)) value AND 0xff)) [0..<8]"

text \<open>The bytes of the header that say how long the payload is.\<close>

definition ws_length_bytes :: "bool \<Rightarrow> nat \<Rightarrow> bytes" where
  "ws_length_bytes mask_set payload_len =
     (let bit7 = (if mask_set then 0x80 else 0) :: byte
      in if payload_len < 126 then [bit7 OR word_of_nat payload_len]
         else if payload_len \<le> 65535 then
           [bit7 OR 126, word_of_nat (payload_len div 256), word_of_nat (payload_len mod 256)]
         else (bit7 OR 127) # ant_ws_write_u64_be (word_of_nat payload_len))"

text \<open>
  \<open>ant_ws_encode_frame\<close>: \<open>rnd\<close> is the outcome of \<open>uv_random\<close> on the four bytes of the key. A null payload
  is sent as zeros.
\<close>

definition ant_ws_encode_frame ::
  "mem \<Rightarrow> bytes option \<Rightarrow> byte \<Rightarrow> bytes option \<Rightarrow> nat \<Rightarrow> bool \<Rightarrow> bool \<Rightarrow> bytes option" where
  "ant_ws_encode_frame m rnd opcode payload payload_len mask_set rsv1 =
     (let header_len = (if payload_len > 65535 then 10 else if payload_len \<ge> 126 then 4 else 2);
          mask_len = (if mask_set then 4 else 0)
      in if \<not> heap_ok m (header_len + mask_len + payload_len) then None
         else
           let head = (0x80 OR (if rsv1 then 0x40 else 0) OR opcode) # ws_length_bytes mask_set payload_len;
               byte_at = (\<lambda>i. case payload of Some p \<Rightarrow> p ! i | None \<Rightarrow> 0)
           in if mask_set then
                (case rnd of
                   None \<Rightarrow> None
                 | Some key \<Rightarrow> Some (head @ key @ map (\<lambda>i. byte_at i XOR key ! (i mod 4)) [0..<payload_len]))
              else Some (head @ map byte_at [0..<payload_len]))"

definition ant_ws_encode_close_frame :: "mem \<Rightarrow> bytes option \<Rightarrow> u16 \<Rightarrow> bytes option \<Rightarrow> bool \<Rightarrow> bytes option" where
  "ant_ws_encode_close_frame m rnd code reason mask_set =
     (let reason = (case reason of None \<Rightarrow> [] | Some r \<Rightarrow> r); reason_len = min (length reason) 123;
          payload = [ucast (drop_bit 8 code), ucast (code AND 0xff)] @ take reason_len reason
      in ant_ws_encode_frame m rnd 0x8 (Some payload) (2 + reason_len) mask_set False)"

section \<open>Bytes of words\<close>

lemma load_le_append: "load_le (a @ b) = load_le a + 256 ^ length a * load_le b"
  by (induction a) (simp_all add: algebra_simps)

lemma load_le_nth: "k < length s \<Longrightarrow> load_le s div 256 ^ k mod 256 = unat (s ! k)"
proof (induction s arbitrary: k)
  case (Cons b s)
  show ?case
  proof (cases k)
    case (Suc j)
    have "(unat b + 256 * load_le s) div 256 = load_le s" using unat_lt_B8 [of b] by simp
    then have "(unat b + 256 * load_le s) div (256 * 256 ^ j) = load_le s div 256 ^ j" by (simp only: div_mult2_eq)
    then show ?thesis using Cons Suc by simp
  qed simp
qed simp

lemma byte_of_load:
  assumes "k < 8" "8 \<le> length s"
  shows "ucast (drop_bit (8 * k) (load64 s)) = s ! k"
proof -
  have lt: "load_le (take 8 s) < 2 ^ 64" using load_le_bound [of "take 8 s"] assms(2) by simp
  have p: "(2 :: nat) ^ (8 * k) = 256 ^ k" by (simp add: power_mult)
  have "unat (ucast (drop_bit (8 * k) (load64 s)) :: byte) = load_le (take 8 s) div 256 ^ k mod 256"
    using lt by (simp add: unsigned_ucast_eq unat_shr take_bit_eq_mod load64_def unat_of_nat p)
  also have "\<dots> = unat (s ! k)" using load_le_nth [of k "take 8 s"] assms by simp
  finally show ?thesis by (simp add: word_unat_eq_iff)
qed

lemma store_xor:
  assumes "8 \<le> length a" "8 \<le> length b"
  shows "store64 (load64 a XOR load64 b) = map (\<lambda>k. a ! k XOR b ! k) [0..<8]"
  unfolding store64_def
proof (rule map_cong [OF refl])
  fix k :: nat assume "k \<in> set [0..<8]"
  then have "k < 8" by simp
  then show "ucast (drop_bit (8 * k) (load64 a XOR load64 b)) = a ! k XOR b ! k"
    using byte_of_load [of k a] byte_of_load [of k b] assms by (simp add: unsigned_xor_eq drop_bit_xor)
qed

lemma load_store_le: "load_le (map (\<lambda>k. ucast (drop_bit (8 * k) (w :: u64)) :: byte) [0..<n]) = unat w mod 256 ^ n"
proof (induction n)
  case (Suc n)
  have "unat (ucast (drop_bit (8 * n) w) :: byte) = unat w div 256 ^ n mod 256"
    by (simp add: unsigned_ucast_eq unat_shr take_bit_eq_mod power_mult)
  then show ?case using Suc by (simp add: load_le_append mod_mult2_eq mult.commute [of 256])
qed simp

lemma load_store: "load64 (store64 w) = w"
  using load_store_le [of w 8] unat_lt_B64 [of w] by (simp add: load64_def store64_def del: upt_Suc unat_lt_B64)

lemma write_be: "ant_ws_write_u64_be v = rev (store64 v)"
proof -
  have "x AND 0xff = take_bit 8 x" for x :: u64 by (simp add: take_bit_eq_mask mask_numeral)
  then have "ucast (drop_bit (8 * k) v AND 0xff) = (ucast (drop_bit (8 * k) v) :: byte)" for k
    by (simp add: word_unat_eq_iff unsigned_ucast_eq unsigned_take_bit_eq)
  then show ?thesis by (simp add: ant_ws_write_u64_be_def store64_def rev_map upt_rec numeral_eq_Suc)
qed

lemma read_be: "length bs \<le> 8 \<Longrightarrow> unat (foldr (\<lambda>b value. push_bit 8 value OR ucast b) bs (0 :: u64)) = load_le bs"
proof (induction bs)
  case (Cons b bs)
  let ?v = "foldr (\<lambda>b value. push_bit 8 value OR ucast b) bs (0 :: u64)"
  have "unat ?v = load_le bs" using Cons by simp
  moreover have "load_le bs < 256 ^ 7" using load_le_bound [of bs] Cons.prems power_increasing [of "length bs" 7 "256 :: nat"] by simp
  moreover have "unat (ucast b :: u64) = unat b" using unat_lt_B8 [of b] by (simp add: unsigned_ucast_eq take_bit_nat_eq_self del: unat_lt_B8)
  ultimately show ?case using unat_shl_or [of ?v 8 "ucast b"] unat_lt_B8 [of b] by (simp del: unat_lt_B8)
qed simp

lemma read_write_be: "ant_ws_read_u64_be (ant_ws_write_u64_be v @ rest) = v"
proof -
  have l: "length (store64 v) = 8" by (simp add: store64_def)
  have "unat (ant_ws_read_u64_be (rev (store64 v) @ rest)) = load_le (store64 v)"
    using read_be [of "store64 v"] l by (simp add: ant_ws_read_u64_be_def foldl_conv_foldr)
  moreover have "load_le (store64 v) = unat v"
    using load_store_le [of v 8] unat_lt_B64 [of v] by (simp add: store64_def del: upt_Suc unat_lt_B64)
  ultimately show ?thesis by (simp add: write_be word_unat_eq_iff)
qed

section \<open>Masking by words is masking by bytes\<close>

lemma tail_append: "unmask_tail key i (a @ b) = unmask_tail key i a @ unmask_tail key (i + length a) b"
  by (induction a arbitrary: i) simp_all

lemma tail_length [simp]: "length (unmask_tail key i s) = length s"
  by (induction s arbitrary: i) simp_all

lemma tail_nth: "k < length s \<Longrightarrow> unmask_tail key i s ! k = s ! k XOR key ! ((i + k) mod 4)"
proof (induction s arbitrary: i k)
  case (Cons b s)
  then show ?case by (cases k) simp_all
qed simp

lemma tail_period: "unmask_tail key (i + 4 * j) s = unmask_tail key i s"
proof -
  have "(i + 4 * j + k) mod 4 = (i + k) mod 4" for k using mod_mult_self2 [of "i + k" 4 j] by (simp add: ac_simps)
  then show ?thesis by (intro nth_equalityI) (simp_all add: tail_nth)
qed

lemma tail_involution: "unmask_tail key i (unmask_tail key i s) = s"
  by (rule nth_equalityI) (simp_all add: tail_nth xor.assoc)

lemma unmask_word:
  assumes "length key = 4" "8 \<le> length data"
  shows "store64 (load64 data XOR load64 (key @ key)) = unmask_tail key 0 (take 8 data)"
proof (rule nth_equalityI)
  fix k assume "k < length (store64 (load64 data XOR load64 (key @ key)))"
  then have k: "k < 8" by (simp add: store64_def)
  have "(key @ key) ! k = key ! (k mod 4)"
  proof (cases "k < 4")
    case False
    then obtain j where "k = 4 + j" using le_Suc_ex not_less by blast
    then show ?thesis using assms(1) k by (simp add: nth_append)
  qed (use assms(1) in \<open>simp add: nth_append\<close>)
  then show "store64 (load64 data XOR load64 (key @ key)) ! k = unmask_tail key 0 (take 8 data) ! k"
    using k assms by (subst store_xor) (simp_all add: tail_nth del: upt_Suc)
qed (use assms(2) in \<open>simp add: store64_def\<close>)

lemma unmask_words_spec:
  assumes "length key = 4" "unmask_words (load64 (key @ key)) data = (out, rest)"
  shows "out @ unmask_tail key (length out) rest = unmask_tail key 0 data \<and> (\<exists>j. length out = 4 * j)"
  using assms(2)
proof (induction "load64 (key @ key)" data arbitrary: out rule: unmask_words.induct)
  case (1 data)
  show ?case
  proof (cases "8 \<le> length data")
    case True
    obtain o1 where o: "unmask_words (load64 (key @ key)) (drop 8 data) = (o1, rest)" "out = store64 (load64 data XOR load64 (key @ key)) @ o1"
      using 1(2) True by (subst (asm) unmask_words.simps) (auto split: prod.splits)
    obtain j where j: "o1 @ unmask_tail key (length o1) rest = unmask_tail key 0 (drop 8 data)" "length o1 = 4 * j"
      using 1(1) [OF True o(1)] by blast
    have l: "length (store64 (load64 data XOR load64 (key @ key))) = 8" by (simp add: store64_def)
    have p: "unmask_tail key (8 + n) s = unmask_tail key n s" for n s using tail_period [of key n 2 s] by (simp add: add.commute)
    have "unmask_tail key 0 data = unmask_tail key 0 (take 8 data) @ unmask_tail key 8 (drop 8 data)"
      using tail_append [of key 0 "take 8 data" "drop 8 data"] True by simp
    also have "unmask_tail key 8 (drop 8 data) = unmask_tail key 0 (drop 8 data)" using p [of 0] by simp
    finally have "unmask_tail key 0 data = unmask_tail key 0 (take 8 data) @ o1 @ unmask_tail key (length o1) rest" using j(1) by simp
    moreover have "\<exists>i. length out = 4 * i" using o(2) l j(2) by (intro exI [of _ "j + 2"]) simp
    ultimately show ?thesis using o(2) unmask_word [OF assms(1) True] l p by simp
  next
    case False
    then show ?thesis using 1(2) by (subst (asm) unmask_words.simps) auto
  qed
qed

theorem unmask_bytes:
  assumes "length key = 4"
  shows "ant_ws_unmask data key = unmask_tail key 0 data"
proof (cases "unmask_words (load64 (key @ key)) data")
  case (Pair out rest)
  then show ?thesis using unmask_words_spec [OF assms Pair] by (simp add: ant_ws_unmask_def)
qed

section \<open>Frames round-trip\<close>

lemma length_byte:
  assumes "n < 128"
  shows "((if b then 0x80 else 0) OR word_of_nat n :: byte) AND 0x7f = word_of_nat n"
    "((if b then 0x80 else 0) OR word_of_nat n :: byte) AND 0x80 \<noteq> 0 \<longleftrightarrow> b"
proof -
  have u: "unat (word_of_nat n :: byte) = n" using assms by (simp add: unat_of_nat)
  have t: "take_bit 7 (word_of_nat n :: byte) = word_of_nat n" using assms by (simp add: word_unat_eq_iff unsigned_take_bit_eq u take_bit_nat_eq_self)
  have m: "x AND 0x7f = take_bit 7 x" for x :: byte by (simp add: take_bit_eq_mask mask_numeral)
  show "((if b then 0x80 else 0) OR word_of_nat n :: byte) AND 0x7f = word_of_nat n"
    unfolding m by (simp add: take_bit_or t)
  have z: "(word_of_nat n :: byte) AND 0x80 = 0" using high_mask_tests(1) [of "word_of_nat n"] u assms by simp
  show "((if b then 0x80 else 0) OR word_of_nat n :: byte) AND 0x80 \<noteq> 0 \<longleftrightarrow> b"
    by (simp add: and.commute [of _ "0x80"] bit.conj_disj_distrib z [unfolded and.commute [of _ "0x80"]])
qed

definition head_byte :: "bool \<Rightarrow> byte \<Rightarrow> byte" where
  "head_byte rsv1 opcode = 0x80 OR (if rsv1 then 0x40 else 0) OR opcode"

lemma head_byte_parts:
  assumes "opcode < 0x10"
  shows "head_byte rsv1 opcode AND 0x0f = opcode" "head_byte rsv1 opcode AND 0x30 = 0"
    "head_byte rsv1 opcode AND 0x40 \<noteq> 0 \<longleftrightarrow> rsv1" "head_byte rsv1 opcode AND 0x80 \<noteq> 0"
proof -
  define n where "n = unat opcode"
  have "n < 16" using assms by (simp add: n_def word_less_nat_alt)
  then have "n \<in> {0, 1, 2, 3, 4, 5, 6, 7, 8, 9, 10, 11, 12, 13, 14, 15}" by (simp add: less_Suc_eq numeral_eq_Suc)
  moreover have "opcode = word_of_nat n" by (simp add: n_def)
  ultimately have "head_byte r opcode AND 0x0f = opcode \<and> head_byte r opcode AND 0x30 = 0
      \<and> (head_byte r opcode AND 0x40 \<noteq> 0 \<longleftrightarrow> r) \<and> head_byte r opcode AND 0x80 \<noteq> 0" for r
    by (elim insertE emptyE; cases r) (simp_all add: head_byte_def)
  then show "head_byte rsv1 opcode AND 0x0f = opcode" "head_byte rsv1 opcode AND 0x30 = 0"
    "head_byte rsv1 opcode AND 0x40 \<noteq> 0 \<longleftrightarrow> rsv1" "head_byte rsv1 opcode AND 0x80 \<noteq> 0" by blast+
qed

lemma two_bytes:
  assumes "n < 65536"
  shows "push_bit 8 (ucast (word_of_nat (n div 256) :: byte)) OR ucast (word_of_nat (n mod 256) :: byte) = (word_of_nat n :: u64)"
proof -
  have u: "unat (ucast (word_of_nat k :: byte) :: u64) = k" if "k < 256" for k
    using that by (simp add: unsigned_ucast_eq unat_of_nat take_bit_nat_eq_self)
  have d: "n div 256 < 256" using assms by (simp add: less_mult_imp_div_less)
  have "unat (push_bit 8 (ucast (word_of_nat (n div 256) :: byte)) OR ucast (word_of_nat (n mod 256) :: byte) :: u64) = n div 256 * 256 + n mod 256"
    using unat_shl_or [of "ucast (word_of_nat (n div 256) :: byte) :: u64" 8 "ucast (word_of_nat (n mod 256) :: byte)"] u [OF d] u [of "n mod 256"] d by simp
  also have "\<dots> = n" by simp
  finally show ?thesis using assms by (simp add: word_unat_eq_iff unat_of_nat)
qed

lemma length_bytes_length: "length (ws_length_bytes b n) = (if n < 126 then 1 else if n \<le> 65535 then 3 else 9)"
  by (simp add: ws_length_bytes_def ant_ws_write_u64_be_def)

lemma second_byte: "ws_length_bytes b n ! 0 = ((if b then 0x80 else 0) OR word_of_nat (if n < 126 then n else if n \<le> 65535 then 126 else 127))"
  by (simp add: ws_length_bytes_def)

text \<open>What the parser makes of the first \<open>k\<close> bytes of an encoded header.\<close>

lemma payload_length_prefix:
  assumes "n < 2 ^ 63" "2 \<le> k"
  shows "ws_payload_length (take k (d0 # ws_length_bytes b n @ rest)) =
    (if k < 1 + length (ws_length_bytes b n) then Inl ANT_WS_FRAME_INCOMPLETE else Inr (1 + length (ws_length_bytes b n), word_of_nat n))"
proof -
  obtain j where j: "k = Suc (Suc j)" using assms(2) by (metis add_2_eq_Suc le_Suc_ex)
  have c: "(ucast (word_of_nat i :: byte) :: u64) = word_of_nat i" if "i < 256" for i
    using that by (simp add: word_unat_eq_iff unsigned_ucast_eq unat_of_nat take_bit_nat_eq_self)
  have b7: "ucast (((if b then 0x80 else 0) OR word_of_nat i :: byte) AND 0x7f) = (word_of_nat i :: u64)" if "i < 128" for i
    using length_byte(1) [OF that, of b] c [of i] that by simp
  consider (small) "n < 126" | (medium) "126 \<le> n" "n \<le> 65535" | (large) "65535 < n" by linarith
  then show ?thesis
  proof cases
    case small
    have "(word_of_nat n :: u64) \<noteq> 126" "(word_of_nat n :: u64) \<noteq> 127" using small by (auto simp: word_unat_eq_iff unat_of_nat)
    then show ?thesis using small b7 [of n] j by (simp add: ws_payload_length_def ws_length_bytes_def)
  next
    case medium
    have e: "ws_length_bytes b n = [(if b then 0x80 else 0) OR word_of_nat 126, word_of_nat (n div 256), word_of_nat (n mod 256)]"
      using medium by (simp add: ws_length_bytes_def)
    have t: "take k (d0 # ws_length_bytes b n @ rest) = d0 # ((if b then 0x80 else 0) OR word_of_nat 126) # take j (word_of_nat (n div 256) # word_of_nat (n mod 256) # rest)"
      by (simp add: e j)
    show ?thesis
    proof (cases "k < 4")
      case True
      then show ?thesis unfolding t using b7 [of 126] j by (simp add: ws_payload_length_def e)
    next
      case False
      then have "2 \<le> j" using j by simp
      then obtain i where "j = Suc (Suc i)" by (metis add_2_eq_Suc le_Suc_ex)
      then show ?thesis unfolding t using b7 [of 126] two_bytes [of n] medium False by (simp add: ws_payload_length_def e)
    qed
  next
    case large
    let ?w = "ant_ws_write_u64_be (word_of_nat n)"
    have e: "ws_length_bytes b n = ((if b then 0x80 else 0) OR word_of_nat 127) # ?w" using large by (simp add: ws_length_bytes_def)
    have l: "length ?w = 8" by (simp add: ant_ws_write_u64_be_def)
    have t: "take k (d0 # ws_length_bytes b n @ rest) = d0 # ((if b then 0x80 else 0) OR word_of_nat 127) # take j (?w @ rest)"
      by (simp add: e j)
    have sm: "(word_of_nat n :: u64) AND push_bit 63 1 = 0"
    proof -
      have "\<not> bit n 63" using assms(1) by (simp add: bit_iff_odd)
      then have "\<not> bit (word_of_nat n :: u64) 63" by (simp only: bit_of_nat_iff simp_thms)
      then show ?thesis by (simp only: and_exp_eq_0_iff_not_bit push_bit_of_1 simp_thms)
    qed
    show ?thesis
    proof (cases "k < 10")
      case True
      then show ?thesis unfolding t using b7 [of 127] j l by (simp add: ws_payload_length_def e)
    next
      case False
      then have "take j (?w @ rest) = ?w @ take (j - 8) rest" "8 \<le> j" using j l by (simp_all add: take_append)
      then show ?thesis unfolding t using b7 [of 127] l sm read_write_be [of "word_of_nat n" "take (j - 8) rest"] False j
        by (simp add: ws_payload_length_def e Let_def)
    qed
  qed
qed

text \<open>Frames the encoder is asked for: a control frame is short and not compressed.\<close>

definition ws_sendable :: "byte \<Rightarrow> bytes \<Rightarrow> bool \<Rightarrow> bool" where
  "ws_sendable opcode payload rsv1 \<longleftrightarrow>
     opcode < 0x10 \<and> length payload < 2 ^ 63 \<and> (0x8 \<le> opcode \<longrightarrow> length payload \<le> 125 \<and> \<not> rsv1)"

definition ws_wire :: "byte \<Rightarrow> bytes \<Rightarrow> bool \<Rightarrow> bool \<Rightarrow> bytes \<Rightarrow> bytes" where
  "ws_wire opcode payload mask_set rsv1 key =
     head_byte rsv1 opcode # ws_length_bytes mask_set (length payload)
       @ (if mask_set then key @ unmask_tail key 0 payload else payload)"

lemma encode_wire:
  "ant_ws_encode_frame m rnd opcode (Some payload) (length payload) mask_set rsv1 = Some e \<Longrightarrow>
     \<exists>key. (mask_set \<longrightarrow> rnd = Some key) \<and> e = ws_wire opcode payload mask_set rsv1 key"
proof -
  have "map (\<lambda>i. payload ! i XOR key ! (i mod 4)) [0..<length payload] = unmask_tail key 0 payload" for key
    by (rule nth_equalityI) (simp_all add: tail_nth)
  moreover assume "ant_ws_encode_frame m rnd opcode (Some payload) (length payload) mask_set rsv1 = Some e"
  ultimately show ?thesis
    by (auto simp: ant_ws_encode_frame_def ws_wire_def head_byte_def map_nth split: if_splits option.splits)
qed

lemma encode_wire_key:
  assumes "ant_ws_encode_frame m rnd opcode (Some payload) (length payload) mask_set rsv1 = Some e"
    and "mask_set \<longrightarrow> (\<exists>key. rnd = Some key \<and> length key = 4)"
  shows "\<exists>key. e = ws_wire opcode payload mask_set rsv1 key \<and> length key = 4"
proof -
  obtain key where k: "mask_set \<longrightarrow> rnd = Some key" "e = ws_wire opcode payload mask_set rsv1 key" using encode_wire [OF assms(1)] by blast
  show ?thesis
  proof (cases mask_set)
    case True
    then show ?thesis using k assms(2) by auto
  next
    case False
    then show ?thesis using k(2) by (intro exI [of _ "[0, 0, 0, 0]"]) (simp add: ws_wire_def)
  qed
qed

lemma encode_granted:
  assumes "\<And>n. heap_ok m n" "mask_set \<Longrightarrow> rnd \<noteq> None"
  shows "ant_ws_encode_frame m rnd opcode payload n mask_set rsv1 \<noteq> None"
  using assms by (auto simp: ant_ws_encode_frame_def Let_def)

lemma wire_second:
  "data = head_byte rsv1 opcode # ws_length_bytes mask_set n @ r \<Longrightarrow> 2 \<le> k \<Longrightarrow>
     take k data ! 0 = head_byte rsv1 opcode \<and> take k data ! 1 = ws_length_bytes mask_set n ! 0"
  using length_bytes_length [of mask_set n] by (cases "ws_length_bytes mask_set n") (auto split: if_splits)

lemma wire_header_ok:
  assumes "ws_sendable opcode payload rsv1" "require_mask \<longrightarrow> mask_set" "rsv1 \<longrightarrow> allow_rsv1"
  shows "\<not> ws_header_error (head_byte rsv1 opcode) (ws_length_bytes mask_set (length payload) ! 0) require_mask allow_rsv1"
    "ws_length_bytes mask_set (length payload) ! 0 AND 0x80 \<noteq> 0 \<longleftrightarrow> mask_set"
proof -
  define n where "n = (if length payload < 126 then length payload else if length payload \<le> 65535 then 126 else 127)"
  have n: "n < 128" by (simp add: n_def)
  have o: "opcode < 0x10" using assms(1) by (simp add: ws_sendable_def)
  have s: "ws_length_bytes mask_set (length payload) ! 0 = (if mask_set then 0x80 else 0) OR word_of_nat n"
    by (simp only: second_byte n_def)
  have "0x8 \<le> opcode \<Longrightarrow> \<not> word_of_nat n > (125 :: byte)"
    using assms(1) by (auto simp: ws_sendable_def n_def word_less_nat_alt unat_of_nat)
  then show "\<not> ws_header_error (head_byte rsv1 opcode) (ws_length_bytes mask_set (length payload) ! 0) require_mask allow_rsv1"
    unfolding s ws_header_error_def Let_def length_byte [OF n] head_byte_parts [OF o]
    using assms head_byte_parts [OF o] by (auto simp: ws_sendable_def)
  show "ws_length_bytes mask_set (length payload) ! 0 AND 0x80 \<noteq> 0 \<longleftrightarrow> mask_set" unfolding s by (rule length_byte(2) [OF n])
qed

lemma parse_body:
  assumes "2 \<le> length data" "\<not> ws_header_error (data ! 0) (data ! 1) require_mask allow_rsv1"
    and "ws_payload_length data = Inr (pos, w)" "unat w = n" "data ! 1 AND 0x80 \<noteq> 0 \<longleftrightarrow> masked" "p = (if masked then pos + 4 else pos)"
  shows "length data < p + n \<Longrightarrow> fst (ant_ws_parse_frame m data require_mask allow_rsv1 inplace) = ANT_WS_FRAME_INCOMPLETE"
    "p + n \<le> length data \<Longrightarrow> heap_ok m (n + 1) \<Longrightarrow>
      ant_ws_parse_frame m data require_mask allow_rsv1 inplace =
        (let key = (if masked then take 4 (drop pos data) else [0, 0, 0, 0]);
             payload = take n (drop p data);
             payload = (if masked \<and> 0 < n then ant_ws_unmask payload key else payload)
         in (ANT_WS_FRAME_OK,
             \<lparr>f_payload = payload, f_payload_len = n, f_consumed_len = p + n, f_opcode = data ! 0 AND 0x0f, f_mask = key,
               f_fin = (data ! 0 AND 0x80 \<noteq> 0), f_rsv1 = (data ! 0 AND 0x40 \<noteq> 0), f_masked = masked, f_owned = \<not> inplace\<rparr>,
             if inplace then take p data @ payload @ drop (p + n) data else data))"
  using assms by (auto simp: ant_ws_parse_frame_def Let_def)

text \<open>A frame that has not arrived whole is waited for, wherever it was cut.\<close>

theorem parse_prefix:
  assumes "ws_sendable opcode payload rsv1" "require_mask \<longrightarrow> mask_set" "rsv1 \<longrightarrow> allow_rsv1" "length key = 4"
    and "k < length (ws_wire opcode payload mask_set rsv1 key)"
  shows "fst (ant_ws_parse_frame m (take k (ws_wire opcode payload mask_set rsv1 key)) require_mask allow_rsv1 inplace) = ANT_WS_FRAME_INCOMPLETE"
proof (cases "k < 2")
  case True
  then have "length (take k (ws_wire opcode payload mask_set rsv1 key)) < 2" by simp
  then show ?thesis by (simp only: ant_ws_parse_frame_def if_True fst_conv)
next
  case False
  define n where "n = length payload"
  define r where "r = (if mask_set then key @ unmask_tail key 0 payload else payload)"
  let ?w = "ws_wire opcode payload mask_set rsv1 key" and ?l = "ws_length_bytes mask_set n"
  have w: "?w = head_byte rsv1 opcode # ?l @ r" by (simp add: ws_wire_def n_def r_def)
  have lw: "length ?w = 1 + length ?l + length r" by (simp add: w)
  have lr: "length r = (if mask_set then 4 + n else n)" using assms(4) by (simp add: r_def n_def)
  have n: "n < 2 ^ 63" "unat (word_of_nat n :: u64) = n" using assms(1) by (simp_all add: ws_sendable_def n_def unat_of_nat)
  have d: "take k ?w ! 0 = head_byte rsv1 opcode" "take k ?w ! 1 = ?l ! 0" using wire_second [OF w, of k] False by simp_all
  have lk: "length (take k ?w) = k" using assms(5) by simp
  note h = wire_header_ok [OF assms(1-3), folded n_def]
  have p: "ws_payload_length (take k ?w) = (if k < 1 + length ?l then Inl ANT_WS_FRAME_INCOMPLETE else Inr (1 + length ?l, word_of_nat n))"
    unfolding w using payload_length_prefix [OF n(1), of k] False by simp
  have h': "\<not> ws_header_error (take k ?w ! 0) (take k ?w ! 1) require_mask allow_rsv1" "take k ?w ! 1 AND 0x80 \<noteq> 0 \<longleftrightarrow> mask_set"
    unfolding d by (rule h)+
  have two: "2 \<le> length (take k ?w)" using False lk by simp
  show ?thesis
  proof (cases "k < 1 + length ?l")
    case True
    then have "ws_payload_length (take k ?w) = Inl ANT_WS_FRAME_INCOMPLETE" using p by simp
    then show ?thesis using two h'(1) by (simp only: ant_ws_parse_frame_def not_less [symmetric] if_False sum.case fst_conv)
  next
    case F: False
    then have "ws_payload_length (take k ?w) = Inr (1 + length ?l, word_of_nat n)" using p by simp
    moreover have "length (take k ?w) < (if mask_set then 1 + length ?l + 4 else 1 + length ?l) + n" using assms(5) lk lw lr by (simp split: if_splits)
    ultimately show ?thesis by (intro parse_body(1) [OF two h'(1) _ n(2) h'(2) refl])
  qed
qed

text \<open>A whole frame is read back, with whatever follows it left alone.\<close>

theorem parse_encoded:
  assumes "ws_sendable opcode payload rsv1" "require_mask \<longrightarrow> mask_set" "rsv1 \<longrightarrow> allow_rsv1" "length key = 4" "\<And>n. heap_ok m n"
  shows "case ant_ws_parse_frame m (ws_wire opcode payload mask_set rsv1 key @ rest) require_mask allow_rsv1 inplace of (res, f, data) \<Rightarrow>
    res = ANT_WS_FRAME_OK \<and> f_payload f = payload \<and> f_payload_len f = length payload \<and> f_opcode f = opcode \<and> f_fin f \<and> f_rsv1 f = rsv1
    \<and> f_masked f = mask_set \<and> f_consumed_len f = length (ws_wire opcode payload mask_set rsv1 key) \<and> drop (f_consumed_len f) data = rest"
proof -
  define n where "n = length payload"
  define r where "r = (if mask_set then key @ unmask_tail key 0 payload else payload)"
  let ?w = "ws_wire opcode payload mask_set rsv1 key @ rest" and ?l = "ws_length_bytes mask_set n"
  have w: "?w = head_byte rsv1 opcode # ?l @ (r @ rest)" by (simp add: ws_wire_def n_def r_def)
  have n: "n < 2 ^ 63" "unat (word_of_nat n :: u64) = n" using assms(1) by (simp_all add: ws_sendable_def n_def unat_of_nat)
  have l1: "1 \<le> length ?l" by (simp add: length_bytes_length)
  have lw: "length ?w = 1 + length ?l + length r + length rest" by (simp add: w)
  have d: "?w ! 0 = head_byte rsv1 opcode" "?w ! 1 = ?l ! 0" using wire_second [OF w, of "length ?w"] l1 lw by simp_all
  note h = wire_header_ok [OF assms(1-3), folded n_def]
  have o: "head_byte rsv1 opcode AND 0x0f = opcode" "head_byte rsv1 opcode AND 0x40 \<noteq> 0 \<longleftrightarrow> rsv1" "head_byte rsv1 opcode AND 0x80 \<noteq> 0"
    using head_byte_parts [of opcode] assms(1) by (simp_all add: ws_sendable_def)
  have p: "ws_payload_length ?w = Inr (1 + length ?l, word_of_nat n)"
    using payload_length_prefix [OF n(1), of "length ?w" "head_byte rsv1 opcode" mask_set "r @ rest"] lw l1 unfolding w by simp
  have u: "ant_ws_unmask (unmask_tail key 0 payload) key = payload" by (simp add: unmask_bytes assms(4) tail_involution)
  have two: "2 \<le> length ?w" using lw l1 by simp
  have h': "\<not> ws_header_error (?w ! 0) (?w ! 1) require_mask allow_rsv1" "?w ! 1 AND 0x80 \<noteq> 0 \<longleftrightarrow> mask_set"
    unfolding d by (rule h)+
  define q where "q = (if mask_set then 1 + length ?l + 4 else 1 + length ?l)"
  have lc: "length (ws_wire opcode payload mask_set rsv1 key) = q + n"
    using assms(4) by (simp add: ws_wire_def q_def n_def)
  have dr: "drop (1 + length ?l) ?w = r @ rest" unfolding w by simp
  have dn: "drop (q + n) ?w = rest" unfolding lc [symmetric] by simp
  have dq: "drop q ?w = (if mask_set then unmask_tail key 0 payload else payload) @ rest"
    using dr assms(4) by (cases mask_set) (simp_all only: q_def r_def if_True if_False add.commute [of _ 4] drop_drop [symmetric], simp_all)
  have key: "mask_set \<Longrightarrow> take 4 (drop (1 + length ?l) ?w) = key" using assms(4) unfolding dr by (simp add: r_def)
  have ln: "q + n \<le> length ?w" using lc by simp
  have pl: "(if mask_set \<and> 0 < n then ant_ws_unmask (take n (drop q ?w)) (if mask_set then take 4 (drop (1 + length ?l) ?w) else [0, 0, 0, 0])
      else take n (drop q ?w)) = payload"
    unfolding dq using key u by (auto simp: n_def)
  have tq: "length (take q ?w @ payload) = q + n" using ln by (simp add: n_def)
  show ?thesis
    unfolding parse_body(2) [OF two h'(1) p n(2) h'(2) q_def ln assms(5)] Let_def pl
    using o dn tq lc d by (simp add: n_def del: length_append append_assoc add: append_assoc [symmetric])
qed

text \<open>
  Whatever arrives, an accepted frame lies inside the bytes that were read. \<open>ws_declared\<close> is the length
  the header announces, as a number in network byte order, and \<open>ws_header_size\<close> the bytes before the
  payload: two, the extended length and the key.
\<close>

definition ws_extended :: "bytes \<Rightarrow> nat" where
  "ws_extended data = (let n = unat (data ! 1) mod 128 in if n = 126 then 2 else if n = 127 then 8 else 0)"

definition ws_declared :: "bytes \<Rightarrow> nat" where
  "ws_declared data =
     (if ws_extended data = 0 then unat (data ! 1) mod 128 else load_le (rev (take (ws_extended data) (drop 2 data))))"

definition ws_key_size :: "bytes \<Rightarrow> nat" where
  "ws_key_size data = (if 128 \<le> unat (data ! 1) then 4 else 0)"

definition ws_header_size :: "bytes \<Rightarrow> nat" where
  "ws_header_size data = 2 + ws_extended data + ws_key_size data"

lemma byte_u64: "unat (ucast (b :: byte) :: u64) = unat b"
  using unat_lt_B8 [of b] by (simp add: unsigned_ucast_eq take_bit_nat_eq_self del: unat_lt_B8)

lemma low_seven: "unat (ucast (b AND 0x7f :: byte) :: u64) = unat b mod 128"
proof -
  have "b AND 0x7f = take_bit 7 b" by (simp add: take_bit_eq_mask mask_numeral)
  then have "unat (b AND 0x7f) = take_bit 7 (unat b)" by (simp only: unsigned_take_bit_eq)
  then show ?thesis by (simp add: byte_u64 take_bit_eq_mod)
qed

lemma key_flag: "b AND 0x80 \<noteq> (0 :: byte) \<longleftrightarrow> 128 \<le> unat b"
  using high_mask_tests(1) [of b] by (simp add: not_less)

lemma top_bit_clear: "v AND push_bit 63 1 = 0 \<Longrightarrow> unat (v :: u64) < 2 ^ 63"
proof -
  assume "v AND push_bit 63 1 = 0"
  then have "\<not> bit v 63" using and_exp_eq_0_iff_not_bit [of v 63] by (simp only: push_bit_of_1 simp_thms)
  then have "bit v n \<Longrightarrow> n < 64 \<Longrightarrow> n < 63" for n by (cases "n = 63") simp_all
  then have "take_bit 63 v = v" by (intro bit_word_eqI) (auto simp: bit_take_bit_iff)
  then show ?thesis using take_bit_nat_less_exp [of 63 "unat v"] by (simp only: unsigned_take_bit_eq [symmetric])
qed

lemma read_two: "unat (push_bit 8 (ucast a) OR ucast (b :: byte) :: u64) = unat (a :: byte) * 256 + unat b"
  using unat_shl_or [of "ucast a :: u64" 8 "ucast b"] unat_lt_B8 [of a] unat_lt_B8 [of b] by (simp add: byte_u64 del: unat_lt_B8)

lemma read_eight: "unat (ant_ws_read_u64_be data) = load_le (rev (take 8 data))"
  using read_be [of "rev (take 8 data)"] by (simp add: ant_ws_read_u64_be_def foldl_conv_foldr)

lemma payload_length_declared:
  assumes "ws_payload_length data = Inr (pos, n)"
  shows "unat n = ws_declared data" "pos = 2 + ws_extended data" "unat n < 2 ^ 63"
proof -
  define k where "k = unat (data ! 1) mod 128"
  have w: "(ucast (data ! 1 AND 0x7f) :: u64) = 126 \<longleftrightarrow> k = 126" "(ucast (data ! 1 AND 0x7f) :: u64) = 127 \<longleftrightarrow> k = 127"
    by (simp_all add: word_unat_eq_iff low_seven k_def)
  consider (two) "k = 126" "4 \<le> length data" "pos = 4" "n = push_bit 8 (ucast (data ! 2)) OR ucast (data ! 3)"
    | (eight) "k = 127" "10 \<le> length data" "pos = 10" "n = ant_ws_read_u64_be (drop 2 data)" "n AND push_bit 63 1 = 0"
    | (short) "k \<noteq> 126" "k \<noteq> 127" "pos = 2" "n = ucast (data ! 1 AND 0x7f)"
    using assms unfolding ws_payload_length_def Let_def w by (auto split: if_splits)
  moreover have x: "ws_extended data = (if k = 126 then 2 else if k = 127 then 8 else 0)"
    "ws_declared data = (if ws_extended data = 0 then k else load_le (rev (take (ws_extended data) (drop 2 data))))"
    by (simp_all only: ws_extended_def ws_declared_def k_def Let_def)
  ultimately have "unat n = ws_declared data \<and> pos = 2 + ws_extended data \<and> unat n < 2 ^ 63"
  proof cases
    case two
    have "take 2 (drop 2 data) = [data ! 2, data ! 3]"
      using two(2) by (simp add: list_eq_iff_nth_eq less_Suc_eq numeral_eq_Suc)
    then show ?thesis using two unat_lt_B8 [of "data ! 2"] unat_lt_B8 [of "data ! 3"]
      by (simp add: x read_two del: unat_lt_B8)
  next
    case eight
    then show ?thesis using top_bit_clear [of n] by (simp add: x read_eight)
  next
    case short
    then have "unat n = k" "k < 128" by (simp_all add: low_seven k_def del: One_nat_def)
    then show ?thesis using short(1-3) by (simp add: x)
  qed
  then show "unat n = ws_declared data" "pos = 2 + ws_extended data" "unat n < 2 ^ 63" by blast+
qed

lemma payload_length_not_ok: "ws_payload_length data \<noteq> Inl ANT_WS_FRAME_OK"
  by (simp add: ws_payload_length_def Let_def)

theorem parse_frame_spec:
  assumes "ant_ws_parse_frame m data require_mask allow_rsv1 inplace = (ANT_WS_FRAME_OK, f, data')"
  defines "h \<equiv> ws_header_size data" and "n \<equiv> ws_declared data"
  shows "h + n \<le> length data" "n < 2 ^ 63" "f_payload_len f = n" "f_consumed_len f = h + n"
    "f_payload f = (if 128 \<le> unat (data ! 1) then unmask_tail (take 4 (drop (h - 4) data)) 0 (take n (drop h data)) else take n (drop h data))"
    "data' = (if inplace then take h data @ f_payload f @ drop (h + n) data else data)"
proof -
  obtain pos w where p: "ws_payload_length data = Inr (pos, w)" "2 \<le> length data"
      "\<not> ws_header_error (data ! 0) (data ! 1) require_mask allow_rsv1"
    using assms(1) payload_length_not_ok [of data]
    by (cases "ws_payload_length data") (auto simp: ant_ws_parse_frame_def split: if_splits)
  note d = payload_length_declared [OF p(1), folded n_def]
  let ?mk = "128 \<le> unat (data ! 1)"
  have k: "data ! 1 AND 0x80 \<noteq> 0 \<longleftrightarrow> ?mk" by (rule key_flag)
  have h: "h = (if ?mk then pos + 4 else pos)" by (simp add: h_def ws_header_size_def ws_key_size_def d(2))
  show len: "h + n \<le> length data"
    using parse_body(1) [OF p(2,3,1) d(1) k h, of m inplace] assms(1) by (rule_tac ccontr) simp
  have hp: "inplace \<or> heap_ok m (n + 1)"
    using assms(1) p d(1) len h k by (auto simp: ant_ws_parse_frame_def Let_def split: if_splits)
  show "n < 2 ^ 63" using d by simp
  have key: "length (take 4 (drop pos data)) = 4" if ?mk using len h that by simp
  define q where "q = take n (drop h data)"
  define pl where "pl = (if ?mk \<and> 0 < n then ant_ws_unmask q (take 4 (drop pos data)) else q)"
  have pl: "pl = (if ?mk then unmask_tail (take 4 (drop pos data)) 0 q else q)"
    using key by (auto simp: pl_def unmask_bytes q_def)
  have f: "f = \<lparr>f_payload = pl, f_payload_len = n, f_consumed_len = h + n, f_opcode = data ! 0 AND 0x0f,
        f_mask = (if ?mk then take 4 (drop pos data) else [0, 0, 0, 0]), f_fin = (data ! 0 AND 0x80 \<noteq> 0),
        f_rsv1 = (data ! 0 AND 0x40 \<noteq> 0), f_masked = ?mk, f_owned = \<not> inplace\<rparr>"
      "data' = (if inplace then take h data @ pl @ drop (h + n) data else data)"
    using assms(1) p d(1) len h k hp by (auto simp: ant_ws_parse_frame_def Let_def pl_def q_def split: if_splits)
  have p4: "?mk \<Longrightarrow> pos = h - 4" using h by simp
  show "f_payload_len f = n" "f_consumed_len f = h + n" by (simp_all add: f(1))
  show "f_payload f = (if ?mk then unmask_tail (take 4 (drop (h - 4) data)) 0 (take n (drop h data)) else take n (drop h data))"
    using pl p4 by (simp add: f(1) q_def)
  show "data' = (if inplace then take h data @ f_payload f @ drop (h + n) data else data)" using f by simp
qed

end
