(* ===== verification/Eventsource.thy ===== *)
theory Eventsource
  imports Chunked Textcodec
begin

text \<open>
  Server-sent events (\<open>src/src/http/eventsource.c\<close>, \<open>src/include/http/eventsource.h\<close>): the incremental parser
  of an event stream and the writer of events. The fields of the parser are C strings: what is kept
  is the bytes before the terminator, so a zero byte inside a value ends it. The callback is a
  parameter that says whether to go on; the messages it is given are collected in the result.
\<close>

section \<open>The parser\<close>

record ant_sse_message =
  m_data :: bytes
  m_event :: "bytes option"
  m_id :: "bytes option"
  m_retry :: u32
  m_has_retry :: bool

record ant_sse_parser =
  sp_line :: bytes
  sp_line_cap :: nat
  sp_data :: "bytes option"
  sp_event :: "bytes option"
  sp_id :: "bytes option"
  sp_last_event_id :: "bytes option"
  sp_retry :: u32
  sp_has_retry :: bool

definition ant_sse_parser_init :: ant_sse_parser where
  "ant_sse_parser_init = \<lparr>sp_line = [], sp_line_cap = 0, sp_data = None, sp_event = None, sp_id = None,
     sp_last_event_id = None, sp_retry = 0, sp_has_retry = False\<rparr>"

definition parser_reset_event :: "ant_sse_parser \<Rightarrow> ant_sse_parser" where
  "parser_reset_event parser = parser\<lparr>sp_data := None, sp_event := None, sp_id := None\<rparr>"

definition ant_sse_parser_free :: "ant_sse_parser \<Rightarrow> ant_sse_parser" where
  "ant_sse_parser_free parser = ant_sse_parser_init"

text \<open>\<open>set_string\<close>: the new content of the slot, or \<open>None\<close> when the copy cannot be allocated.\<close>

definition set_string :: "mem \<Rightarrow> bytes \<Rightarrow> bytes option" where
  "set_string m value = (if heap_ok m (length value + 1) then Some (c_string value) else None)"

definition append_data_field :: "mem \<Rightarrow> ant_sse_parser \<Rightarrow> bytes \<Rightarrow> ant_sse_parser \<times> bool" where
  "append_data_field m parser value =
     (let cur = (case sp_data parser of None \<Rightarrow> [] | Some d \<Rightarrow> d)
      in if \<not> heap_ok m (length cur + length value + 2) then (parser, False)
         else (parser\<lparr>sp_data := Some (c_string (cur @ value @ [0x0A]))\<rparr>, True))"

fun retry_loop :: "u32 \<Rightarrow> bytes \<Rightarrow> u32 option" where
  "retry_loop retry [] = Some retry"
| "retry_loop retry (c # value) =
     (if c < 0x30 \<or> c > 0x39 then None
      else
        let digit = ucast (c - 0x30) :: u32
        in if retry > (0xFFFFFFFF - digit) div 10 then None else retry_loop (retry * 10 + digit) value)"

definition parse_retry :: "bytes \<Rightarrow> u32 option" where
  "parse_retry value = (if value = [] then None else retry_loop 0 value)"

definition dispatch_event ::
  "mem \<Rightarrow> (ant_sse_message \<Rightarrow> bool) \<Rightarrow> ant_sse_parser \<Rightarrow> ant_sse_parser \<times> ant_sse_message list \<times> bool" where
  "dispatch_event m cb parser =
     (case sp_data parser of
        None \<Rightarrow> (parser_reset_event parser, [], True)
      | Some d \<Rightarrow>
          let d = (if d \<noteq> [] \<and> last d = 0x0A then butlast d else d);
              message = \<lparr>m_data = d, m_event = sp_event parser, m_id = sp_id parser, m_retry = sp_retry parser, m_has_retry = sp_has_retry parser\<rparr>;
              parser = parser\<lparr>sp_data := Some d\<rparr>;
              last_id = (case sp_id parser of
                  None \<Rightarrow> Some (sp_last_event_id parser)
                | Some i \<Rightarrow> map_option Some (set_string m i))
          in (case last_id of
                None \<Rightarrow> (parser, [], False)
              | Some l \<Rightarrow> (parser_reset_event (parser\<lparr>sp_last_event_id := l\<rparr>), [message], cb message)))"

definition strip_cr :: "bytes \<Rightarrow> bytes" where
  "strip_cr line = (if line \<noteq> [] \<and> last line = 0x0D then butlast line else line)"

text \<open>The field name and the value of a line: the value starts after the first colon and one space.\<close>

definition split_field :: "bytes \<Rightarrow> bytes \<times> bytes" where
  "split_field line =
     (let field = takeWhile (\<lambda>c. c \<noteq> 0x3A) line;
          value = tl (dropWhile (\<lambda>c. c \<noteq> 0x3A) line)
      in (field, if value \<noteq> [] \<and> hd value = 0x20 then tl value else value))"

definition parser_process_line ::
  "mem \<Rightarrow> (ant_sse_message \<Rightarrow> bool) \<Rightarrow> ant_sse_parser \<Rightarrow> bytes \<Rightarrow> ant_sse_parser \<times> ant_sse_message list \<times> bool" where
  "parser_process_line m cb parser line =
     (let line = strip_cr line
      in if line = [] then dispatch_event m cb parser
         else if line ! 0 = 0x3A then (parser, [], True)
         else
           case split_field line of (field, value) \<Rightarrow>
             if field = ascii ''data'' then (case append_data_field m parser value of (p, ok) \<Rightarrow> (p, [], ok))
             else if field = ascii ''event'' then
               (case set_string m value of None \<Rightarrow> (parser, [], False) | Some s \<Rightarrow> (parser\<lparr>sp_event := Some s\<rparr>, [], True))
             else if field = ascii ''id'' then
               if 0 \<in> set value then (parser, [], True)
               else (case set_string m value of None \<Rightarrow> (parser, [], False) | Some s \<Rightarrow> (parser\<lparr>sp_id := Some s\<rparr>, [], True))
             else if field = ascii ''retry'' then
               (case parse_retry value of
                  None \<Rightarrow> (parser, [], True)
                | Some r \<Rightarrow> (parser\<lparr>sp_retry := r, sp_has_retry := True\<rparr>, [], True))
             else (parser, [], True))"

text \<open>One byte of the chunk.\<close>

definition sse_byte ::
  "mem \<Rightarrow> (ant_sse_message \<Rightarrow> bool) \<Rightarrow> ant_sse_parser \<Rightarrow> byte \<Rightarrow> ant_sse_parser \<times> ant_sse_message list \<times> bool" where
  "sse_byte m cb parser ch =
     (if ch = 0x0A then
        (case parser_process_line m cb parser (sp_line parser) of
           (p, ms, False) \<Rightarrow> (p, ms, False)
         | (p, ms, True) \<Rightarrow> (p\<lparr>sp_line := []\<rparr>, ms, True))
      else if length (sp_line parser) + 2 > sp_line_cap parser then
        let next_cap = (if sp_line_cap parser \<noteq> 0 then sp_line_cap parser * 2 else 128)
        in if \<not> heap_ok m next_cap then (parser, [], False)
           else (parser\<lparr>sp_line_cap := next_cap, sp_line := sp_line parser @ [ch]\<rparr>, [], True)
      else (parser\<lparr>sp_line := sp_line parser @ [ch]\<rparr>, [], True))"

fun ant_sse_parser_feed ::
  "mem \<Rightarrow> (ant_sse_message \<Rightarrow> bool) \<Rightarrow> ant_sse_parser \<Rightarrow> bytes \<Rightarrow> ant_sse_parser \<times> ant_sse_message list \<times> bool" where
  "ant_sse_parser_feed m cb parser [] = (parser, [], True)"
| "ant_sse_parser_feed m cb parser (ch # chunk) =
     (case sse_byte m cb parser ch of
        (p, ms, False) \<Rightarrow> (p, ms, False)
      | (p, ms, True) \<Rightarrow> (case ant_sse_parser_feed m cb p chunk of (p, ms', ok) \<Rightarrow> (p, ms @ ms', ok)))"

section \<open>The writer\<close>

type_synonym sse_buf = "bytes \<times> nat"

function sse_grow :: "nat \<Rightarrow> nat \<Rightarrow> nat" where
  "sse_grow need cap_next = (if need > cap_next \<and> 0 < cap_next then sse_grow need (cap_next * 2) else cap_next)"
  by pat_completeness auto
termination
  by (relation "measure (\<lambda>(need, n). need - n)") auto

declare sse_grow.simps [simp del]

definition append_bytes :: "mem \<Rightarrow> bytes \<Rightarrow> sse_buf \<Rightarrow> sse_buf option" where
  "append_bytes m data b =
     (case b of (buf, cap) \<Rightarrow>
        let need = length buf + length data + 1
        in if need > cap then
             let cap_next = sse_grow need (if cap \<noteq> 0 then cap * 2 else 64)
             in if heap_ok m cap_next then Some (buf @ data, cap_next) else None
           else Some (buf @ data, cap))"

text \<open>The first line of a value, without its line break, and what follows the break, if there is one.\<close>

definition cut_line :: "bytes \<Rightarrow> bytes \<times> bytes option" where
  "cut_line p =
     (strip_cr (takeWhile (\<lambda>c. c \<noteq> 0x0A) p),
      case dropWhile (\<lambda>c. c \<noteq> 0x0A) p of [] \<Rightarrow> None | _ # rest \<Rightarrow> Some rest)"

lemma cut_line_rest: "cut_line p = (line, Some rest) \<Longrightarrow> length rest < length p"
proof -
  assume "cut_line p = (line, Some rest)"
  then obtain c where "dropWhile (\<lambda>c. c \<noteq> 0x0A) p = c # rest" by (auto simp: cut_line_def split: list.splits)
  then show ?thesis using length_dropWhile_le [of "\<lambda>c. c \<noteq> 0x0A" p] by simp
qed

function append_field_lines :: "mem \<Rightarrow> bytes \<Rightarrow> bytes \<Rightarrow> sse_buf \<Rightarrow> sse_buf option" where
  "append_field_lines m field p b =
     (case cut_line p of (line, next_line) \<Rightarrow>
        (case Option.bind (append_bytes m field b) (\<lambda>b. Option.bind (append_bytes m [0x3A, 0x20] b)
            (\<lambda>b. Option.bind (append_bytes m line b) (append_bytes m [0x0A]))) of
           None \<Rightarrow> None
         | Some b \<Rightarrow>
             (case next_line of
                None \<Rightarrow> Some b
              | Some rest \<Rightarrow> if rest = [] then Some b else append_field_lines m field rest b)))"
  by pat_completeness auto
termination
  by (relation "measure (\<lambda>(m, field, p, b). length p)") (auto dest!: cut_line_rest [OF sym])

declare append_field_lines.simps [simp del]

definition ant_sse_format_event :: "mem \<Rightarrow> bytes option \<Rightarrow> bytes option \<Rightarrow> bytes option \<Rightarrow> bytes option \<Rightarrow> bytes option" where
  "ant_sse_format_event m data event ident retry =
     map_option fst
       (Option.bind (case event of Some e \<Rightarrow> if e \<noteq> [] then append_field_lines m (ascii ''event'') e ([], 0) else Some ([], 0) | None \<Rightarrow> Some ([], 0))
       (\<lambda>b. Option.bind (case ident of Some i \<Rightarrow> append_field_lines m (ascii ''id'') i b | None \<Rightarrow> Some b)
       (\<lambda>b. Option.bind (case retry of Some r \<Rightarrow> if r \<noteq> [] then append_field_lines m (ascii ''retry'') r b else Some b | None \<Rightarrow> Some b)
       (\<lambda>b. Option.bind (append_field_lines m (ascii ''data'') (case data of Some d \<Rightarrow> d | None \<Rightarrow> []) b)
       (append_bytes m [0x0A])))))"

function append_comment_lines :: "mem \<Rightarrow> bytes \<Rightarrow> sse_buf \<Rightarrow> sse_buf option" where
  "append_comment_lines m p b =
     (case cut_line p of (line, next_line) \<Rightarrow>
        (case Option.bind (append_bytes m [0x3A, 0x20] b) (\<lambda>b. Option.bind (append_bytes m line b) (append_bytes m [0x0A])) of
           None \<Rightarrow> None
         | Some b \<Rightarrow>
             (case next_line of
                None \<Rightarrow> Some b
              | Some rest \<Rightarrow> if rest = [] then Some b else append_comment_lines m rest b)))"
  by pat_completeness auto
termination
  by (relation "measure (\<lambda>(m, p, b). length p)") (auto dest!: cut_line_rest [OF sym])

declare append_comment_lines.simps [simp del]

definition ant_sse_format_comment :: "mem \<Rightarrow> bytes option \<Rightarrow> bytes option" where
  "ant_sse_format_comment m comment =
     map_option fst
       (Option.bind (append_comment_lines m (case comment of Some c \<Rightarrow> c | None \<Rightarrow> []) ([], 0)) (append_bytes m [0x0A]))"

section \<open>Chunks and the line buffer\<close>

text \<open>Where the stream is cut does not matter: two chunks are handled like their concatenation.\<close>

theorem feed_append:
  "ant_sse_parser_feed m cb p (a @ b) =
     (case ant_sse_parser_feed m cb p a of
        (q, ms, False) \<Rightarrow> (q, ms, False)
      | (q, ms, True) \<Rightarrow> (case ant_sse_parser_feed m cb q b of (r, ms', ok) \<Rightarrow> (r, ms @ ms', ok)))"
  by (induction a arbitrary: p) (auto split: prod.splits bool.splits)

fun sse_feed_all ::
  "mem \<Rightarrow> (ant_sse_message \<Rightarrow> bool) \<Rightarrow> ant_sse_parser \<Rightarrow> bytes list \<Rightarrow> ant_sse_parser \<times> ant_sse_message list \<times> bool" where
  "sse_feed_all m cb p [] = (p, [], True)"
| "sse_feed_all m cb p (c # cs) =
     (case ant_sse_parser_feed m cb p c of
        (q, ms, False) \<Rightarrow> (q, ms, False)
      | (q, ms, True) \<Rightarrow> (case sse_feed_all m cb q cs of (r, ms', ok) \<Rightarrow> (r, ms @ ms', ok)))"

theorem feed_all_concat: "sse_feed_all m cb p cs = ant_sse_parser_feed m cb p (concat cs)"
  by (induction cs arbitrary: p) (auto simp: feed_append split: prod.splits bool.splits)

text \<open>The line and its terminator always fit in the line buffer.\<close>

definition sse_inv :: "ant_sse_parser \<Rightarrow> bool" where
  "sse_inv p \<longleftrightarrow> (sp_line_cap p = 0 \<and> sp_line p = []) \<or> (128 \<le> sp_line_cap p \<and> length (sp_line p) < sp_line_cap p)"

lemma dispatch_frame:
  "dispatch_event m cb (p\<lparr>sp_line := a, sp_line_cap := c\<rparr>) =
     (case dispatch_event m cb p of (q, ms, ok) \<Rightarrow> (q\<lparr>sp_line := a, sp_line_cap := c\<rparr>, ms, ok))"
  by (cases "sp_data p"; cases "sp_id p")
    (simp_all add: dispatch_event_def parser_reset_event_def Let_def set_string_def)

lemma process_line_frame:
  "parser_process_line m cb (p\<lparr>sp_line := a, sp_line_cap := c\<rparr>) l =
     (case parser_process_line m cb p l of (q, ms, ok) \<Rightarrow> (q\<lparr>sp_line := a, sp_line_cap := c\<rparr>, ms, ok))"
proof (cases "split_field (strip_cr l)")
  case (Pair f v)
  show ?thesis
    by (cases "set_string m v"; cases "parse_retry v")
      (simp_all add: parser_process_line_def Pair Let_def dispatch_frame append_data_field_def)
qed

lemma process_line_keeps:
  assumes "parser_process_line m cb p l = (q, ms, ok)"
  shows "sp_line q = sp_line p \<and> sp_line_cap q = sp_line_cap p"
proof -
  have "parser_process_line m cb (p\<lparr>sp_line := sp_line p, sp_line_cap := sp_line_cap p\<rparr>) l =
      (q\<lparr>sp_line := sp_line p, sp_line_cap := sp_line_cap p\<rparr>, ms, ok)"
    unfolding process_line_frame assms by simp
  then have "q\<lparr>sp_line := sp_line p, sp_line_cap := sp_line_cap p\<rparr> = q" using assms by simp
  then show ?thesis by (metis ant_sse_parser.select_convs ant_sse_parser.surjective ant_sse_parser.update_convs)
qed

lemma sse_byte_inv:
  assumes "sse_inv p"
  shows "sse_inv (fst (sse_byte m cb p c))"
proof (cases "c = 0x0A")
  case True
  obtain q ms ok where r: "parser_process_line m cb p (sp_line p) = (q, ms, ok)" by (cases "parser_process_line m cb p (sp_line p)")
  have "sse_inv (fst (sse_byte m cb p c)) = (if ok then sse_inv (q\<lparr>sp_line := []\<rparr>) else sse_inv q)"
    by (cases ok) (simp_all add: sse_byte_def True r)
  then show ?thesis using assms process_line_keeps [OF r] by (auto simp: sse_inv_def)
next
  case False
  then show ?thesis using assms by (auto simp: sse_byte_def sse_inv_def Let_def)
qed

theorem feed_keeps_inv: "sse_inv p \<Longrightarrow> sse_inv (fst (ant_sse_parser_feed m cb p s))"
proof (induction s arbitrary: p)
  case (Cons c s)
  then show ?case using sse_byte_inv [OF Cons.prems, of m cb c] Cons.IH
    by (cases "sse_byte m cb p c") (fastforce split: prod.splits bool.splits)
qed simp

section \<open>Retry times\<close>

abbreviation decimal :: "nat \<Rightarrow> bytes \<Rightarrow> nat" where
  "decimal \<equiv> foldl (\<lambda>n c. 10 * n + (unat c - 48))"

lemma decimal_grows: "n \<le> decimal n v"
proof (induction v arbitrary: n)
  case (Cons c v)
  have "n \<le> 10 * n + (unat c - 48)" by simp
  also have "\<dots> \<le> decimal (10 * n + (unat c - 48)) v" by (rule Cons.IH)
  finally show ?case by simp
qed simp

lemma retry_digit:
  assumes "0x30 \<le> (c :: byte)" "c \<le> 0x39"
  shows "unat (ucast (c - 0x30) :: u32) = unat c - 48" "unat c - 48 < 10"
proof -
  have "unat (c - 0x30) = unat c - 48" using assms(1) by (simp add: unat_sub)
  moreover have "unat c \<le> 57" using assms(2) by (simp add: word_le_nat_alt)
  ultimately show "unat (ucast (c - 0x30) :: u32) = unat c - 48" "unat c - 48 < 10"
    by (simp_all add: unsigned_ucast_eq take_bit_nat_eq_self)
qed

lemma retry_guard:
  assumes "unat d < 10"
  shows "(r :: u32) > (0xFFFFFFFF - d) div 10 \<longleftrightarrow> 2 ^ 32 \<le> 10 * unat r + unat d"
    "10 * unat r + unat d < 2 ^ 32 \<Longrightarrow> unat (r * 10 + d) = 10 * unat r + unat d"
proof -
  have "unat (0xFFFFFFFF - d) = 0xFFFFFFFF - unat d" using assms by (simp add: unat_sub word_le_nat_alt)
  then have "unat ((0xFFFFFFFF - d) div 10) = (0xFFFFFFFF - unat d) div 10" by (simp add: unat_div_distrib)
  moreover have "(0xFFFFFFFF - unat d) div 10 < unat r \<longleftrightarrow> 0xFFFFFFFF - unat d < unat r * 10" by (simp add: div_less_iff_less_mult)
  ultimately show "(r :: u32) > (0xFFFFFFFF - d) div 10 \<longleftrightarrow> 2 ^ 32 \<le> 10 * unat r + unat d"
    using assms by (simp add: word_less_nat_alt) linarith
  assume "10 * unat r + unat d < 2 ^ 32"
  then show "unat (r * 10 + d) = 10 * unat r + unat d" by (simp add: unat_word_ariths)
qed

lemma retry_loop_value:
  "retry_loop r v =
     (if (\<forall>c \<in> set v. 0x30 \<le> c \<and> c \<le> 0x39) \<and> decimal (unat r) v < 2 ^ 32 then Some (word_of_nat (decimal (unat r) v)) else None)"
proof (induction v arbitrary: r)
  case (Cons c v)
  show ?case
  proof (cases "0x30 \<le> c \<and> c \<le> 0x39")
    case True
    define d :: u32 where "d = ucast (c - 0x30)"
    have d: "unat d = unat c - 48" "unat d < 10" using retry_digit [of c] True by (simp_all add: d_def)
    have eq: "retry_loop r (c # v) = (if 2 ^ 32 \<le> 10 * unat r + unat d then None else retry_loop (r * 10 + d) v)"
      using True retry_guard(1) [OF d(2), of r] by (simp add: d_def Let_def not_less [symmetric])
    show ?thesis
    proof (cases "2 ^ 32 \<le> 10 * unat r + unat d")
      case True
      then have "2 ^ 32 \<le> decimal (unat r) (c # v)" using decimal_grows [of "10 * unat r + unat d" v] d(1) by simp
      then show ?thesis using True by (simp only: eq if_True not_less [symmetric] simp_thms if_False)
    next
      case False
      then have "unat (r * 10 + d) = 10 * unat r + unat d" using retry_guard(2) [OF d(2), of r] by simp
      then show ?thesis using False True \<open>0x30 \<le> c \<and> c \<le> 0x39\<close> Cons.IH [of "r * 10 + d"] by (simp add: eq d(1) del: retry_loop.simps)
    qed
  qed (auto simp: not_le)
qed simp

section \<open>What is written is what is read\<close>

function sse_lines :: "bytes \<Rightarrow> bytes list" where
  "sse_lines p =
     (case cut_line p of (line, None) \<Rightarrow> [line] | (line, Some rest) \<Rightarrow> if rest = [] then [line] else line # sse_lines rest)"
  by pat_completeness auto
termination
  by (relation "measure length") (auto dest!: cut_line_rest [OF sym])

declare sse_lines.simps [simp del]

definition field_text :: "bytes \<Rightarrow> bytes list \<Rightarrow> bytes" where
  "field_text field ls = concat (map (\<lambda>l. field @ [0x3A, 0x20] @ l @ [0x0A]) ls)"

lemma append_bytes_granted: "(\<And>n. heap_ok m n) \<Longrightarrow> \<exists>c. append_bytes m d (b, cap) = Some (b @ d, c)"
  by (simp add: append_bytes_def Let_def)

lemma append_field_lines_granted:
  assumes "\<And>n. heap_ok m n"
  shows "\<exists>c. append_field_lines m field p (b, cap) = Some (b @ field_text field (sse_lines p), c)"
proof (induction p arbitrary: b cap rule: sse_lines.induct)
  case (1 p)
  obtain line nx where l: "cut_line p = (line, nx)" by fastforce
  obtain c1 where c1: "append_bytes m field (b, cap) = Some (b @ field, c1)" using append_bytes_granted [OF assms] by blast
  obtain c2 where c2: "append_bytes m [0x3A, 0x20] (b @ field, c1) = Some (b @ field @ [0x3A, 0x20], c2)"
    using append_bytes_granted [OF assms, of "[0x3A, 0x20]" "b @ field"] by auto
  obtain c3 where c3: "append_bytes m line (b @ field @ [0x3A, 0x20], c2) = Some (b @ field @ 0x3A # 0x20 # line, c3)"
    using append_bytes_granted [OF assms, of line "b @ field @ [0x3A, 0x20]"] by auto
  let ?b = "b @ field @ 0x3A # 0x20 # line @ [0x0A]"
  obtain c4 where c4: "append_bytes m [0x0A] (b @ field @ 0x3A # 0x20 # line, c3) = Some (?b, c4)"
    using append_bytes_granted [OF assms, of "[0x0A]" "b @ field @ 0x3A # 0x20 # line"] by auto
  note w = append_field_lines.simps [of m field p] l c1 c2 c3 c4 sse_lines.simps [of p]
  show ?case
  proof (cases "nx = None \<or> nx = Some []")
    case True
    then show ?thesis by (auto simp: w field_text_def)
  next
    case False
    then obtain rest where n: "nx = Some rest" "rest \<noteq> []" by (cases nx) auto
    obtain c where "append_field_lines m field rest (?b, c4) = Some (?b @ field_text field (sse_lines rest), c)"
      using "1.IH" [OF l [symmetric] n(1) n(2)] by blast
    then show ?thesis using n by (auto simp: w field_text_def)
  qed
qed

lemma sse_byte_plain:
  assumes "\<And>n. heap_ok m n" "ch \<noteq> 0x0A"
  shows "\<exists>c. sse_byte m cb p ch = (p\<lparr>sp_line := sp_line p @ [ch], sp_line_cap := c\<rparr>, [], True)"
proof (cases "length (sp_line p) + 2 > sp_line_cap p")
  case True
  then show ?thesis using assms
    by (intro exI [of _ "if sp_line_cap p \<noteq> 0 then sp_line_cap p * 2 else 128"]) (simp add: sse_byte_def Let_def)
next
  case False
  then show ?thesis using assms by (intro exI [of _ "sp_line_cap p"]) (simp add: sse_byte_def)
qed

lemma feed_line:
  assumes "\<And>n. heap_ok m n" "sse_inv p" "sp_line p = []" "0x0A \<notin> set l"
  shows "\<exists>c. ant_sse_parser_feed m cb p (l @ [0x0A]) =
     (case parser_process_line m cb p l of (q, ms, ok) \<Rightarrow> (q\<lparr>sp_line := if ok then [] else l, sp_line_cap := c\<rparr>, ms, ok))"
proof -
  have f: "\<exists>c. ant_sse_parser_feed m cb p l = (p\<lparr>sp_line := sp_line p @ l, sp_line_cap := c\<rparr>, [], True)"
    if "0x0A \<notin> set l" for p l
    using that
  proof (induction l arbitrary: p)
    case Nil
    show ?case by (intro exI [of _ "sp_line_cap p"]) simp
  next
    case (Cons ch l)
    obtain c where s: "sse_byte m cb p ch = (p\<lparr>sp_line := sp_line p @ [ch], sp_line_cap := c\<rparr>, [], True)"
      using sse_byte_plain [OF assms(1), of ch cb p] Cons.prems by auto
    show ?case using Cons.IH [of "p\<lparr>sp_line := sp_line p @ [ch], sp_line_cap := c\<rparr>"] Cons.prems by (auto simp: s)
  qed
  obtain c where "ant_sse_parser_feed m cb p l = (p\<lparr>sp_line := l, sp_line_cap := c\<rparr>, [], True)"
    using f [OF assms(4), of p] assms(3) by auto
  then show ?thesis
    by (intro exI [of _ c]) (simp add: feed_append sse_byte_def process_line_frame split: prod.splits bool.splits)
qed

lemma strip_cr_id: "0x0D \<notin> set l \<Longrightarrow> strip_cr l = l"
  by (metis last_in_set strip_cr_def)

lemma cut_line_cases:
  obtains (final) "cut_line p = (strip_cr p, None)" "0x0A \<notin> set p"
    | (cut) l rest where "p = l @ 0x0A # rest" "0x0A \<notin> set l" "cut_line p = (strip_cr l, Some rest)"
proof (cases "0x0A \<in> set p")
  case True
  then obtain l rest where "p = l @ 0x0A # rest" "0x0A \<notin> set l" by (meson split_list_first)
  moreover from this have "takeWhile (\<lambda>c. c \<noteq> 0x0A) p = l" "dropWhile (\<lambda>c. c \<noteq> 0x0A) p = 0x0A # rest"
    by (simp_all add: takeWhile_append2 dropWhile_append2 takeWhile_tail split_list_first) 
      (auto simp: takeWhile_append dropWhile_append)
  ultimately show ?thesis by (intro cut) (simp_all add: cut_line_def)
next
  case False
  then have "takeWhile (\<lambda>c. c \<noteq> 0x0A) p = p" "dropWhile (\<lambda>c. c \<noteq> 0x0A) p = []" by auto
  then show ?thesis using False by (intro final) (simp_all only: cut_line_def list.case simp_thms)
qed

lemma sse_lines_cut: "cut_line p = (l, Some rest) \<Longrightarrow> sse_lines p = l # (if rest = [] then [] else sse_lines rest)"
  by (simp add: sse_lines.simps [of p])

text \<open>
  The lines of a value: it is split at line feeds, a last line that is empty is dropped, and up to two
  carriage returns at the end of a line are lost, one to the writer and one to the parser.
\<close>

fun lf_split :: "bytes \<Rightarrow> bytes list" where
  "lf_split [] = [[]]"
| "lf_split (c # s) = (if c = 0x0A then [] # lf_split s else (c # hd (lf_split s)) # tl (lf_split s))"

definition lf_lines :: "bytes \<Rightarrow> bytes list" where
  "lf_lines v = (if v \<noteq> [] \<and> last v = 0x0A then butlast (lf_split v) else lf_split v)"

definition sent_lines :: "bytes \<Rightarrow> bytes list" where
  "sent_lines v = map (strip_cr \<circ> strip_cr) (lf_lines v)"

lemma lf_split_ne: "lf_split s \<noteq> []"
  by (cases s) simp_all

lemma lf_split_plain: "0x0A \<notin> set l \<Longrightarrow> lf_split (l @ s) = (l @ hd (lf_split s)) # tl (lf_split s)"
  by (induction l) (simp_all add: lf_split_ne)

lemma lf_lines_final: "0x0A \<notin> set l \<Longrightarrow> lf_lines l = [l]"
proof -
  assume l: "0x0A \<notin> set l"
  then have "l \<noteq> [] \<Longrightarrow> last l \<noteq> 0x0A" by (metis last_in_set)
  then show ?thesis using lf_split_plain [OF l, of "[]"] by (auto simp: lf_lines_def)
qed

lemma lf_lines_cut: "0x0A \<notin> set l \<Longrightarrow> lf_lines (l @ 0x0A # rest) = l # (if rest = [] then [] else lf_lines rest)"
  using lf_split_plain [of l "0x0A # rest"] lf_split_ne [of rest] by (simp add: lf_lines_def)

lemma sse_lines_split: "sse_lines v = map strip_cr (lf_lines v)"
proof (induction v rule: sse_lines.induct)
  case (1 p)
  show ?case
  proof (cases p rule: cut_line_cases)
    case final
    then show ?thesis by (simp add: sse_lines.simps [of p] lf_lines_final)
  next
    case (cut l rest)
    then show ?thesis using "1.IH" [OF cut(3) [symmetric] refl]
      unfolding sse_lines_cut [OF cut(3)] by (cases "rest = []") (simp_all add: cut(1) lf_lines_cut [OF cut(2)])
  qed
qed

lemma sent_lines_parsed: "map strip_cr (sse_lines v) = sent_lines v"
  by (simp add: sse_lines_split sent_lines_def)

lemma sse_lines_ne: "sse_lines v \<noteq> []"
  by (simp add: sse_lines.simps [of v] split: prod.splits option.splits)

lemma strip_cr_subset: "set (strip_cr l) \<subseteq> set l"
  by (auto simp: strip_cr_def dest: in_set_butlastD)

lemma sse_lines_clean: "l \<in> set (sse_lines d) \<Longrightarrow> set l \<subseteq> set d \<and> 0x0A \<notin> set l"
proof (induction d arbitrary: l rule: sse_lines.induct)
  case (1 p)
  show ?case
  proof (cases p rule: cut_line_cases)
    case final
    then show ?thesis using "1.prems" strip_cr_subset [of p] by (auto simp: sse_lines.simps [of p])
  next
    case (cut h rest)
    then show ?thesis using "1.prems" "1.IH" [OF cut(3) [symmetric] refl, of l] strip_cr_subset [of h] cut(1,2)
      unfolding sse_lines_cut [OF cut(3)] by (cases "rest = []") auto
  qed
qed

definition join_lf :: "bytes list \<Rightarrow> bytes" where
  "join_lf ls = butlast (concat (map (\<lambda>l. l @ [0x0A]) ls))"

definition sse_clean :: "bytes \<Rightarrow> bool" where
  "sse_clean s \<longleftrightarrow> 0 \<notin> set s \<and> 0x0A \<notin> set s \<and> 0x0D \<notin> set s"

lemma sent_lines_clean: "sse_clean v \<Longrightarrow> sent_lines v = [v]"
  by (simp add: sent_lines_def sse_clean_def lf_lines_final strip_cr_id)

lemma lf_lines_concat: "concat (map (\<lambda>l. l @ [0x0A]) (lf_lines d)) = (if d \<noteq> [] \<and> last d = 0x0A then d else d @ [0x0A])"
proof (induction d rule: sse_lines.induct)
  case (1 p)
  show ?case
  proof (cases p rule: cut_line_cases)
    case final
    moreover have "p \<noteq> [] \<Longrightarrow> last p \<noteq> 0x0A" using final(2) last_in_set [of p] by metis
    ultimately show ?thesis by (auto simp: lf_lines_final)
  next
    case (cut l rest)
    then show ?thesis using "1.IH" [OF cut(3) [symmetric] refl]
      by (cases "rest = []") (simp_all add: cut(1) lf_lines_cut [OF cut(2)])
  qed
qed

lemma lf_lines_subset: "l \<in> set (lf_lines d) \<Longrightarrow> set l \<subseteq> set d"
proof (induction d arbitrary: l rule: sse_lines.induct)
  case (1 p)
  show ?case
  proof (cases p rule: cut_line_cases)
    case final
    then show ?thesis using "1.prems" by (simp add: lf_lines_final)
  next
    case (cut h rest)
    then show ?thesis using "1.prems" "1.IH" [OF cut(3) [symmetric] refl, of l] by (cases "rest = []") (auto simp: lf_lines_cut)
  qed
qed

lemma sent_lines_data: "0x0D \<notin> set d \<Longrightarrow> join_lf (sent_lines d) = (if d \<noteq> [] \<and> last d = 0x0A then butlast d else d)"
proof -
  assume "0x0D \<notin> set d"
  then have "strip_cr (strip_cr l) = l" if "l \<in> set (lf_lines d)" for l
    using lf_lines_subset [OF that] by (metis strip_cr_id subsetD)
  then have "sent_lines d = lf_lines d" by (simp add: sent_lines_def map_idI)
  then show ?thesis by (simp add: join_lf_def lf_lines_concat)
qed

lemma split_field_written:
  "0x3A \<notin> set field \<Longrightarrow> split_field (field @ 0x3A # 0x20 # v) = (field, v)"
  by (auto simp: split_field_def takeWhile_append dropWhile_append)

lemma strip_cr_written: "strip_cr (field @ 0x3A # 0x20 # v) = field @ 0x3A # 0x20 # strip_cr v"
  by (cases "v = []") (simp_all add: strip_cr_def butlast_append)

text \<open>What each field does to the parser, with the value of one line.\<close>

abbreviation sse_current :: "ant_sse_parser \<Rightarrow> bytes" where
  "sse_current p \<equiv> (case sp_data p of None \<Rightarrow> [] | Some d \<Rightarrow> d)"

definition data_step :: "bytes \<Rightarrow> ant_sse_parser \<Rightarrow> ant_sse_parser" where
  "data_step l p = p\<lparr>sp_data := Some (sse_current p @ strip_cr l @ [0x0A])\<rparr>"

definition event_step :: "bytes \<Rightarrow> ant_sse_parser \<Rightarrow> ant_sse_parser" where
  "event_step l p = p\<lparr>sp_event := Some (strip_cr l)\<rparr>"

definition id_step :: "bytes \<Rightarrow> ant_sse_parser \<Rightarrow> ant_sse_parser" where
  "id_step l p = p\<lparr>sp_id := Some (strip_cr l)\<rparr>"

definition retry_step :: "bytes \<Rightarrow> ant_sse_parser \<Rightarrow> ant_sse_parser" where
  "retry_step l p = (case parse_retry (strip_cr l) of None \<Rightarrow> p | Some r \<Rightarrow> p\<lparr>sp_retry := r, sp_has_retry := True\<rparr>)"

lemmas step_defs = data_step_def event_step_def id_step_def retry_step_def

lemma process_written:
  assumes "\<And>n. heap_ok m n" "0 \<notin> set v"
  shows "0 \<notin> set (sse_current p) \<Longrightarrow> parser_process_line m cb p (ascii ''data'' @ 0x3A # 0x20 # v) = (data_step v p, [], True)"
    "parser_process_line m cb p (ascii ''event'' @ 0x3A # 0x20 # v) = (event_step v p, [], True)"
    "parser_process_line m cb p (ascii ''id'' @ 0x3A # 0x20 # v) = (id_step v p, [], True)"
    "parser_process_line m cb p (ascii ''retry'' @ 0x3A # 0x20 # v) = (retry_step v p, [], True)"
proof -
  have c: "0x3A \<notin> set (ascii ''data'')" "0x3A \<notin> set (ascii ''event'')" "0x3A \<notin> set (ascii ''id'')" "0x3A \<notin> set (ascii ''retry'')"
    by (simp_all add: ascii_def)
  have h: "(ascii ''data'' @ x) ! 0 \<noteq> 0x3A" "(ascii ''event'' @ x) ! 0 \<noteq> 0x3A" "(ascii ''id'' @ x) ! 0 \<noteq> 0x3A"
    "(ascii ''retry'' @ x) ! 0 \<noteq> 0x3A" for x
    by (simp_all add: ascii_def)
  have n: "ascii ''event'' \<noteq> ascii ''data''" "ascii ''id'' \<noteq> ascii ''data''" "ascii ''id'' \<noteq> ascii ''event''"
    "ascii ''retry'' \<noteq> ascii ''data''" "ascii ''retry'' \<noteq> ascii ''event''" "ascii ''retry'' \<noteq> ascii ''id''"
    by (simp_all add: ascii_def)
  have z: "0 \<notin> set (strip_cr v)" using assms(2) strip_cr_subset by blast
  note w = parser_process_line_def Let_def strip_cr_written split_field_written c h n step_defs
  show "parser_process_line m cb p (ascii ''data'' @ 0x3A # 0x20 # v) = (data_step v p, [], True)" if "0 \<notin> set (sse_current p)"
  proof -
    have "c_string (sse_current p @ strip_cr v @ [0x0A]) = sse_current p @ strip_cr v @ [0x0A]" using that z by (intro c_string_id) simp
    then show ?thesis using assms(1) by (simp add: w append_data_field_def)
  qed
  show "parser_process_line m cb p (ascii ''event'' @ 0x3A # 0x20 # v) = (event_step v p, [], True)"
    using assms(1) z by (simp add: w set_string_def c_string_id)
  show "parser_process_line m cb p (ascii ''id'' @ 0x3A # 0x20 # v) = (id_step v p, [], True)"
    using assms(1) z by (simp add: w set_string_def c_string_id)
  show "parser_process_line m cb p (ascii ''retry'' @ 0x3A # 0x20 # v) = (retry_step v p, [], True)"
    by (simp add: w split: option.splits)
qed

lemma feed_written:
  assumes "\<And>n. heap_ok m n" "sse_inv p" "sp_line p = []" "0x0A \<notin> set field" "0x0A \<notin> set v"
    and "parser_process_line m cb p (field @ 0x3A # 0x20 # v) = (q, [], True)"
  shows "\<exists>c. ant_sse_parser_feed m cb p (field_text field [v]) = (q\<lparr>sp_line_cap := c\<rparr>, [], True) \<and> sp_line q = [] \<and> sse_inv (q\<lparr>sp_line_cap := c\<rparr>)"
proof -
  have k: "sp_line q = []" using process_line_keeps [OF assms(6)] assms(3) by simp
  obtain c where f: "ant_sse_parser_feed m cb p ((field @ 0x3A # 0x20 # v) @ [0x0A]) = (q\<lparr>sp_line := [], sp_line_cap := c\<rparr>, [], True)"
    using feed_line [OF assms(1-3), of "field @ 0x3A # 0x20 # v" cb] assms(4-6) by auto
  have q: "q\<lparr>sp_line := [], sp_line_cap := c\<rparr> = q\<lparr>sp_line_cap := c\<rparr>" using k by (cases q) simp
  have "sse_inv (q\<lparr>sp_line_cap := c\<rparr>)" using feed_keeps_inv [OF assms(2), of m cb "(field @ 0x3A # 0x20 # v) @ [0x0A]"] unfolding f q by simp
  then show ?thesis using f k unfolding q by (auto simp: field_text_def)
qed

text \<open>Reading a text takes the parser from one state to another, whatever the size of its line buffer.\<close>

definition sse_reads :: "mem \<Rightarrow> (ant_sse_message \<Rightarrow> bool) \<Rightarrow> ant_sse_parser \<Rightarrow> bytes \<Rightarrow> ant_sse_parser \<Rightarrow> bool" where
  "sse_reads m cb p t q \<longleftrightarrow>
     (\<forall>c. sse_inv (p\<lparr>sp_line_cap := c\<rparr>) \<longrightarrow>
        (\<exists>d. ant_sse_parser_feed m cb (p\<lparr>sp_line_cap := c\<rparr>) t = (q\<lparr>sp_line_cap := d\<rparr>, [], True) \<and> sse_inv (q\<lparr>sp_line_cap := d\<rparr>)))"

lemma reads_nil: "sse_reads m cb p [] p"
  by (auto simp: sse_reads_def)

lemma reads_trans:
  assumes "sse_reads m cb p t q" "sse_reads m cb q u r"
  shows "sse_reads m cb p (t @ u) r"
  unfolding sse_reads_def
proof (intro allI impI)
  fix c assume "sse_inv (p\<lparr>sp_line_cap := c\<rparr>)"
  then obtain d where d: "ant_sse_parser_feed m cb (p\<lparr>sp_line_cap := c\<rparr>) t = (q\<lparr>sp_line_cap := d\<rparr>, [], True)" "sse_inv (q\<lparr>sp_line_cap := d\<rparr>)"
    using assms(1) unfolding sse_reads_def by blast
  then obtain e where e: "ant_sse_parser_feed m cb (q\<lparr>sp_line_cap := d\<rparr>) u = (r\<lparr>sp_line_cap := e\<rparr>, [], True)" "sse_inv (r\<lparr>sp_line_cap := e\<rparr>)"
    using assms(2) unfolding sse_reads_def by blast
  show "\<exists>d. ant_sse_parser_feed m cb (p\<lparr>sp_line_cap := c\<rparr>) (t @ u) = (r\<lparr>sp_line_cap := d\<rparr>, [], True) \<and> sse_inv (r\<lparr>sp_line_cap := d\<rparr>)"
    using e by (auto simp: feed_append d(1))
qed

lemma process_line_cap:
  "parser_process_line m cb p l = (q, ms, ok) \<Longrightarrow>
     parser_process_line m cb (p\<lparr>sp_line_cap := c\<rparr>) l = (q\<lparr>sp_line_cap := c\<rparr>, ms, ok)"
  using process_line_frame [of m cb c "sp_line p" p l] process_line_keeps [of m cb p l q ms ok]
  by (cases q) simp

lemma reads_line:
  assumes "\<And>n. heap_ok m n" "sp_line p = []" "0x0A \<notin> set field" "0x0A \<notin> set v"
    and "parser_process_line m cb p (field @ 0x3A # 0x20 # v) = (q, [], True)"
  shows "sse_reads m cb p (field_text field [v]) q"
  unfolding sse_reads_def
proof (intro allI impI)
  fix c assume i: "sse_inv (p\<lparr>sp_line_cap := c\<rparr>)"
  have l: "sp_line (p\<lparr>sp_line_cap := c\<rparr>) = []" using assms(2) by simp
  show "\<exists>d. ant_sse_parser_feed m cb (p\<lparr>sp_line_cap := c\<rparr>) (field_text field [v]) = (q\<lparr>sp_line_cap := d\<rparr>, [], True)
      \<and> sse_inv (q\<lparr>sp_line_cap := d\<rparr>)"
    using feed_written [OF assms(1) i l assms(3,4) process_line_cap [OF assms(5)]] by auto
qed

lemma reads_lines:
  assumes "\<And>n. heap_ok m n" "0x0A \<notin> set field"
    and step: "\<And>l p. 0 \<notin> set l \<Longrightarrow> P p \<Longrightarrow> parser_process_line m cb p (field @ 0x3A # 0x20 # l) = (stp l p, [], True) \<and> P (stp l p)"
  shows "\<lbrakk>sp_line p = []; P p; \<And>l. l \<in> set ls \<Longrightarrow> 0x0A \<notin> set l \<and> 0 \<notin> set l\<rbrakk> \<Longrightarrow> sse_reads m cb p (field_text field ls) (fold stp ls p)"
proof (induction ls arbitrary: p)
  case Nil
  then show ?case by (simp add: field_text_def reads_nil)
next
  case (Cons l ls)
  have l: "0x0A \<notin> set l" "0 \<notin> set l" using Cons.prems(3) by auto
  note s = step [OF l(2) Cons.prems(2)]
  have k: "sp_line (stp l p) = []" using process_line_keeps [OF conjunct1 [OF s]] Cons.prems(1) by simp
  have "sse_reads m cb p (field_text field [l]) (stp l p)" by (rule reads_line [OF assms(1) Cons.prems(1) assms(2) l(1) conjunct1 [OF s]])
  moreover have "sse_reads m cb (stp l p) (field_text field ls) (fold stp ls (stp l p))"
    using Cons.IH [OF k conjunct2 [OF s]] Cons.prems(3) by auto
  ultimately show ?case using reads_trans by (fastforce simp: field_text_def)
qed

definition opt_text :: "bytes \<Rightarrow> bytes option \<Rightarrow> bytes" where
  "opt_text field v = (case v of Some e \<Rightarrow> field_text field (sse_lines e) | None \<Rightarrow> [])"

definition non_empty :: "bytes option \<Rightarrow> bytes option" where
  "non_empty v = (case v of Some e \<Rightarrow> if e = [] then None else Some e | None \<Rightarrow> None)"

lemma format_event_text:
  assumes "\<And>n. heap_ok m n"
  shows "ant_sse_format_event m (Some data) event ident retry =
    Some (opt_text (ascii ''event'') (non_empty event) @ opt_text (ascii ''id'') ident @ opt_text (ascii ''retry'') (non_empty retry)
      @ field_text (ascii ''data'') (sse_lines data) @ [0x0A])"
proof -
  note g = append_field_lines_granted [OF assms]
  have skip: "\<exists>c. (case v of Some e \<Rightarrow> if e \<noteq> [] then append_field_lines m field e (b, cap) else Some (b, cap) | None \<Rightarrow> Some (b, cap))
      = Some (b @ opt_text field (non_empty v), c)" for v field b cap
    using g by (cases v) (auto simp: opt_text_def non_empty_def)
  let ?e = "opt_text (ascii ''event'') (non_empty event)" and ?i = "opt_text (ascii ''id'') ident"
    and ?r = "opt_text (ascii ''retry'') (non_empty retry)" and ?d = "field_text (ascii ''data'') (sse_lines data)"
  obtain c1 where c1: "(case event of Some e \<Rightarrow> if e \<noteq> [] then append_field_lines m (ascii ''event'') e ([], 0) else Some ([], 0) | None \<Rightarrow> Some ([], 0))
      = Some (?e, c1)"
    using skip [where v = event and field = "ascii ''event''" and b = "[]" and cap = 0] by auto
  obtain c2 where c2: "(case ident of Some i \<Rightarrow> append_field_lines m (ascii ''id'') i (?e, c1) | None \<Rightarrow> Some (?e, c1)) = Some (?e @ ?i, c2)"
    using g [of "ascii ''id''" _ ?e c1] by (cases ident) (auto simp: opt_text_def)
  obtain c3 where c3: "(case retry of Some r \<Rightarrow> if r \<noteq> [] then append_field_lines m (ascii ''retry'') r (?e @ ?i, c2) else Some (?e @ ?i, c2)
      | None \<Rightarrow> Some (?e @ ?i, c2)) = Some (?e @ ?i @ ?r, c3)"
    using skip [where v = retry and field = "ascii ''retry''" and b = "?e @ ?i" and cap = c2] by auto
  obtain c4 where c4: "append_field_lines m (ascii ''data'') data (?e @ ?i @ ?r, c3) = Some (?e @ ?i @ ?r @ ?d, c4)"
    using g [of "ascii ''data''" data "?e @ ?i @ ?r" c3] by auto
  obtain c5 where c5: "append_bytes m [0x0A] (?e @ ?i @ ?r @ ?d, c4) = Some (?e @ ?i @ ?r @ ?d @ [0x0A], c5)"
    using append_bytes_granted [OF assms, of "[0x0A]" "?e @ ?i @ ?r @ ?d" c4] by auto
  show ?thesis unfolding ant_sse_format_event_def c1 Option.bind.bind_lunit c2 c3 option.case c4 c5 by simp
qed

lemma sent_lines_ne: "sent_lines v \<noteq> []"
  using sse_lines_ne [of v] sent_lines_parsed [of v] by auto

text \<open>The effect of the lines of a whole field.\<close>

lemma fold_event: "ls \<noteq> [] \<Longrightarrow> fold event_step ls p = p\<lparr>sp_event := Some (last (map strip_cr ls))\<rparr>"
proof (induction ls arbitrary: p)
  case (Cons l ls)
  then show ?case by (cases "ls = []") (simp_all add: event_step_def last_map)
qed simp

lemma fold_id: "ls \<noteq> [] \<Longrightarrow> fold id_step ls p = p\<lparr>sp_id := Some (last (map strip_cr ls))\<rparr>"
proof (induction ls arbitrary: p)
  case (Cons l ls)
  then show ?case by (cases "ls = []") (simp_all add: id_step_def last_map)
qed simp

lemma fold_data: "ls \<noteq> [] \<Longrightarrow> fold data_step ls p = p\<lparr>sp_data := Some (sse_current p @ concat (map (\<lambda>l. l @ [0x0A]) (map strip_cr ls)))\<rparr>"
proof (induction ls arbitrary: p)
  case (Cons l ls)
  then show ?case by (cases "ls = []") (simp_all add: data_step_def)
qed simp

lemma fold_retry:
  "fold retry_step ls p =
     (let rs = List.map_filter parse_retry (map strip_cr ls)
      in p\<lparr>sp_retry := (if rs = [] then sp_retry p else last rs), sp_has_retry := (sp_has_retry p \<or> rs \<noteq> [])\<rparr>)"
proof (induction ls arbitrary: p)
  case Nil
  show ?case by (simp add: List.map_filter_def)
next
  case (Cons l ls)
  define rs where "rs = List.map_filter parse_retry (map strip_cr ls)"
  have c: "List.map_filter parse_retry (map strip_cr (l # ls)) = (case parse_retry (strip_cr l) of None \<Rightarrow> rs | Some r \<Rightarrow> r # rs)"
    by (simp add: rs_def List.map_filter_def split: option.splits)
  show ?case unfolding c using Cons.IH [folded rs_def] by (cases "parse_retry (strip_cr l)") (simp_all add: retry_step_def Let_def)
qed

lemma sse_step_line: "sp_line (stp l p) = sp_line p" if "stp \<in> {data_step, event_step, id_step, retry_step}"
  using that by (auto simp: step_defs split: option.splits)

text \<open>
  The message an event becomes. A line break inside the name or the identifier starts the field again,
  so that the last line counts; among the lines of the retry time the last that is a number counts.
\<close>

definition retry_value :: "bytes \<Rightarrow> u32 option" where
  "retry_value v =
     (if v \<noteq> [] \<and> (\<forall>c \<in> set v. 0x30 \<le> c \<and> c \<le> 0x39) \<and> decimal 0 v < 2 ^ 32 then Some (word_of_nat (decimal 0 v)) else None)"

lemma parse_retry_value: "parse_retry = retry_value"
  by (simp add: fun_eq_iff parse_retry_def retry_value_def retry_loop_value)

definition sent_retries :: "bytes option \<Rightarrow> u32 list" where
  "sent_retries retry = (case retry of None \<Rightarrow> [] | Some r \<Rightarrow> List.map_filter retry_value (sent_lines r))"

definition sse_delivered :: "ant_sse_parser \<Rightarrow> bytes \<Rightarrow> bytes option \<Rightarrow> bytes option \<Rightarrow> bytes option \<Rightarrow> ant_sse_message" where
  "sse_delivered p data event ident retry =
     \<lparr>m_data = join_lf (sent_lines data),
       m_event = map_option (last \<circ> sent_lines) (non_empty event),
       m_id = map_option (last \<circ> sent_lines) ident,
       m_retry = (if sent_retries retry = [] then sp_retry p else last (sent_retries retry)),
       m_has_retry = (sp_has_retry p \<or> sent_retries retry \<noteq> [])\<rparr>"

definition sse_pending :: "ant_sse_parser \<Rightarrow> ant_sse_message \<Rightarrow> ant_sse_parser" where
  "sse_pending p msg =
     p\<lparr>sp_event := m_event msg, sp_id := m_id msg, sp_retry := m_retry msg, sp_has_retry := m_has_retry msg,
       sp_data := Some (m_data msg @ [0x0A])\<rparr>"

text \<open>Between two events: no partial line, no field read.\<close>

definition sse_idle :: "ant_sse_parser \<Rightarrow> bool" where
  "sse_idle p \<longleftrightarrow> sse_inv p \<and> sp_line p = [] \<and> sp_data p = None \<and> sp_event p = None \<and> sp_id p = None"

abbreviation c_text :: "bytes \<Rightarrow> bool" where
  "c_text s \<equiv> 0 \<notin> set s"

lemma sse_lines_text: "l \<in> set (sse_lines v) \<Longrightarrow> c_text v \<Longrightarrow> 0x0A \<notin> set l \<and> c_text l"
  using sse_lines_clean [of l v] by blast

lemma reads_event_field:
  assumes m: "\<And>n. heap_ok m n" and p: "sp_line p = []" "sp_event p = None" "pred_option c_text event"
  shows "sse_reads m cb p (opt_text (ascii ''event'') (non_empty event)) (p\<lparr>sp_event := map_option (last \<circ> sent_lines) (non_empty event)\<rparr>)"
proof (cases "non_empty event")
  case None
  moreover have "p\<lparr>sp_event := None\<rparr> = p" using p(2) by (cases p) simp
  ultimately show ?thesis using reads_nil by (simp add: opt_text_def)
next
  case (Some e)
  then have "c_text e" using p(3) by (cases event) (auto simp: non_empty_def split: if_splits)
  from reads_lines [OF m _, of "ascii ''event''" "\<lambda>_. True" cb event_step, OF _ _ p(1) _ sse_lines_text [OF _ this]] process_written(2) [OF m]
  have "sse_reads m cb p (field_text (ascii ''event'') (sse_lines e)) (fold event_step (sse_lines e) p)" by (simp add: ascii_def)
  then show ?thesis by (simp add: Some opt_text_def fold_event [OF sse_lines_ne] sent_lines_parsed)
qed

lemma reads_id_field:
  assumes m: "\<And>n. heap_ok m n" and p: "sp_line p = []" "sp_id p = None" "pred_option c_text ident"
  shows "sse_reads m cb p (opt_text (ascii ''id'') ident) (p\<lparr>sp_id := map_option (last \<circ> sent_lines) ident\<rparr>)"
proof (cases ident)
  case None
  moreover have "p\<lparr>sp_id := None\<rparr> = p" using p(2) by (cases p) simp
  ultimately show ?thesis using reads_nil by (simp add: opt_text_def)
next
  case (Some e)
  then have "c_text e" using p(3) by simp
  from reads_lines [OF m _, of "ascii ''id''" "\<lambda>_. True" cb id_step, OF _ _ p(1) _ sse_lines_text [OF _ this]] process_written(3) [OF m]
  have "sse_reads m cb p (field_text (ascii ''id'') (sse_lines e)) (fold id_step (sse_lines e) p)" by (simp add: ascii_def)
  then show ?thesis by (simp add: Some opt_text_def fold_id [OF sse_lines_ne] sent_lines_parsed)
qed

lemma sent_retries_empty: "non_empty retry = None \<Longrightarrow> sent_retries retry = []"
  by (cases retry) (auto simp: sent_retries_def non_empty_def sent_lines_def lf_lines_def strip_cr_def retry_value_def List.map_filter_def split: if_splits)

lemma reads_retry_field:
  assumes m: "\<And>n. heap_ok m n" and p: "sp_line p = []" "pred_option c_text retry"
  shows "sse_reads m cb p (opt_text (ascii ''retry'') (non_empty retry))
    (p\<lparr>sp_retry := (if sent_retries retry = [] then sp_retry p else last (sent_retries retry)), sp_has_retry := (sp_has_retry p \<or> sent_retries retry \<noteq> [])\<rparr>)"
proof (cases "non_empty retry")
  case None
  then show ?thesis using reads_nil sent_retries_empty [OF None] by (simp add: opt_text_def)
next
  case (Some e)
  then have e: "retry = Some e" "c_text e" using p(2) by (cases retry; auto simp: non_empty_def split: if_splits)+
  from reads_lines [OF m _, of "ascii ''retry''" "\<lambda>_. True" cb retry_step, OF _ _ p(1) _ sse_lines_text [OF _ e(2)]] process_written(4) [OF m]
  have "sse_reads m cb p (field_text (ascii ''retry'') (sse_lines e)) (fold retry_step (sse_lines e) p)" by (simp add: ascii_def)
  moreover have "sent_retries retry = List.map_filter retry_value (sent_lines e)" by (simp add: sent_retries_def e(1))
  moreover have "opt_text (ascii ''retry'') (non_empty retry) = field_text (ascii ''retry'') (sse_lines e)" by (simp add: opt_text_def Some)
  ultimately show ?thesis by (simp only: fold_retry sent_lines_parsed parse_retry_value Let_def)
qed

lemma reads_data_field:
  assumes m: "\<And>n. heap_ok m n" and p: "sp_line p = []" "sp_data p = None" "c_text data"
  shows "sse_reads m cb p (field_text (ascii ''data'') (sse_lines data)) (p\<lparr>sp_data := Some (join_lf (sent_lines data) @ [0x0A])\<rparr>)"
proof -
  have "sse_reads m cb p (field_text (ascii ''data'') (sse_lines data)) (fold data_step (sse_lines data) p)"
  proof (rule reads_lines [OF m, of "ascii ''data''" "\<lambda>p. c_text (sse_current p)" cb data_step, OF _ _ p(1) _ sse_lines_text [OF _ p(3)]])
    fix l q assume "c_text l" "c_text (sse_current q)"
    then show "parser_process_line m cb q (ascii ''data'' @ 0x3A # 0x20 # l) = (data_step l q, [], True) \<and> c_text (sse_current (data_step l q))"
      using process_written(1) [OF m] strip_cr_subset [of l] by (auto simp: data_step_def)
  qed (use p in \<open>simp_all add: ascii_def\<close>)
  moreover have "concat (map (\<lambda>l. l @ [0x0A]) ls) = join_lf ls @ [0x0A]" if "ls \<noteq> []" for ls
    using that by (cases ls rule: rev_cases) (simp_all add: join_lf_def butlast_append)
  ultimately show ?thesis unfolding fold_data [OF sse_lines_ne] sent_lines_parsed using p(2) sent_lines_ne [of data] by simp
qed

lemma reads_event:
  assumes m: "\<And>n. heap_ok m n" and idle: "sse_idle p"
    and z: "c_text data" "pred_option c_text event" "pred_option c_text ident" "pred_option c_text retry"
  shows "sse_reads m cb p (opt_text (ascii ''event'') (non_empty event) @ opt_text (ascii ''id'') ident @ opt_text (ascii ''retry'') (non_empty retry)
      @ field_text (ascii ''data'') (sse_lines data)) (sse_pending p (sse_delivered p data event ident retry))"
proof -
  define p1 where "p1 = p\<lparr>sp_event := map_option (last \<circ> sent_lines) (non_empty event)\<rparr>"
  define p2 where "p2 = p1\<lparr>sp_id := map_option (last \<circ> sent_lines) ident\<rparr>"
  define p3 where "p3 = p2\<lparr>sp_retry := (if sent_retries retry = [] then sp_retry p2 else last (sent_retries retry)),
      sp_has_retry := (sp_has_retry p2 \<or> sent_retries retry \<noteq> [])\<rparr>"
  have i: "sp_line p = []" "sp_event p = None" "sp_line p1 = []" "sp_id p1 = None" "sp_line p2 = []" "sp_line p3 = []" "sp_data p3 = None"
    using idle by (simp_all add: sse_idle_def p1_def p2_def p3_def)
  have "p3\<lparr>sp_data := Some (join_lf (sent_lines data) @ [0x0A])\<rparr> = sse_pending p (sse_delivered p data event ident retry)"
    by (cases p) (simp add: sse_pending_def sse_delivered_def p1_def p2_def p3_def)
  with reads_trans [OF reads_event_field [OF m i(1,2) z(2), folded p1_def]
      reads_trans [OF reads_id_field [OF m i(3,4) z(3), folded p2_def]
      reads_trans [OF reads_retry_field [OF m i(5) z(4), folded p3_def] reads_data_field [OF m i(6,7) z(1)]]]]
  show ?thesis by simp
qed

text \<open>An event that was written is delivered once.\<close>

theorem sse_event_roundtrip:
  assumes m: "\<And>n. heap_ok m n" and idle: "sse_idle p"
    and z: "c_text data" "pred_option c_text event" "pred_option c_text ident" "pred_option c_text retry"
  defines "message \<equiv> sse_delivered p data event ident retry"
  shows "\<exists>out q. ant_sse_format_event m (Some data) event ident retry = Some out
    \<and> ant_sse_parser_feed m cb p out = (q, [message], cb message)
    \<and> sp_last_event_id q = (case m_id message of None \<Rightarrow> sp_last_event_id p | Some i \<Rightarrow> Some i)
    \<and> sp_data q = None \<and> sp_event q = None \<and> sp_id q = None"
proof -
  let ?t = "opt_text (ascii ''event'') (non_empty event) @ opt_text (ascii ''id'') ident @ opt_text (ascii ''retry'') (non_empty retry)
      @ field_text (ascii ''data'') (sse_lines data)"
  let ?p = "sse_pending p message"
  have pc: "p\<lparr>sp_line_cap := sp_line_cap p\<rparr> = p" by simp
  obtain d where d: "ant_sse_parser_feed m cb p ?t = (?p\<lparr>sp_line_cap := d\<rparr>, [], True)"
    using spec [OF reads_event [OF m idle z, of cb, unfolded sse_reads_def, folded message_def], of "sp_line_cap p"] idle
    unfolding pc sse_idle_def by blast
  have i: "set_string m i = Some i" if mi: "m_id message = Some i" for i
  proof -
    obtain e where e: "ident = Some e" "i = last (sent_lines e)" using mi by (cases ident) (simp_all add: message_def sse_delivered_def)
    have "i \<in> set (map strip_cr (sse_lines e))" unfolding sent_lines_parsed e(2) by (rule last_in_set [OF sent_lines_ne])
    then have "c_text i" using sse_lines_clean [of _ e] strip_cr_subset z(3) e(1) by fastforce
    then show ?thesis using m by (simp add: set_string_def c_string_id)
  qed
  have l: "sp_line (?p\<lparr>sp_line_cap := d\<rparr>) = []" using idle by (simp add: sse_pending_def sse_idle_def)
  obtain q where q: "dispatch_event m cb (?p\<lparr>sp_line_cap := d\<rparr>) = (q, [message], cb message)"
      "sp_last_event_id q = (case m_id message of None \<Rightarrow> sp_last_event_id p | Some i \<Rightarrow> Some i)" "sp_data q = None" "sp_event q = None" "sp_id q = None"
    using i by (cases message; cases "m_id message") (auto simp: dispatch_event_def sse_pending_def parser_reset_event_def Let_def)
  have "ant_sse_parser_feed m cb (?p\<lparr>sp_line_cap := d\<rparr>) [0x0A] = (if cb message then q\<lparr>sp_line := []\<rparr> else q, [message], cb message)"
    by (cases "cb message") (simp_all add: sse_byte_def l parser_process_line_def strip_cr_def q(1))
  then have "ant_sse_parser_feed m cb p (?t @ [0x0A]) = (if cb message then q\<lparr>sp_line := []\<rparr> else q, [message], cb message)"
    using feed_append [of m cb p ?t "[0x0A]"] unfolding d by simp
  then show ?thesis unfolding format_event_text [OF m]
    using q(2-5) by (intro exI [of _ "?t @ [0x0A]"] exI [of _ "if cb message then q\<lparr>sp_line := []\<rparr> else q"]) simp
qed

end
