(* ===== verification/Spec2Isabelle.thy ===== *)
theory Spec2Isabelle
  imports Bigint_Builtins String_Decoder Utf16_Access Utf8_Export Uri Json_Quote Websocket Eventsource
begin

text \<open>
  A verification development for the \<open>ant\<close> JavaScript runtime (C sources under \<open>src/\<close>).

  \<^bold>\<open>The program.\<close> The runtime compiles JavaScript to bytecode and runs it. Under the language sit
  libraries of plain C code that work on integers and bytes: the arithmetic of BigInts, the text
  decoders and encoders, the string representation with its UTF-16 view, JSON quoting, the URI
  functions, and the wire formats of WebSockets and server-sent events. This development models those
  libraries. The interpreter reaches them with tagged values; what they inspect of a value is the
  type \<open>js_value\<close>.

  \<^bold>\<open>Theories.\<close>
  \<^item> \<open>Ant_Prelude\<close>: words of 8 to 64 bits, \<open>SIZE_MAX\<close>, the record \<open>mem\<close> that says which memory
    requests of a call are granted, the errors raised with \<open>js_mkerr\<close>, C strings, and the collection
    \<open>unat_ops\<close> of facts on words.
  \<^item> \<open>Bigint_Limbs\<close>, \<open>Bigint_Bits\<close>, \<open>Bigint_Div\<close>, \<open>Bigint\<close>, \<open>Bigint_Double\<close>, \<open>Bigint_String\<close>,
    \<open>Bigint_Builtins\<close> (\<open>src/src/modules/bigint.c\<close>): a magnitude is a list of 32-bit limbs, a payload is
    the record \<open>bigint_payload\<close> of sign, count and limbs, an operator returns an error or a payload.
    The loops over limbs keep carries and borrows in 64-bit words as the source does. The locale
    \<open>magnitude_ops\<close> states what the operators need of the magnitude routines and is interpreted on
    them.
  \<^item> \<open>Utf8\<close> (\<open>src/src/utf8.c\<close>): sequence lengths, the validator, the WHATWG decoder with its pending
    bytes. \<open>Chunked\<close>: the locale \<open>chunked_decoder\<close>, the contract of a decoder fed in chunks.
    \<open>Textcodec\<close> (\<open>src/src/modules/textcodec.c\<close>) and \<open>String_Decoder\<close>
    (\<open>src/src/modules/string_decoder.c\<close>): the two decoder objects, both interpretations of that locale.
  \<^item> \<open>Flat_String\<close> (\<open>src/include/gc/strings.h\<close>): the header word of a string. \<open>Utf16_Scan\<close>,
    \<open>Utf16_Index\<close>, \<open>Utf16_Access\<close> (\<open>src/src/utf8.c\<close>): the cursor over stored text, the scan cache and
    the index cache with their epochs, the operations that read a string by UTF-16 index, and a step
    relation of a string heap in which strings are allocated, read and swept.
  \<^item> \<open>Utf8_Export\<close>: the UTF-8 form of stored strings and \<open>TextEncoder\<close>. \<open>Json_Quote\<close>:
    \<open>utf8_json_quote\<close>. \<open>Uri\<close> (\<open>src/src/modules/uri.c\<close>).
  \<^item> \<open>Websocket\<close> (\<open>src/src/http/websocket.c\<close>): header tests, handshake, masking, frames.
    \<open>Eventsource\<close> (\<open>src/src/http/eventsource.c\<close>): the event parser and the writers.

  A definition has the name of the C function it translates; the loop inside a function is a
  function of its own (\<open>add_abs_loop\<close> for the loop of \<open>bigint_add_abs_limbs\<close>). State that C keeps in
  structures or statics is passed in and returned; an early return is a branch; a failed allocation
  is an error value or \<open>None\<close>. Reads and writes of arrays that could leave them are tested in the
  model, and the theorems show that the test never fails.

  \<^bold>\<open>What is shown.\<close>
  \<^item> BigInts: every operator computes the integer operation, or reports that memory was refused;
    results are normalised, so comparison is comparison of integers. Division is right whenever the
    correction loop of the quotient digit does not overflow, and a concrete division for which it
    does overflow and the quotient is wrong is exhibited. Exponentiation ends, printing and parsing
    are inverse, rounding to a double is to nearest even.
  \<^item> Text: the validator accepts exactly UTF-8; decoding does not depend on how the input is cut, stays
    within the output buffer and keeps the state invariant; each of the supported encodings is
    characterised. Two labels that never resolve and a byte-order mark that survives a failed decode
    are shown as the code has them.
  \<^item> Strings: in every reachable state of the string heap the caches hold positions of live strings, and
    indexing, substring, offset conversion, length and iteration agree with the UTF-16 form. Byte offsets
    that the code returns as \<open>int\<close> agree below \<open>2 ^ 31\<close> and wrap above. The length is kept in the header.
  \<^item> Output and protocols: \<open>TextEncoder\<close> and JSON quoting are right for every stored string; URI encoding
    and decoding are inverse on text without U+0000; a WebSocket frame is delivered exactly when it has
    arrived, and the payload of an accepted frame is the part of the buffer the frame declares; an event
    that was written is delivered once, its data line by line and the last line of its other fields.
    \<open>decodeURIComponent\<close> is shown to accept every ill-formed sequence of the usual shape.

  \<^bold>\<open>Strings of the heap model.\<close> The step relation \<open>str_step\<close> allocates strings whose bytes are the encoding
  of code points (lone surrogates included) with a header that is consistent with the bytes. The
  runtime can also hold other bytes, such as those \<open>decodeURIComponent\<close> lets through; the theorems on
  reachable states do not speak of them. The steps are the accesses by index, the offset and range
  conversions, the length, the cached ASCII and UTF-8 tests, allocation and sweep; \<open>te_encode\<close> and
  \<open>utf8_export_into\<close> are shown to keep the same invariant but are not steps, and the cached answers of
  \<open>utf8_export_length\<close> are treated apart, in \<open>Utf8_Export\<close>. An epoch is a
  natural number, so it does not wrap.

  \<^bold>\<open>Memory.\<close> One record \<open>mem\<close> answers the requests of one call and gives the same answer to two requests of the
  same size. A function that returns a string returns its bytes: the allocation of the result by
  \<open>js_mkstr\<close>, and the error when that fails, are not modelled (\<open>builtin_bigint_toString\<close>, \<open>td_decode\<close>,
  \<open>sd_do_write\<close>, the URI functions), nor is the array object around the bytes of \<open>te_encode\<close>.

  \<^bold>\<open>Bounds and fuel.\<close> Sizes are natural numbers with the tests of the source against \<open>SIZE_MAX\<close>; lengths
  of live strings are below \<open>2 ^ 56 - 1\<close>, the largest the header word can cache. The loop of
  \<open>bigint_exp\<close> is given a number of rounds, and the theorem on it shows that the bit length of the
  exponent is enough. Every other loop is a total function with its termination proof.

  \<^bold>\<open>Parameters.\<close> Code outside the sources is a parameter with the behaviour its documentation gives as a
  hypothesis: the encoder and the iterator of \<open>utf8proc\<close> (\<open>utf8_encoder\<close>, \<open>utf8_iterator\<close>), the base64
  and SHA-1 libraries, \<open>uv_random\<close>. The concrete functions \<open>utf8_bytes\<close>, \<open>iterate_utf8\<close> and
  \<open>base64_rfc\<close> satisfy the hypotheses. The callback of the event parser is an arbitrary predicate.

  \<^bold>\<open>Not modelled.\<close> The compiler, the interpreter and the JIT: they are one system over tagged values,
  objects and frames, and a faithful model of any operation needs the object model and the bytecode
  as a whole. The collector, apart from its effect on strings. Modules that are system calls or
  bindings of libraries outside the sources: files, processes, sockets, TLS, HTTP parsing (llhttp),
  regular expressions (PCRE2), compression, cryptography, Temporal, WebAssembly, FFI, N-API. Dates,
  which are arithmetic on doubles over the time zones of the C library. Host objects over the interpreter's values: streams, buffers, collections, \<open>fetch\<close>, the
  WebSocket and EventSource objects. The package manager, the inspector, the REPL, the command line.
\<close>

section \<open>BigInt\<close>

text \<open>One-limb and two-limb payloads, for the concrete instances below.\<close>

definition single :: "bool \<Rightarrow> u32 \<Rightarrow> bigint_payload" where
  "single neg x = \<lparr>p_sign = (if neg then 1 else 0), p_limb_count = 1, p_limbs = [x]\<rparr>"

lemma single_simps [simp]:
  "bigint_wf (single neg x) \<longleftrightarrow> (neg \<longrightarrow> x \<noteq> 0)" "bigint_limbs (single neg x) = [x]"
  "ival (single neg x) = (if neg then - int (unat x) else int (unat x))"
  by (auto simp: single_def bigint_wf_def bigint_limbs_def normalized_def ival_def bigint_is_negative_def unat_eq_0)

definition double_limb :: "bool \<Rightarrow> u32 \<Rightarrow> u32 \<Rightarrow> bigint_payload" where
  "double_limb neg x y = \<lparr>p_sign = (if neg then 1 else 0), p_limb_count = 2, p_limbs = [x, y]\<rparr>"

lemma double_limb_simps [simp]:
  "y \<noteq> 0 \<Longrightarrow> bigint_wf (double_limb neg x y)" "bigint_limbs (double_limb neg x y) = [x, y]"
  "ival (double_limb neg x y) = (if neg then - int (unat x + 2 ^ 32 * unat y) else int (unat x + 2 ^ 32 * unat y))"
  by (auto simp: double_limb_def bigint_wf_def bigint_limbs_def normalized_def ival_def bigint_is_negative_def unat_eq_0)

text \<open>C1. Addition of BigInts is integer addition: \<open>bigint_add\<close> on well-formed operands returns a
  well-formed BigInt of the value of the sum; the only error is \<open>oom\<close>, and it needs a refused
  allocation or a result of more limbs than a payload can count.\<close>

theorem bigint_add_correct:
  assumes "bigint_wf a" "bigint_wf b"
  shows "yields m (max (length (bigint_limbs a)) (length (bigint_limbs b)) + 1)
    (bigint_add m a b) (ival a + ival b)"
  using assms by (rule add_value)

theorem bigint_add_correct_witness:
  "yields mem_granted 2 (bigint_add mem_granted (single False 5) (single True 7)) (-2)"
  using bigint_add_correct [of "single False 5" "single True 7" mem_granted] by (simp flip: numeral_2_eq_2)

text \<open>C2. Schoolbook multiplication on limbs (\<open>bigint_mul\<close>) is integer multiplication, signs
  and zero included.\<close>

theorem bigint_mul_correct:
  assumes "bigint_wf a" "bigint_wf b"
  shows "yields m (length (bigint_limbs a) + length (bigint_limbs b) + 1) (bigint_mul m a b) (ival a * ival b)"
  using assms by (rule mul_value)

theorem bigint_mul_correct_witness:
  "yields mem_granted 3 (bigint_mul mem_granted (single True 0xFFFFFFFF) (single False 0xFFFFFFFF)) (- 0xFFFFFFFE00000001)"
  using bigint_mul_correct [of "single True 0xFFFFFFFF" "single False 0xFFFFFFFF" mem_granted] by (simp add: numeral_3_eq_3)

text \<open>C3. Division truncates toward zero and the remainder has the sign of the dividend, as the
  language asks, for every divisor that is not zero and on which no step of the quotient correction
  loop runs past its range (\<open>divmod_safe\<close>, which the next property shows to be needed).\<close>

theorem bigint_div_mod_correct:
  assumes "bigint_wf a" "bigint_wf b" "ival b \<noteq> 0" "divmod_safe (bigint_limbs a) (bigint_limbs b)"
  shows "yields m (length (bigint_limbs a)) (bigint_div m a b) (ival a sdiv ival b)
    \<and> yields m (length (bigint_limbs a)) (bigint_mod m a b) (ival a smod ival b)"
  using div_value [OF assms] mod_value [OF assms] by blast

theorem bigint_div_mod_correct_witness:
  "yields mem_granted 2 (bigint_div mem_granted (double_limb True 7 9) (double_limb False 5 2)) (-4)
   \<and> yields mem_granted 2 (bigint_mod mem_granted (double_limb True 7 9) (double_limb False 5 2)) (-4294967283)"
proof -
  have "divmod_safe [7, 9] [5, 2]" by code_simp
  with bigint_div_mod_correct [of "double_limb True 7 9" "double_limb False 5 2" mem_granted] show ?thesis
    by (simp add: signed_divide_int_def signed_modulo_int_def flip: numeral_2_eq_2)
qed

text \<open>C4. The correction loop of Knuth's algorithm D in \<open>bigint_divmod_abs_limbs\<close> has no
  test that the partial remainder is still below the base, so it corrects once too often on this
  pair: the quotient \<open>bigint_div\<close> returns is one less than the integer quotient.\<close>

theorem bigint_div_wrong_quotient:
  defines "a \<equiv> \<lparr>p_sign = 0, p_limb_count = 3, p_limbs = [0, 0xFFFFFFFE, 0x80000000]\<rparr>"
    and "b \<equiv> \<lparr>p_sign = 0, p_limb_count = 2, p_limbs = [0xFFFFFFFF, 0x80000000]\<rparr>"
  shows "\<exists>q. bigint_div mem_granted a b = Inr q \<and> ival q = 0xFFFFFFFE \<and> ival a sdiv ival b = 0xFFFFFFFF"
proof -
  have l: "bigint_limbs a = [0, 0xFFFFFFFE, 0x80000000]" "bigint_limbs b = [0xFFFFFFFF, 0x80000000]"
    "\<not> bigint_is_negative a" "\<not> bigint_is_negative b"
    by (simp_all add: a_def b_def bigint_limbs_def bigint_is_negative_def)
  have "bigint_divmod_abs_limbs mem_granted [0, 0xFFFFFFFE, 0x80000000] [0xFFFFFFFF, 0x80000000] True False = Some (Some [0xFFFFFFFE], None)"
    by code_simp
  then have "bigint_div mem_granted a b = js_mkbigint_limbs mem_granted [0xFFFFFFFE] False" by (simp add: bigint_div_def l)
  moreover have "yields mem_granted 1 (js_mkbigint_limbs mem_granted [0xFFFFFFFE] False) 0xFFFFFFFE"
    using mkbigint_limbs_yields [of "[0xFFFFFFFE]" 1 mem_granted False] by (simp add: sm_int_def)
  moreover have "ival a sdiv ival b = 0xFFFFFFFF" by (simp add: ival_def l signed_divide_int_def)
  ultimately show ?thesis by (auto simp: yields_def UINT32_MAX_def split: sum.splits)
qed

text \<open>C5. The bitwise operators read negative operands as infinite two's complement:
  \<open>bigint_bitwise_binary\<close> yields the integer AND, OR or XOR.\<close>

theorem bigint_bitwise_correct:
  assumes "bigint_wf a" "bigint_wf b"
  shows "yields m (max (length (bigint_limbs a)) (length (bigint_limbs b)) + 1)
    (bigint_bitwise_binary m a b op) (case op of BIGINT_BAND \<Rightarrow> ival a AND ival b | BIGINT_BOR \<Rightarrow> ival a OR ival b | BIGINT_BXOR \<Rightarrow> ival a XOR ival b)"
  using bitwise_value [OF assms, of m op] by (cases op) (simp_all add: bitop_int.simps)

theorem bigint_bitwise_correct_witness:
  "yields mem_granted 2 (bigint_bitwise_binary mem_granted (single True 6) (single False 5) BIGINT_BAND) 0
   \<and> yields mem_granted 2 (bigint_bitwise_binary mem_granted (single True 6) (single False 5) BIGINT_BXOR) (-1)"
  using bigint_bitwise_correct [of "single True 6" "single False 5" mem_granted BIGINT_BAND]
    bigint_bitwise_correct [of "single True 6" "single False 5" mem_granted BIGINT_BXOR]
  by (simp flip: numeral_2_eq_2)

text \<open>C6. Shifts: \<open>bigint_shift_left\<close> multiplies by a power of two and \<open>bigint_shift_right\<close>
  divides by it rounding toward minus infinity, also for negative values, whatever the shift count.\<close>

theorem bigint_shift_correct:
  assumes "bigint_wf v"
  shows "yields m (length (bigint_limbs v) + unat shift div 32 + 1) (bigint_shift_left m v shift) (ival v * 2 ^ unat shift)
    \<and> yields m (length (bigint_limbs v) + 1) (bigint_shift_right m v shift) (ival v div 2 ^ unat shift)"
  using shift_left_value [OF assms] shift_right_value [OF assms] by blast

theorem bigint_shift_correct_witness:
  "yields mem_granted 3 (bigint_shift_left mem_granted (single True 5) 33) (- 42949672960)
   \<and> yields mem_granted 2 (bigint_shift_right mem_granted (single True 5) 1) (-3)"
proof
  show "yields mem_granted 3 (bigint_shift_left mem_granted (single True 5) 33) (- 42949672960)"
    using bigint_shift_correct [of "single True 5" mem_granted 33] by (simp add: numeral_3_eq_3)
  show "yields mem_granted 2 (bigint_shift_right mem_granted (single True 5) 1) (-3)"
    using bigint_shift_correct [of "single True 5" mem_granted 1] by (simp flip: numeral_2_eq_2)
qed

text \<open>C7. Exponentiation by squaring stops and is right: for every non-negative exponent the loop of
  \<open>bigint_exp\<close> ends within its rounds and yields the power. With a refused allocation of the initial
  \<open>1n\<close>, which the code does not check, the run may instead be undefined.\<close>

theorem bigint_exp_terminates:
  assumes "bigint_wf base" "bigint_wf exp" "0 \<le> ival exp"
  shows "\<exists>out. bigint_exp m base exp = Some out \<and>
    (yields m (2 * (1 + length (bigint_limbs base) * nat (ival exp)) + 1) out (ival base ^ nat (ival exp))
      \<or> out = Inl undefined_behaviour \<and> \<not> mem_ok m)"
  using exp_value [OF assms refl] .

theorem bigint_exp_terminates_witness:
  "\<exists>out. bigint_exp mem_granted (single True 3) (single False 5) = Some out \<and> yields mem_granted 13 out (- 243)"
  using bigint_exp_terminates [of "single True 3" "single False 5" mem_granted] by simp

text \<open>C8. \<open>BigInt.prototype.toString\<close> and \<open>BigInt\<close> are inverse: the decimal text of a value, given
  back to \<open>bigint_from_value\<close>, yields the same value; and with memory granted the text exists.\<close>

theorem bigint_string_roundtrip:
  assumes "bigint_wf v" "mem_ok m"
  shows "\<exists>s. builtin_bigint_toString m unwrap (JsBigInt v) [] = Inr s
    \<and> yields m (digits_capacity s) (bigint_from_value m (JsString s)) (ival v)"
  using toString_total [OF assms] toString_roundtrip [OF assms(1)] by blast

theorem bigint_string_roundtrip_witness:
  "\<exists>s. builtin_bigint_toString mem_granted (\<lambda>v. v) (JsBigInt (single True 42)) [] = Inr s
    \<and> yields mem_granted (digits_capacity s) (bigint_from_value mem_granted (JsString s)) (- 42)"
  using bigint_string_roundtrip [of "single True 42" mem_granted "\<lambda>v. v"] by simp

text \<open>Text in any radix from 2 to 36 reads back: the digits \<open>bigint_abs_to_radix_string\<close> prints
  have the value of the limbs, each below the radix, with no leading zero.\<close>

theorem bigint_radix_digits:
  assumes "normalized limbs" "1 < unat radix" "unat radix \<le> 36" "bigint_abs_to_radix_string m limbs radix = Some s"
  shows "radix_value (unat radix) s = lval limbs \<and> (\<forall>c \<in> set s. digit_val c < unat radix)
    \<and> s \<noteq> [] \<and> (length s = 1 \<or> digit_val (s ! 0) \<noteq> 0)"
  using to_radix_value [OF assms] by blast

theorem bigint_radix_digits_witness:
  "bigint_abs_to_radix_string mem_granted [255] 16 = Some [0x66, 0x66] \<and> radix_value 16 [0x66, 0x66] = 255"
proof -
  have "bigint_abs_to_radix_string mem_granted [255] 16 = Some [0x66, 0x66]" by code_simp
  with bigint_radix_digits [of "[255]" 16 mem_granted "[0x66, 0x66]"] show ?thesis by simp
qed

text \<open>C9. Conversion to a double rounds to nearest, ties to even: \<open>bigint_to_double\<close> is within half a
  unit in the last place of the value, with an even significand on a tie, and is infinite only from the
  midpoint above the largest double on.\<close>

theorem bigint_to_double_nearest:
  assumes "bigint_wf v"
  shows "nearest_double (ival v) (bigint_abs_bitlen_limbs (bigint_limbs v) - 53) (bigint_to_double v)"
  using assms by (rule to_double_value)

theorem bigint_to_double_nearest_witness: "nearest_double (-5) 0 (bigint_to_double (single True 5))"
proof -
  have "bigint_abs_bitlen_limbs [5] = 3" by code_simp
  with bigint_to_double_nearest [of "single True 5"] show ?thesis by simp
qed

text \<open>C10. \<open>BigInt.asIntN\<close> and \<open>BigInt.asUintN\<close> wrap: for a width the argument check accepts they yield
  the residue modulo the power of two, signed and unsigned, so that the result fits the width; at
  width zero both yield zero.\<close>

theorem bigint_as_n_wraps:
  assumes "bigint_asint_bits to_number a = Inr bits" "bigint_wf v"
  shows "yields m (as_n_capacity v bits) (builtin_BigInt_asUintN m to_number [a, JsBigInt v]) (ival v mod 2 ^ unat bits)
    \<and> (\<exists>w. yields m (as_n_capacity v bits) (builtin_BigInt_asIntN m to_number [a, JsBigInt v]) w
          \<and> w mod 2 ^ unat bits = ival v mod 2 ^ unat bits
          \<and> (if unat bits = 0 then w = 0 else - (2 ^ (unat bits - 1)) \<le> w \<and> w < 2 ^ (unat bits - 1)))"
proof (intro conjI exI)
  show "yields m (as_n_capacity v bits) (builtin_BigInt_asUintN m to_number [a, JsBigInt v]) (ival v mod 2 ^ unat bits)"
    using asUintN_value [OF assms(1,2)] .
  show "yields m (as_n_capacity v bits) (builtin_BigInt_asIntN m to_number [a, JsBigInt v]) (as_int_n (unat bits) (ival v))"
    using asIntN_value [OF assms(1,2)] .
  show "as_int_n (unat bits) (ival v) mod 2 ^ unat bits = ival v mod 2 ^ unat bits"
    by (cases "unat bits") (simp_all add: as_int_n_def mod_diff_left_eq)
  show "if unat bits = 0 then as_int_n (unat bits) (ival v) = 0
      else - (2 ^ (unat bits - 1)) \<le> as_int_n (unat bits) (ival v) \<and> as_int_n (unat bits) (ival v) < 2 ^ (unat bits - 1)"
  proof (cases "unat bits")
    case (Suc k)
    have "(ival v + 2 ^ k) mod 2 ^ Suc k < 2 ^ Suc k" "0 \<le> (ival v + 2 ^ k) mod 2 ^ Suc k" by simp_all
    then show ?thesis by (simp add: as_int_n_def Suc)
  qed (simp add: as_int_n_def)
qed

theorem bigint_as_n_wraps_witness:
  "yields mem_granted (as_n_capacity (single True 1) 8)
     (builtin_BigInt_asUintN mem_granted (\<lambda>_. 0) [JsBigInt (single False 8), JsBigInt (single True 1)]) 255"
proof -
  have "bigint_asint_bits (\<lambda>_. 0) (JsBigInt (single False 8)) = Inr 8" by code_simp
  from bigint_as_n_wraps [OF this, of "single True 1" mem_granted] show ?thesis by simp
qed

text \<open>C11. The conversions to machine integers: the checked ones answer exactly for values in range and
  refuse the others, and the wrapping one is the residue modulo \<open>2 ^ 64\<close>.\<close>

theorem bigint_to_machine_integers:
  assumes "bigint_wf v"
  shows "bigint_to_uint64_checked (JsBigInt v) = (if 0 \<le> ival v \<and> ival v < 2 ^ 64 then Some (word_of_int (ival v)) else None)
    \<and> bigint_to_int64_checked (JsBigInt v) = (if - (2 ^ 63) \<le> ival v \<and> ival v < 2 ^ 63 then Some (word_of_int (ival v)) else None)
    \<and> bigint_to_uint64_wrapping (JsBigInt v) = Some (word_of_int (ival v))"
proof (intro conjI)
  show "bigint_to_uint64_checked (JsBigInt v) = (if 0 \<le> ival v \<and> ival v < 2 ^ 64 then Some (word_of_int (ival v)) else None)"
  proof (cases "0 \<le> ival v \<and> ival v < 2 ^ 64")
    case True
    with to_uint64_checked_value [OF assms] obtain w where "bigint_to_uint64_checked (JsBigInt v) = Some w" "uint w = ival v"
      by (simp only: if_True simp_thms) blast
    then show ?thesis using True by (simp flip: \<open>uint w = ival v\<close>)
  next
    case False
    with to_uint64_checked_value [OF assms] show ?thesis by (simp only: if_False)
  qed
  show "bigint_to_int64_checked (JsBigInt v) = (if - (2 ^ 63) \<le> ival v \<and> ival v < 2 ^ 63 then Some (word_of_int (ival v)) else None)"
  proof (cases "- (2 ^ 63) \<le> ival v \<and> ival v < 2 ^ 63")
    case True
    with to_int64_checked_value [OF assms] obtain w where "bigint_to_int64_checked (JsBigInt v) = Some w" "sint w = ival v"
      by (simp only: if_True simp_thms) blast
    then show ?thesis using True by (simp flip: \<open>sint w = ival v\<close>)
  next
    case False
    with to_int64_checked_value [OF assms] show ?thesis by (simp only: if_False)
  qed
  obtain w where w: "bigint_to_uint64_wrapping (JsBigInt v) = Some w" "int (unat w) = ival v mod 2 ^ 64"
    using to_uint64_wrapping_value [OF assms] by blast
  have "w = word_of_int (int (unat w))" by simp
  also have "\<dots> = word_of_int (ival v)" unfolding w(2) by (simp add: word_of_int_eq_iff take_bit_eq_mod)
  finally show "bigint_to_uint64_wrapping (JsBigInt v) = Some (word_of_int (ival v))" using w(1) by simp
qed

theorem bigint_to_machine_integers_witness:
  "bigint_to_uint64_checked (JsBigInt (single True 1)) = None \<and> bigint_to_int64_checked (JsBigInt (single True 1)) = Some (- 1)
   \<and> bigint_to_uint64_wrapping (JsBigInt (single True 1)) = Some 0xFFFFFFFFFFFFFFFF"
  using bigint_to_machine_integers [of "single True 1"] by simp

text \<open>C12. One value has one representation, and comparison is comparison of values: well-formed
  payloads of equal value have the same sign and limbs, and \<open>bigint_compare\<close> is the sign of the
  difference.\<close>

theorem bigint_canonical_compare:
  assumes "bigint_wf a" "bigint_wf b"
  shows "bigint_compare a b = sgn (ival a - ival b)
    \<and> (bigint_compare a b = 0 \<longleftrightarrow> p_sign a = p_sign b \<and> bigint_limbs a = bigint_limbs b)"
proof -
  have "ival a = ival b \<longleftrightarrow> p_sign a = p_sign b \<and> bigint_limbs a = bigint_limbs b"
    using canonical [OF assms] by (auto simp: ival_def bigint_is_negative_def)
  then show ?thesis by (simp add: compare_value [OF assms] sgn_0_0)
qed

theorem bigint_canonical_compare_witness: "bigint_compare (single True 3) (single False 3) = -1"
  using bigint_canonical_compare [of "single True 3" "single False 3"] by simp

text \<open>A divisor of zero is an error of both operators, before any allocation.\<close>

theorem bigint_division_by_zero:
  assumes "bigint_wf b" "ival b = 0"
  shows "bigint_div m a b = Inl (js_mkerr ''Division by zero'') \<and> bigint_mod m a b = Inl (js_mkerr ''Division by zero'')"
  using div_mod_by_zero [OF assms] by blast

theorem bigint_division_by_zero_witness:
  "bigint_div mem_granted (single False 1) (single False 0) = Inl (js_mkerr ''Division by zero'')"
  using bigint_division_by_zero [of "single False 0" mem_granted "single False 1"] by simp

lemma dbl_negative_nonzero:
  assumes "dbl_sign d" "d \<noteq> 0x8000000000000000"
  shows "dbl_scaled d \<noteq> 0"
proof
  assume "dbl_scaled d = 0"
  then have z: "drop_bit 52 d AND 0x7ff = 0" "d AND 0xfffffffffffff = 0"
    by (auto simp: dbl_scaled_def dbl_exp_bits_def dbl_frac_def unat_eq_0 split: if_splits)
  have m: "(0x7ff :: u64) = mask 11" "(0xfffffffffffff :: u64) = mask 52"
    by (simp_all add: mask_eq_exp_minus_1)
  have lo: "\<not> bit d n" if "n < 52" for n
    using arg_cong [OF z(2), of "\<lambda>w. bit w n"] that by (simp add: m bit_simps)
  have hi: "\<not> bit d n" if "52 \<le> n" "n < 63" for n
  proof -
    have "n - 52 < 11" using that by simp
    then show ?thesis using arg_cong [OF z(1), of "\<lambda>w. bit w (n - 52)"] that by (simp add: m bit_simps)
  qed
  have one: "bit (2 ^ 63 :: u64) n \<longleftrightarrow> n = 63" for n by (subst bit_exp_iff) auto
  have "d = 2 ^ 63"
  proof (rule bit_word_eqI)
    fix n assume "n < LENGTH(64)"
    then consider "n < 52" | "52 \<le> n" "n < 63" | "n = 63" by fastforce
    then show "bit d n = bit (2 ^ 63 :: u64) n"
      unfolding one using lo [of n] hi [of n] assms(1) by cases (simp_all add: dbl_sign_def)
  qed
  with assms(2) show False by simp
qed

text \<open>C13. \<open>BigInt(-0)\<close> fails: the number is printed with a sign and the sign is handed to the digit
  parser, which rejects it; every other finite integral double converts to its value.\<close>

theorem bigint_from_number:
  assumes "dbl_isfinite d" "dbl_is_integral d" "mem_ok m"
  shows "if d = 0x8000000000000000 then bigint_from_value m (JsNumber d) = Inl bad_digits
    else \<exists>x. bigint_from_value m (JsNumber d) = Inr x \<and> bigint_wf x \<and> ival x = dbl_int d"
proof (cases "d = 0x8000000000000000")
  case False
  have "dbl_scaled d \<noteq> 0" if "dbl_sign d" using that False by (rule dbl_negative_nonzero)
  from from_number_value [OF assms(1,2) this, of m] have "yields m 40 (bigint_from_value m (JsNumber d)) (dbl_int d)" .
  with False assms(3) show ?thesis
    by (cases "bigint_from_value m (JsNumber d)") (simp_all add: yields_def UINT32_MAX_def del: bigint_from_value.simps)
qed (use from_negative_zero [OF assms(3)] in simp)

theorem bigint_from_number_witness: "bigint_from_value mem_granted (JsNumber 0x8000000000000000) = Inl bad_digits"
proof -
  have "dbl_exp_bits 0x8000000000000000 = 0" "dbl_frac 0x8000000000000000 = 0" by code_simp+
  then have "dbl_isfinite 0x8000000000000000" "dbl_is_integral 0x8000000000000000"
    by (simp_all add: dbl_isfinite_def dbl_is_integral_def dbl_scaled_def)
  from bigint_from_number [OF this mem_ok_granted] show ?thesis by simp
qed

section \<open>Text encodings\<close>

definition utf16le_fatal :: td_state where
  "utf16le_fatal = \<lparr>td_enc = TD_ENC_UTF16LE, td_pending = [], td_fatal = True, td_ignore_bom = False, td_bom_seen = False\<rparr>"

text \<open>C14. \<open>utf8_validate_bytes\<close> accepts exactly the UTF-8 encodings of sequences of Unicode scalar
  values: no overlong form, no surrogate, nothing above U+10FFFF, nothing cut short.\<close>

theorem validate_bytes_utf8:
  "utf8_validate_bytes s \<longleftrightarrow> (\<exists>cps. list_all scalar cps \<and> s = concat (map utf8_bytes cps))"
  by (simp add: validate_iff list_all_iff)

text \<open>C15. The decoder writes only valid UTF-8 and stays inside its buffer: on any input, in any mode
  and from any state, what \<open>td_decode\<close> returns is valid UTF-8 of at most three bytes per input byte,
  the size the code allocates, whichever of the five encodings is decoded.\<close>

theorem decode_output_safe:
  assumes "utf8_encoder enc" "td_decode m enc st input stream = (st', Inr out)"
  shows "utf8_validate_bytes out \<and> length out \<le> 3 * (length (td_pending st) + length input)"
  using assms by (rule td_decode_output)

theorem decode_output_safe_witness:
  "utf8_validate_bytes [0xEF, 0xBF, 0xBD, 0x41] \<and> length [0xEF, 0xBF, 0xBD, 0x41 :: byte] \<le> 3 * (0 + length [0x80, 0x41 :: byte])"
proof -
  have "td_decode mem_granted utf8_bytes \<lparr>td_enc = TD_ENC_UTF8, td_pending = [], td_fatal = False, td_ignore_bom = False, td_bom_seen = False\<rparr>
      [0x80, 0x41] False = (\<lparr>td_enc = TD_ENC_UTF8, td_pending = [], td_fatal = False, td_ignore_bom = False, td_bom_seen = False\<rparr>,
        Inr [0xEF, 0xBF, 0xBD, 0x41])"
    by code_simp
  from decode_output_safe [OF utf8_bytes_encoder this] show ?thesis by simp
qed

text \<open>C16. Streaming is transparent: however the input is cut into chunks, feeding them one by one to
  \<open>td_decode\<close> with \<open>stream\<close> set and closing with an empty call gives the text, or the error, of one
  call on the whole input. This holds for every encoding, fatal or not, with or without a byte order
  mark, also where a chunk ends inside a sequence or a surrogate pair.\<close>

theorem decode_chunks:
  assumes "td_inv st"
  shows "snd (feed (td_decode mem_granted enc) st chunks) = snd (td_decode mem_granted enc st (concat chunks) False)"
  using assms by (rule td.feed_result)

theorem decode_chunks_witness:
  "snd (feed (td_decode mem_granted utf8_bytes) utf16le_fatal [[0x3D], [0xD8, 0x00], [0xDE]])
   = snd (td_decode mem_granted utf8_bytes utf16le_fatal [0x3D, 0xD8, 0x00, 0xDE] False)"
proof -
  have "td_inv utf16le_fatal" by (simp add: td_inv_def utf16le_fatal_def td_single_def)
  from decode_chunks [OF this, of utf8_bytes "[[0x3D], [0xD8, 0x00], [0xDE]]"] show ?thesis by simp
qed

text \<open>C17. The invariant of a decoder survives every call: at most three bytes are held back, and the
  single-byte encodings hold back nothing.\<close>

theorem decode_keeps_invariant:
  assumes "td_inv st"
  shows "td_inv (fst (td_decode mem_granted enc st input stream))"
  using assms by (rule td.step_inv)

theorem decode_keeps_invariant_witness: "td_inv (fst (td_decode mem_granted utf8_bytes utf16le_fatal [0x00, 0xDC] True))"
proof -
  have "td_inv utf16le_fatal" by (simp add: td_inv_def utf16le_fatal_def td_single_def)
  then show ?thesis by (rule decode_keeps_invariant)
qed

text \<open>C18. A fatal UTF-8 decoder accepts exactly the valid inputs and is the identity on them, when
  the byte order mark is kept.\<close>

theorem fatal_decode_exact:
  assumes "utf8_encoder enc" "ignore_bom dec"
  shows "snd (utf8_whatwg_decode enc dec src True False) = (if utf8_validate_bytes src then Some src else None)"
proof (cases "utf8_validate_bytes src")
  case True
  then show ?thesis using whatwg_valid_id [of enc dec src True False "[]"] assms by (simp add: utf8_whatwg_decode_def)
next
  case False
  then show ?thesis using whatwg_fatal_valid(1) [of enc True False dec "[]" src] assms
    by (cases "whatwg_dispatch enc True False dec [] src"; cases "snd (whatwg_dispatch enc True False dec [] src)")
      (auto simp: utf8_whatwg_decode_def)
qed

theorem fatal_decode_exact_witness:
  "snd (utf8_whatwg_decode utf8_bytes \<lparr>ignore_bom = True, bom_seen = False, pend_buf = [], pend_pos = 0\<rparr> [0xED, 0xA0, 0x80] True False) = None"
proof -
  have "\<not> utf8_validate_bytes [0xED, 0xA0, 0x80]" by code_simp
  with fatal_decode_exact [OF utf8_bytes_encoder, of "\<lparr>ignore_bom = True, bom_seen = False, pend_buf = [], pend_pos = 0\<rparr>" "[0xED, 0xA0, 0x80]"]
  show ?thesis by simp
qed

text \<open>C19. UTF-16 decodes to the text it encodes: on the code units of any sequence of scalar values, in
  either byte order, \<open>utf16_loop\<close> returns their UTF-8 encoding and holds nothing back.\<close>

theorem utf16_decodes_text:
  assumes "utf8_encoder enc" "list_all scalar cps"
  shows "utf16_loop enc fatal be stream (concat (map (utf16_bytes be) cps)) [] = ([], Some (concat (map utf8_bytes cps)))"
  using utf16_text [OF assms(1), of cps fatal be stream "[]"] assms(2) by (simp add: list_all_iff)

theorem utf16_decodes_text_witness:
  "utf16_loop utf8_bytes True False False [0x3D, 0xD8, 0x00, 0xDE] [] = ([], Some [0xF0, 0x9F, 0x98, 0x80])"
proof -
  have "concat (map (utf16_bytes False) [0x1F600]) = [0x3D, 0xD8, 0x00, 0xDE]" "concat (map utf8_bytes [0x1F600]) = [0xF0, 0x9F, 0x98, 0x80]"
    by (simp_all add: utf16_bytes_def utf16_units_def u16_bytes_def utf8_bytes_def byte_of_def)
  with utf16_decodes_text [OF utf8_bytes_encoder, of "[0x1F600]" True False False] show ?thesis by (simp add: scalar_def)
qed

text \<open>C20. After a fatal failure a UTF-16 decoder, of either byte order, does not start afresh. Let a call
  fail on an input of two bytes or more (or on any input, if the decoder was already past the place
  of the byte order mark). The flag that the mark was seen is then set, so that the next call on the
  same decoder returns a leading mark as text, for any text after it, although the decoder in its
  first state strips the mark from the same input.\<close>

theorem fatal_failure_keeps_bom:
  assumes "utf8_encoder enc" "td_utf16 st" "\<not> td_ignore_bom st" "\<And>n. heap_ok m n"
    and "td_decode m enc st input stream = (st1, Inl (js_mkerr_type ''The encoded data was not valid.''))"
    and "td_bom_seen st \<or> 2 \<le> length (td_pending st @ input)" "list_all scalar cps"
  defines "marked \<equiv> concat (map (utf16_bytes (td_enc st = TD_ENC_UTF16BE)) (0xFEFF # cps))"
  shows "td_bom_seen st1 \<and> td_pending st1 = []
    \<and> snd (td_decode m enc st1 marked False) = Inr (concat (map utf8_bytes (0xFEFF # cps)))
    \<and> snd (td_decode m enc (st\<lparr>td_pending := [], td_bom_seen := False\<rparr>) marked False) = Inr (concat (map utf8_bytes cps))"
proof -
  have st1: "st1 = st\<lparr>td_pending := [], td_bom_seen := True\<rparr>" using utf16_failure_state [OF assms(2,5,6)] .
  have c: "scalar cp" if "cp \<in> set cps" for cp using assms(7) that by (simp add: list_all_iff)
  show ?thesis
    using utf16_marked_text [OF assms(1), of st1 m cps] utf16_marked_text [OF assms(1), of "st\<lparr>td_pending := [], td_bom_seen := False\<rparr>" m cps]
      assms(2-4) c unfolding marked_def by (simp add: st1)
qed

theorem fatal_failure_keeps_bom_witness:
  "\<exists>st1. td_decode mem_granted utf8_bytes utf16le_fatal [0x00, 0xDC] False = (st1, Inl (js_mkerr_type ''The encoded data was not valid.''))
    \<and> snd (td_decode mem_granted utf8_bytes st1 [0xFF, 0xFE, 0x41, 0x00] False) = Inr [0xEF, 0xBB, 0xBF, 0x41]
    \<and> snd (td_decode mem_granted utf8_bytes utf16le_fatal [0xFF, 0xFE, 0x41, 0x00] False) = Inr [0x41]"
proof -
  define st1 where "st1 = utf16le_fatal\<lparr>td_bom_seen := True\<rparr>"
  have e: "td_decode mem_granted utf8_bytes utf16le_fatal [0x00, 0xDC] False = (st1, Inl (js_mkerr_type ''The encoded data was not valid.''))"
    unfolding st1_def by code_simp
  have b: "concat (map (utf16_bytes False) [0xFEFF, 0x41]) = [0xFF, 0xFE, 0x41, 0x00]"
    "concat (map utf8_bytes [0xFEFF, 0x41]) = [0xEF, 0xBB, 0xBF, 0x41]" "concat (map utf8_bytes [0x41]) = [0x41]"
    by (simp_all add: utf16_bytes_def utf16_units_def u16_bytes_def utf8_bytes_def byte_of_def)
  have f: "td_enc utf16le_fatal = TD_ENC_UTF16LE" "\<not> td_ignore_bom utf16le_fatal" "utf16le_fatal\<lparr>td_pending := [], td_bom_seen := False\<rparr> = utf16le_fatal"
    by (simp_all add: utf16le_fatal_def)
  have "snd (td_decode mem_granted utf8_bytes st1 (concat (map (utf16_bytes False) [0xFEFF, 0x41])) False) = Inr (concat (map utf8_bytes [0xFEFF, 0x41]))
    \<and> snd (td_decode mem_granted utf8_bytes utf16le_fatal (concat (map (utf16_bytes False) [0xFEFF, 0x41])) False) = Inr (concat (map utf8_bytes [0x41]))"
    using fatal_failure_keeps_bom [OF utf8_bytes_encoder _ _ _ e, of "[0x41]"] by (simp only: f) (simp add: scalar_def)
  then show ?thesis using e unfolding b by blast
qed

text \<open>C21. Two labels of the encoding table have a wrong length beside them and never resolve, and every
  other label resolves to its encoding.\<close>

theorem encoding_labels:
  "list_all (\<lambda>(label, len, e). resolve_encoding (ascii label) =
     (if label = ''x-unicode20utf8'' \<or> label = ''iso-10646-ucs-2'' then None else Some e)) encoding_map"
proof -
  have "resolve_encoding (ascii l) = (if l = ''x-unicode20utf8'' \<or> l = ''iso-10646-ucs-2'' then None else Some e)"
    if "(l, n, e) \<in> set encoding_map" for l n e
    using labels_resolve [unfolded list_all_iff, THEN bspec, OF that] labels_missed by (simp only: prod.case insert_iff empty_iff simp_thms) metis
  then show ?thesis unfolding list_all_iff by fast
qed

text \<open>Latin-1 and UTF-8: \<open>utf8_to_latin1\<close> recovers exactly the byte strings \<open>latin1_to_utf8\<close> encodes.\<close>

theorem latin1_roundtrip:
  "utf8_to_latin1_loop src [] = Some r \<longleftrightarrow> src = latin1_loop r"
  by (simp add: utf8_to_latin1_loop_iff)

text \<open>C22. A \<open>StringDecoder\<close> is insensitive to chunk boundaries too: for a decoder that
  \<open>string_decoder_create\<close> made (Latin-1, which converts each chunk by itself, apart), writing chunks
  and ending gives the text of one \<open>sd_do_write\<close> on the whole input, base64 grouping and hex included.\<close>

theorem string_decoder_chunks:
  assumes "\<And>n. heap_ok m n" "base64_encoder b64" "string_decoder_create m label = Inr st" "sd_enc st \<noteq> SD_ENC_LATIN1"
  shows "snd (feed (\<lambda>st src more_follows. sd_do_write m enc b64 st src (\<not> more_follows)) st chunks) = snd (sd_do_write m enc b64 st (concat chunks) True)"
  using sd_feed [OF assms, of enc chunks] by (simp add: sd_step_def [abs_def])

theorem string_decoder_chunks_witness:
  "\<exists>st. string_decoder_create mem_granted (Some (ascii ''base64'')) = Inr st
    \<and> snd (feed (\<lambda>st src more_follows. sd_do_write mem_granted utf8_bytes base64_rfc st src (\<not> more_follows)) st [[0x66], [0x6F, 0x6F]])
      = snd (sd_do_write mem_granted utf8_bytes base64_rfc st [0x66, 0x6F, 0x6F] True)"
proof -
  define st where "st = \<lparr>sd_enc = SD_ENC_BASE64, sd_td = None, sd_pending = []\<rparr>"
  have st: "string_decoder_create mem_granted (Some (ascii ''base64'')) = Inr st" "sd_enc st = SD_ENC_BASE64"
    unfolding st_def by code_simp+
  have "heap_ok mem_granted n" for n by (simp add: mem_granted_def)
  from string_decoder_chunks [OF this base64_rfc_encoder st(1), of utf8_bytes "[[0x66], [0x6F, 0x6F]]"] st show ?thesis by simp
qed

text \<open>Hex output reads back to the input, two digits for each byte.\<close>

theorem hex_decode_roundtrip: "hex_read (hex_loop src) = src \<and> length (hex_loop src) = 2 * length src"
  by (simp add: hex_roundtrip hex_length)

section \<open>Strings\<close>

lemma heap_of_live: "sh_live (heap_of cps) 1 = Some (str_flat_init_meta \<lparr>flat_len = word_of_nat (length (wtf8 cps)), flat_meta = 0, flat_bytes = wtf8 cps\<rparr> STR_ASCII_UNKNOWN)"
  by (simp add: heap_of_def)

definition live_string :: "str_heap \<Rightarrow> nat \<Rightarrow> flat_string \<Rightarrow> nat list \<Rightarrow> bool" where
  "live_string h a f cps \<longleftrightarrow> str_step\<^sup>*\<^sup>* str_heap_init h \<and> sh_live h a = Some f \<and> flat_bytes f = wtf8 cps \<and> cps_ok cps"

lemma live_op_state:
  assumes "live_string h a f cps"
  shows "op_state (heap_strs h) (sh_epoch h) (sh_caches h) a f cps" "blen cps < 2 ^ 56 - 1"
  using assms reachable_op_state [of h a f cps] by (simp_all add: live_string_def)

definition sample_string :: "nat list" where "sample_string = [0x61, 0x1F600, 0x62]"

definition sample_flat :: flat_string where
  "sample_flat = str_flat_init_meta \<lparr>flat_len = word_of_nat (length (wtf8 sample_string)), flat_meta = 0, flat_bytes = wtf8 sample_string\<rparr> STR_ASCII_UNKNOWN"

lemma sample_live: "live_string (heap_of sample_string) 1 sample_flat sample_string"
proof -
  have "cps_ok sample_string" by (simp add: cps_ok_def sample_string_def)
  moreover have "blen sample_string < 2 ^ 56 - 1" by (simp add: sample_string_def wtf8_def utf8_bytes_def)
  ultimately show ?thesis using heap_of_reachable [of sample_string]
    by (simp add: live_string_def heap_of_live [simplified] sample_flat_def)
qed

lemma sample_units: "units sample_string = [0x61, 0xD83D, 0xDE00, 0x62]"
  by (simp add: units_def sample_string_def utf16_units_def)

text \<open>The cast of a size to \<open>int\<close>.\<close>

lemma c_int_wraps: "c_int n = (int n + 2 ^ 31) mod 2 ^ 32 - 2 ^ 31"
  by (simp add: c_int_def signed_of_nat signed_take_bit_eq_take_bit_shift take_bit_eq_mod)

lemma wrapped_small: "n < 2 ^ 31 \<Longrightarrow> (int n + 2 ^ 31) mod 2 ^ 32 - 2 ^ 31 = int n"
  by simp

lemma wrapped_large:
  assumes "n \<in> {2 ^ 31 ..< 2 ^ 32}"
  shows "(int n + 2 ^ 31) mod 2 ^ 32 - 2 ^ 31 < 0"
proof -
  have "(int n + 2 ^ 31) mod 2 ^ 32 = (int n - 2 ^ 31) mod 2 ^ 32"
    using mod_add_self2 [of "int n - 2 ^ 31" "2 ^ 32"] by (simp add: algebra_simps)
  also have "\<dots> = int n - 2 ^ 31" using assms by (intro mod_pos_pos_trivial) auto
  finally show ?thesis using assms by simp
qed

text \<open>C23. Indexing a string by UTF-16 code units is right in every reachable state: whatever strings
  were allocated, read and swept before, and whatever the scan cache and the index cache then hold,
  \<open>utf16_code_unit_at\<close> returns the unit of the string's UTF-16 form at the index, or
  \<open>0xFFFFFFFF\<close> past its end.\<close>

theorem code_unit_at_reachable:
  assumes "live_string h a f cps"
  shows "snd (snd (utf16_code_unit_at m (sh_epoch h) (sh_caches h) a f i)) =
    (if i < length (units cps) then word_of_nat (units cps ! i) else 0xFFFFFFFF)"
  using code_unit_at_correct [OF live_op_state(1) [OF assms], of m i] by (metis prod.collapse unit_at_def)

theorem code_unit_at_reachable_witness:
  "snd (snd (utf16_code_unit_at mem_granted (sh_epoch (heap_of sample_string)) (sh_caches (heap_of sample_string)) 1 sample_flat 2)) = 0xDE00"
  using code_unit_at_reachable [OF sample_live, of mem_granted 2] by (simp add: sample_units)

text \<open>C24. The caches and the string headers stay consistent: every state reachable by reads, allocations
  and sweeps satisfies the heap invariant, so a cached position or index point of the current epoch
  always belongs to the live string at its address.\<close>

theorem caches_consistent: "str_step\<^sup>*\<^sup>* str_heap_init h \<Longrightarrow> str_heap_inv h"
  by (rule reachable_inv)

theorem caches_consistent_witness: "str_heap_inv (heap_of sample_string)"
  using caches_consistent [of "heap_of sample_string"] sample_live by (simp add: live_string_def)

text \<open>C25. A substring by code units is what the language asks: the byte range \<open>utf16_range_to_byte_range\<close>
  returns cuts the string at character boundaries, and its units, with the half pair reported at
  either end, are the units from \<open>start\<close> to \<open>stop\<close>.\<close>

theorem substring_units:
  assumes "live_string h a f cps" "utf16_range_to_byte_range m (sh_epoch h) (sh_caches h) a f start stop = (ca', f', bs, be, sp)"
  shows "\<exists>d mid r. cps = d @ mid @ r \<and> (start < stop \<longrightarrow> bs = length (wtf8 d)) \<and> be = bs + length (wtf8 mid)
    \<and> take (stop - start) (drop start (units cps)) = split_units (prefix_surrogate sp) @ units mid @ split_units (suffix_surrogate sp)"
  using range_correct [OF live_op_state(1) [OF assms(1)] assms(2)] by blast

theorem substring_units_witness:
  "\<exists>ca' f' bs be sp d mid r. utf16_range_to_byte_range mem_granted (sh_epoch (heap_of sample_string)) (sh_caches (heap_of sample_string)) 1 sample_flat 2 4
      = (ca', f', bs, be, sp) \<and> sample_string = d @ mid @ r \<and> [0xDE00, 0x62] = split_units (prefix_surrogate sp) @ units mid @ split_units (suffix_surrogate sp)"
proof -
  obtain ca' f' bs be sp where r: "utf16_range_to_byte_range mem_granted (sh_epoch (heap_of sample_string)) (sh_caches (heap_of sample_string)) 1 sample_flat 2 4
      = (ca', f', bs, be, sp)" by (metis prod.collapse)
  from substring_units [OF sample_live r] show ?thesis unfolding r by (simp add: sample_units) blast
qed

text \<open>C26. Offsets round-trip at character boundaries. The code unit index of the byte offset a prefix ends at
  is the prefix's length in units, without bound. In the other direction the code casts the offset to
  \<open>int\<close>: the byte offset of the code unit a prefix ends at is the length of the prefix in bytes reduced to
  a signed 32-bit number, which is the length itself for a prefix shorter than \<open>2 ^ 31\<close> bytes and a
  negative number for one from \<open>2 ^ 31\<close> to below \<open>2 ^ 32\<close> bytes.\<close>

theorem offset_roundtrip:
  fixes h a f d r m
  assumes "live_string h a f (d @ r)"
  defines "n \<equiv> fst (snd (snd (utf16_index_to_byte_offset m (sh_epoch h) (sh_caches h) a f (length (units d)))))"
  shows "n = (int (length (wtf8 d)) + 2 ^ 31) mod 2 ^ 32 - 2 ^ 31
    \<and> (length (wtf8 d) < 2 ^ 31 \<longrightarrow> n = int (length (wtf8 d))) \<and> (length (wtf8 d) \<in> {2 ^ 31 ..< 2 ^ 32} \<longrightarrow> n < 0)
    \<and> snd (snd (byte_offset_to_utf16 (sh_epoch h) (sh_caches h) a f (length (wtf8 d)))) = length (units d)"
proof -
  note o = live_op_state(1) [OF assms(1)]
  have u: "upto (d @ r) (ulen d) = d" using upto_append [of d "ulen d" r] by (cases r) (simp_all only: diff_self_eq_0 upto.simps append_Nil2 simp_thms if_True)
  have "snd (snd (utf16_index_to_byte_offset m (sh_epoch h) (sh_caches h) a f (ulen d))) = offset_of (d @ r) (ulen d)"
    using index_to_byte_offset_correct [OF o, of m "ulen d"] by (metis prod.collapse)
  moreover have "fst (offset_of (d @ r) (ulen d)) = c_int (blen d)" by (simp add: offset_of_def u)
  ultimately have n: "n = (int (blen d) + 2 ^ 31) mod 2 ^ 32 - 2 ^ 31" by (simp add: n_def c_int_wraps)
  have "cover (d @ r) (blen d) = d" using cover_append [of d "blen d" r] by (cases r) (simp_all only: diff_self_eq_0 cover.simps append_Nil2 simp_thms if_True)
  moreover have "snd (snd (byte_offset_to_utf16 (sh_epoch h) (sh_caches h) a f (blen d))) = ulen (cover (d @ r) (blen d))"
    using byte_offset_correct [OF o, of "blen d"] by (cases "byte_offset_to_utf16 (sh_epoch h) (sh_caches h) a f (blen d)") simp
  ultimately show ?thesis using n wrapped_small [of "blen d"] wrapped_large [of "blen d"] by simp
qed

theorem offset_roundtrip_witness:
  "fst (snd (snd (utf16_index_to_byte_offset mem_granted (sh_epoch (heap_of sample_string)) (sh_caches (heap_of sample_string)) 1 sample_flat 3))) = 5
    \<and> snd (snd (byte_offset_to_utf16 (sh_epoch (heap_of sample_string)) (sh_caches (heap_of sample_string)) 1 sample_flat 5)) = 3"
proof -
  have s: "sample_string = [0x61, 0x1F600] @ [0x62]" by (simp add: sample_string_def)
  have l: "length (wtf8 [0x61, 0x1F600]) = 5" "length (units [0x61, 0x1F600]) = 3"
    by (simp_all add: wtf8_def utf8_bytes_def units_def utf16_units_def)
  from offset_roundtrip [of "heap_of sample_string" 1 sample_flat "[0x61, 0x1F600]" "[0x62]" mem_granted] sample_live [unfolded s] show ?thesis
    unfolding l s by simp
qed

text \<open>C27. The length of a string is its length in code units, and it is computed once. \<open>flat_utf16_len\<close>
  returns the number of units and leaves the bytes and a consistent header. The header then holds the
  answer: the length itself for a string with a byte above \<open>0x7F\<close>, the mark that the string is
  ASCII (and so as long as its bytes) otherwise. A later call, whatever the caches then hold, answers
  the same from the header and changes nothing.\<close>

theorem string_length_units:
  assumes "live_string h a f cps" "flat_utf16_len (sh_epoch h) (sh_caches h) a f = (ca', f', n)"
  shows "unat n = length (units cps) \<and> flat_inv f' \<and> utf16_len_ok f' \<and> flat_bytes f' = flat_bytes f
    \<and> (if list_all (\<lambda>b. b < 0x80) (wtf8 cps) then str_flat_ascii_state f' = STR_ASCII_YES
        else str_flat_ascii_state f' = STR_ASCII_NO \<and> str_flat_cached_utf16_len f' = n)
    \<and> (\<forall>epoch ca str. flat_utf16_len epoch ca str f' = (ca, f', n))"
proof -
  have "flat_bytes f = wtf8 cps" using assms(1) by (simp add: live_string_def)
  then show ?thesis using flat_utf16_len_correct [OF live_op_state [OF assms(1)] assms(2)] flat_utf16_len_stored [OF live_op_state [OF assms(1)] assms(2)]
    by (simp add: op_state_def list_all_iff ascii_bytes_def)
qed

theorem string_length_units_witness:
  "\<exists>ca f. flat_utf16_len (sh_epoch (heap_of sample_string)) (sh_caches (heap_of sample_string)) 1 sample_flat = (ca, f, 4)
    \<and> str_flat_cached_utf16_len f = 4"
proof -
  obtain ca' f' n where r: "flat_utf16_len (sh_epoch (heap_of sample_string)) (sh_caches (heap_of sample_string)) 1 sample_flat = (ca', f', n)"
    by (metis prod.collapse)
  have "\<not> list_all (\<lambda>b. b < 0x80) (wtf8 sample_string)" by (simp add: sample_string_def wtf8_def utf8_bytes_def byte_of_def)
  with string_length_units [OF sample_live r] have "unat n = 4" "str_flat_cached_utf16_len f' = n" by (simp_all add: sample_units)
  moreover have "n = 4" using \<open>unat n = 4\<close> by (simp add: word_unat_eq_iff)
  ultimately show ?thesis using r by simp
qed

text \<open>C28. The checkpoint array of the UTF-16 index is never overrun: building the index of a string stores
  fewer points than were allocated for it, and each is the byte and unit position of a character.\<close>

theorem index_points_fit:
  assumes "length s \<le> UINT32_MAX"
  shows "length (index_build_loop s 0 0 [(0, 0)]) < utf16_index_max_points (length s) \<and> points_ok s (index_build_loop s 0 0 [(0, 0)])"
  using build_bound [of s 0 0 "[(0, 0)]"] build_points [of s 0 0 "[(0, 0)]"] assms by (simp add: bnd.start points_ok_def)

theorem index_points_fit_witness:
  "length (index_build_loop (replicate 300 0x61) 0 0 [(0, 0)]) < utf16_index_max_points 300"
  using index_points_fit [of "replicate 300 0x61"] by (simp add: UINT32_MAX_def)

text \<open>C29. The word-at-a-time ASCII test is the byte-by-byte test, for every length and alignment of the
  tail.\<close>

theorem ascii_scan_equivalent: "str_detect_ascii_bytes s = STR_ASCII_YES \<longleftrightarrow> list_all (\<lambda>b. b < 0x80) s"
  by (simp add: detect_ascii_iff list_all_iff)

text \<open>C30. Validity is cached faithfully: on a consistent header \<open>str_is_valid_utf8\<close> answers whether the
  bytes are valid, changes only the header and leaves it consistent, so a second call agrees.\<close>

theorem cached_validity:
  assumes "flat_inv f"
  shows "case str_is_valid_utf8 f of (f1, v) \<Rightarrow>
    v = utf8_validate_bytes (flat_bytes f) \<and> flat_inv f1 \<and> flat_bytes f1 = flat_bytes f \<and> snd (str_is_valid_utf8 f1) = v"
  using is_valid_utf8_correct [OF assms] is_valid_utf8_correct(1) [OF is_valid_utf8_correct(2) [OF assms]]
  by (simp add: case_prod_beta)

theorem cached_validity_witness: "snd (str_is_valid_utf8 sample_flat)"
proof -
  have "flat_inv sample_flat" using live_op_state(1) [OF sample_live] by (simp add: op_state_def)
  moreover have "utf8_validate_bytes (wtf8 sample_string)"
    using validate_encode [of sample_string] by (simp add: sample_string_def wtf8_def scalar_def)
  ultimately show ?thesis using cached_validity [of sample_flat] by (simp add: case_prod_beta sample_flat_def)
qed

text \<open>C31. The code unit iterator reads the string's UTF-16 form: on the stored bytes of any sequence of code
  points, lone surrogates included, the first calls of \<open>utf16_next_code_unit\<close> return the code units of the
  text one by one, both halves of a pair included, and every call after the last unit reports the end.\<close>

theorem iterator_refines_units:
  assumes "cps_ok cps"
  shows "iterator_calls n (utf16_iterator_start (wtf8 cps)) =
    map (\<lambda>u. Some (word_of_nat u)) (take n (units cps)) @ replicate (n - length (units cps)) None"
  using iterator_calls_text [of cps n] assms unfolding cps_ok_def units_def by blast

theorem iterator_refines_units_witness:
  "iterator_calls 5 (utf16_iterator_start (wtf8 sample_string)) = [Some 0x61, Some 0xD83D, Some 0xDE00, Some 0x62, None]"
proof -
  have "cps_ok sample_string" using sample_live by (simp add: live_string_def)
  from iterator_refines_units [OF this, of 5] show ?thesis by (simp add: sample_units)
qed

section \<open>Text that leaves the runtime\<close>

text \<open>C32. \<open>TextEncoder.encode\<close> writes the string's UTF-8 form: for a live string of any reachable state,
  surrogate pairs split over two stored characters are joined, each lone surrogate becomes
  U+FFFD, and the bytes fit the buffer that was allocated from the stored length. The iterator
  and the encoder of the \<open>utf8proc\<close> library are parameters.\<close>

theorem text_encoder_writes_utf8:
  assumes "utf8_encoder enc" "utf8_iterator iter" "live_string h a f cps" "heap_ok m (blen cps)"
  shows "snd (snd (te_encode m enc iter (sh_epoch h) (sh_caches h) a f)) = Inr (wtf8 (to_well_formed cps))
    \<and> (\<forall>cp \<in> set (to_well_formed cps). scalar cp) \<and> blen (to_well_formed cps) \<le> blen cps"
proof -
  obtain ca f' res where e: "te_encode m enc iter (sh_epoch h) (sh_caches h) a f = (ca, f', res)" by (metis prod.collapse)
  have "cps_ok cps" using assms(3) by (simp add: live_string_def)
  then show ?thesis using te_encode_correct [OF assms(1,2) live_op_state(1) [OF assms(3)] assms(4) e] e twf_length [of cps] twf_scalar [of cps] by simp
qed

theorem text_encoder_writes_utf8_witness:
  "snd (snd (te_encode mem_granted utf8_bytes iterate_utf8 (sh_epoch (heap_of sample_string)) (sh_caches (heap_of sample_string)) 1 sample_flat))
    = Inr [0x61, 0xF0, 0x9F, 0x98, 0x80, 0x62]"
proof -
  have "wtf8 (to_well_formed sample_string) = [0x61, 0xF0, 0x9F, 0x98, 0x80, 0x62]"
    by (simp add: sample_string_def wtf8_def utf8_bytes_def byte_of_def surrogate_def high_surrogate_def)
  then show ?thesis using text_encoder_writes_utf8 [OF utf8_bytes_encoder iterate_utf8_iterator sample_live, of mem_granted] by simp
qed

text \<open>C33. \<open>JSON.stringify\<close> of a string always ends with a JSON string when memory is granted, for lone
  surrogates included: the text between the quotes follows the grammar of JSON strings and
  denotes the characters of the string with its surrogate pairs joined, so the UTF-16 units a
  reader gets are the units that were written.\<close>

theorem json_quote_delivers:
  assumes "utf8_encoder enc" "cps_ok cps" "\<And>n. heap_ok m n"
  shows "\<exists>body. utf8_json_quote m enc (wtf8 cps) = Some ([0x22] @ body @ [0x22]) \<and> json_body body (join_pairs cps)
    \<and> units (join_pairs cps) = units cps"
proof -
  obtain out where o: "utf8_json_quote m enc (wtf8 cps) = Some out" using json_quote_total [OF assms] by blast
  then show ?thesis using json_quote_correct [OF assms(1,2) o] join_units [of cps] by auto
qed

theorem json_quote_delivers_witness:
  "\<exists>body. utf8_json_quote mem_granted utf8_bytes (wtf8 [0x22, 0xD800]) = Some ([0x22] @ body @ [0x22]) \<and> json_body body (join_pairs [0x22, 0xD800])"
  using json_quote_delivers [OF utf8_bytes_encoder, of "[0x22, 0xD800]" mem_granted] by (auto simp: cps_ok_def)

text \<open>C34. \<open>encodeURIComponent\<close> and \<open>encodeURI\<close> succeed on every text of Unicode scalar values without U+0000,
  and \<open>decodeURIComponent\<close> and \<open>decodeURI\<close> give the text back.\<close>

theorem uri_functions_roundtrip:
  assumes "uri_text cps" "\<And>n. heap_ok m n"
  shows "(\<exists>e. js_encodeURIComponent m [JsString (concat (map utf8_bytes cps))] = Inr e
      \<and> js_decodeURIComponent m [JsString e] = Inr (concat (map utf8_bytes cps)))
    \<and> (\<exists>e. js_encodeURI m [JsString (concat (map utf8_bytes cps))] = Inr e
      \<and> js_decodeURI m [JsString e] = Inr (concat (map utf8_bytes cps)))"
  using uri_component_roundtrip [OF assms] uri_roundtrip [OF assms] ..

theorem uri_functions_roundtrip_witness:
  "\<exists>e. js_encodeURIComponent mem_granted [JsString (concat (map utf8_bytes [0x2F, 0x20AC]))] = Inr e
      \<and> js_decodeURIComponent mem_granted [JsString e] = Inr (concat (map utf8_bytes [0x2F, 0x20AC]))"
  using uri_functions_roundtrip [of "[0x2F, 0x20AC]" mem_granted] by (simp add: uri_text_def scalar_def)

text \<open>C35. \<open>decodeURIComponent\<close> and \<open>decodeURI\<close> do not refuse ill-formed escapes. Take any escaped bytes with
  the shape of a UTF-8 sequence, a lead byte from \<open>0xC0\<close> to \<open>0xF7\<close> and the continuation bytes it asks for, that is
  overlong, encodes a surrogate or encodes a value above U+10FFFF. For all of these the language asks a
  \<open>URIError\<close>; the code returns the bytes as a string, which is not UTF-8.\<close>

theorem decode_uri_accepts_ill_formed:
  assumes "sequence_shaped c t" "sequence_overlong c t \<or> sequence_surrogate c t \<or> sequence_above c t" "\<And>n. heap_ok m n"
  shows "js_decodeURIComponent m [JsString (concat (map percent (c # t)))] = Inr (c # t)
    \<and> js_decodeURI m [JsString (concat (map percent (c # t)))] = Inr (c # t) \<and> \<not> utf8_validate_bytes (c # t)"
  using decode_ill_formed [OF assms] by blast

theorem decode_uri_accepts_ill_formed_witness:
  "js_decodeURIComponent mem_granted [JsString (ascii ''%C0%80'')] = Inr [0xC0, 0x80]
    \<and> js_decodeURI mem_granted [JsString (ascii ''%ED%A0%80'')] = Inr [0xED, 0xA0, 0x80]
    \<and> js_decodeURIComponent mem_granted [JsString (ascii ''%F7%BF%BF%BF'')] = Inr [0xF7, 0xBF, 0xBF, 0xBF]"
proof -
  have p: "concat (map percent [0xC0, 0x80]) = ascii ''%C0%80''" "concat (map percent [0xED, 0xA0, 0x80]) = ascii ''%ED%A0%80''"
    "concat (map percent [0xF7, 0xBF, 0xBF, 0xBF]) = ascii ''%F7%BF%BF%BF''"
    by code_simp+
  have q: "sequence_shaped 0xC0 [0x80]" "sequence_overlong 0xC0 [0x80]" "sequence_shaped 0xED [0xA0, 0x80]" "sequence_surrogate 0xED [0xA0, 0x80]"
    "sequence_shaped 0xF7 [0xBF, 0xBF, 0xBF]" "sequence_above 0xF7 [0xBF, 0xBF, 0xBF]"
    by code_simp+
  show ?thesis
    using decode_uri_accepts_ill_formed [of "0xC0" "[0x80]" mem_granted] decode_uri_accepts_ill_formed [of "0xED" "[0xA0, 0x80]" mem_granted]
      decode_uri_accepts_ill_formed [of "0xF7" "[0xBF, 0xBF, 0xBF]" mem_granted]
    unfolding p using q by simp
qed

section \<open>Frames and events\<close>

text \<open>C36. A WebSocket frame is delivered as soon as its last byte has arrived and not before. Whatever prefix
  of an encoded frame is in the buffer, the parser asks for more; once the frame is there,
  followed by any bytes, the parser accepts it and returns the payload, the opcode and the
  flags that were sent, consumes exactly the frame and leaves what follows untouched.\<close>

theorem websocket_frame_delivered:
  assumes "ws_sendable opcode payload rsv1" "require_mask \<longrightarrow> mask_set" "rsv1 \<longrightarrow> allow_rsv1" "\<And>n. heap_ok m n"
    and "mask_set \<longrightarrow> (\<exists>key. rnd = Some key \<and> length key = 4)"
  shows "\<exists>e. ant_ws_encode_frame m rnd opcode (Some payload) (length payload) mask_set rsv1 = Some e
    \<and> (\<forall>k < length e. fst (ant_ws_parse_frame m (take k e) require_mask allow_rsv1 inplace) = ANT_WS_FRAME_INCOMPLETE)
    \<and> (\<forall>rest. case ant_ws_parse_frame m (e @ rest) require_mask allow_rsv1 inplace of (res, f, data) \<Rightarrow>
        res = ANT_WS_FRAME_OK \<and> f_payload f = payload \<and> f_opcode f = opcode \<and> f_fin f \<and> f_rsv1 f = rsv1
        \<and> f_masked f = mask_set \<and> f_consumed_len f = length e \<and> drop (f_consumed_len f) data = rest)"
proof -
  have r: "mask_set \<Longrightarrow> rnd \<noteq> None" using assms(5) by auto
  obtain e where e: "ant_ws_encode_frame m rnd opcode (Some payload) (length payload) mask_set rsv1 = Some e"
    using encode_granted [of m mask_set rnd opcode "Some payload" "length payload" rsv1] assms(4) r by blast
  obtain key where w: "e = ws_wire opcode payload mask_set rsv1 key" "length key = 4" using encode_wire_key [OF e] assms(5) by blast
  have "fst (ant_ws_parse_frame m (take k e) require_mask allow_rsv1 inplace) = ANT_WS_FRAME_INCOMPLETE" if "k < length e" for k
    using parse_prefix [OF assms(1-3) w(2)] that unfolding w(1) by blast
  moreover have "case ant_ws_parse_frame m (e @ rest) require_mask allow_rsv1 inplace of (res, f, data) \<Rightarrow>
      res = ANT_WS_FRAME_OK \<and> f_payload f = payload \<and> f_opcode f = opcode \<and> f_fin f \<and> f_rsv1 f = rsv1
      \<and> f_masked f = mask_set \<and> f_consumed_len f = length e \<and> drop (f_consumed_len f) data = rest" for rest
    using parse_encoded [OF assms(1-3) w(2) assms(4), of rest inplace] unfolding w(1) by (auto split: prod.splits)
  ultimately show ?thesis using e by blast
qed

theorem websocket_frame_delivered_witness:
  "\<exists>e. ant_ws_encode_frame mem_granted (Some [1, 2, 3, 4]) 0x1 (Some [0x68, 0x69]) (length [0x68, 0x69 :: byte]) True False = Some e
    \<and> (\<forall>k < length e. fst (ant_ws_parse_frame mem_granted (take k e) True False True) = ANT_WS_FRAME_INCOMPLETE)"
proof -
  have "ws_sendable 0x1 [0x68, 0x69] False" by (simp add: ws_sendable_def)
  from websocket_frame_delivered [OF this, of True True False mem_granted "Some [1, 2, 3, 4]" True] show ?thesis by auto
qed

text \<open>C37. Unmasking a payload eight bytes at a time gives what unmasking it byte by byte gives, for every
  length and key, and unmasking twice is the identity.\<close>

theorem websocket_unmask_words:
  assumes "length key = 4"
  shows "ant_ws_unmask data key = unmask_tail key 0 data \<and> ant_ws_unmask (ant_ws_unmask data key) key = data"
  by (simp add: unmask_bytes [OF assms] tail_involution)

theorem websocket_unmask_words_witness:
  "ant_ws_unmask [1, 2, 3, 4, 5, 6, 7, 8, 9] [9, 8, 7, 6] = unmask_tail [9, 8, 7, 6] 0 [1, 2, 3, 4, 5, 6, 7, 8, 9]"
  using websocket_unmask_words [of "[9, 8, 7, 6]"] by simp

text \<open>C38. Whatever bytes a peer sends, a frame the parser accepts lies inside the buffer and its payload is
  the right part of it. The header size and the payload length are those the frame declares in its
  second byte and in the extended length; header and payload end inside the buffer and are what is
  consumed. The payload returned is the bytes after the header, unmasked with the key that ends the
  header when the mask bit is set. An in-place call changes the buffer there and nowhere else. The
  length is below \<open>2 ^ 63\<close>.\<close>

theorem websocket_parse_safe:
  assumes "ant_ws_parse_frame m data require_mask allow_rsv1 inplace = (ANT_WS_FRAME_OK, f, data')"
  defines "h \<equiv> ws_header_size data" and "n \<equiv> ws_declared data"
  shows "h + n \<le> length data \<and> n < 2 ^ 63 \<and> f_payload_len f = n \<and> f_consumed_len f = h + n \<and> length (f_payload f) = n
    \<and> f_payload f = (if 128 \<le> unat (data ! 1) then unmask_tail (take 4 (drop (h - 4) data)) 0 (take n (drop h data)) else take n (drop h data))
    \<and> data' = (if inplace then take h data @ f_payload f @ drop (h + n) data else data)"
proof -
  have "length (unmask_tail k i s) = length s" for k i s by (induction s arbitrary: i) simp_all
  then show ?thesis using parse_frame_spec [OF assms(1)] unfolding h_def n_def by (auto split: if_splits)
qed

theorem websocket_parse_safe_witness:
  "\<exists>f data'. ant_ws_parse_frame mem_granted [0x81, 0x82, 1, 2, 3, 4, 0x41, 0x42, 0x43] True False True = (ANT_WS_FRAME_OK, f, data')
    \<and> f_consumed_len f = 8 \<and> f_payload f = [0x40, 0x40] \<and> data' = [0x81, 0x82, 1, 2, 3, 4, 0x40, 0x40, 0x43]"
proof -
  let ?d = "[0x81, 0x82, 1, 2, 3, 4, 0x41, 0x42, 0x43] :: bytes"
  obtain f d where e: "ant_ws_parse_frame mem_granted ?d True False True = (ANT_WS_FRAME_OK, f, d)"
    by (simp add: ant_ws_parse_frame_def ws_header_error_def ws_payload_length_def Let_def)
  have "ws_header_size ?d = 6" "ws_declared ?d = 2" "unat (?d ! 1) = 130" by code_simp+
  then show ?thesis using e websocket_parse_safe [OF e] by simp
qed

text \<open>C39. A server-sent event that was written is delivered once, in whatever chunks its text arrives, to a
  parser that is between two events, when memory is granted. The data, the name, the identifier and
  the retry time are any C strings, as \<open>server_sse_send\<close> hands them over. The writer splits a value at line feeds
  and repeats the field for each line, which is right for the data only: the data comes back line by
  line, while of the name, of the identifier and of the numbers in the retry field the last
  line is what the parser keeps. So values without line breaks come back as they were given, and data without a carriage
  return comes back but for a line feed that ends it. The parser then has nothing pending and
  remembers the identifier.\<close>

theorem sse_event_delivered:
  assumes "\<And>n. heap_ok m n" "sse_idle p" "c_text data" "pred_option c_text event" "pred_option c_text ident" "pred_option c_text retry"
  defines "message \<equiv> \<lparr>m_data = join_lf (sent_lines data), m_event = map_option (last \<circ> sent_lines) (non_empty event),
        m_id = map_option (last \<circ> sent_lines) ident,
        m_retry = (if sent_retries retry = [] then sp_retry p else last (sent_retries retry)),
        m_has_retry = (sp_has_retry p \<or> sent_retries retry \<noteq> [])\<rparr>"
  shows "(\<exists>out. ant_sse_format_event m (Some data) event ident retry = Some out
      \<and> (\<forall>chunks. concat chunks = out \<longrightarrow> (\<exists>q. sse_feed_all m cb p chunks = (q, [message], cb message)
         \<and> sp_last_event_id q = (case m_id message of None \<Rightarrow> sp_last_event_id p | Some i \<Rightarrow> Some i)
         \<and> sp_data q = None \<and> sp_event q = None \<and> sp_id q = None)))
    \<and> (0x0D \<notin> set data \<longrightarrow> m_data message = (if data \<noteq> [] \<and> last data = 0x0A then butlast data else data))
    \<and> (pred_option sse_clean event \<longrightarrow> m_event message = non_empty event) \<and> (pred_option sse_clean ident \<longrightarrow> m_id message = ident)
    \<and> (pred_option sse_clean retry \<longrightarrow> sent_retries retry = (case Option.bind retry retry_value of None \<Rightarrow> [] | Some r \<Rightarrow> [r]))"
proof -
  have "message = sse_delivered p data event ident retry" by (simp add: message_def sse_delivered_def)
  then have "\<exists>out. ant_sse_format_event m (Some data) event ident retry = Some out
      \<and> (\<forall>chunks. concat chunks = out \<longrightarrow> (\<exists>q. sse_feed_all m cb p chunks = (q, [message], cb message)
         \<and> sp_last_event_id q = (case m_id message of None \<Rightarrow> sp_last_event_id p | Some i \<Rightarrow> Some i)
         \<and> sp_data q = None \<and> sp_event q = None \<and> sp_id q = None))"
    using sse_event_roundtrip [OF assms(1-6), of cb] unfolding feed_all_concat by metis
  moreover have "pred_option sse_clean event \<Longrightarrow> m_event message = non_empty event" "pred_option sse_clean ident \<Longrightarrow> m_id message = ident"
    by (cases event; cases ident; simp add: message_def non_empty_def sent_lines_clean)+
  moreover have "pred_option sse_clean retry \<Longrightarrow> sent_retries retry = (case Option.bind retry retry_value of None \<Rightarrow> [] | Some r \<Rightarrow> [r])"
    by (cases retry) (auto simp: sent_retries_def sent_lines_clean List.map_filter_def split: option.splits)
  ultimately show ?thesis using sent_lines_data [of data] by (auto simp: message_def)
qed

theorem sse_event_delivered_witness:
  "\<exists>out q. ant_sse_format_event mem_granted (Some [0x61, 0x0A, 0x62]) None (Some [0x37]) None = Some out
    \<and> sse_feed_all mem_granted (\<lambda>_. True) ant_sse_parser_init [out] =
      (q, [\<lparr>m_data = [0x61, 0x0A, 0x62], m_event = None, m_id = Some [0x37], m_retry = 0, m_has_retry = False\<rparr>], True)"
proof -
  have i: "sse_idle ant_sse_parser_init" "sp_retry ant_sse_parser_init = 0" "\<not> sp_has_retry ant_sse_parser_init"
    by (simp_all add: sse_idle_def sse_inv_def ant_sse_parser_init_def)
  have v: "join_lf (sent_lines [0x61, 0x0A, 0x62]) = [0x61, 0x0A, 0x62]" "sent_lines [0x37] = [[0x37]]" "sent_retries None = []" "non_empty None = None"
    by (simp_all add: sent_lines_data sent_lines_clean sse_clean_def sent_retries_def non_empty_def)
  from sse_event_delivered [OF mem_granted_simps(1) i(1), of "[0x61, 0x0A, 0x62]" None "Some [0x37]" None "\<lambda>_. True"]
  obtain out where o: "ant_sse_format_event mem_granted (Some [0x61, 0x0A, 0x62]) None (Some [0x37]) None = Some out"
    "\<forall>chunks. concat chunks = out \<longrightarrow> (\<exists>q. sse_feed_all mem_granted (\<lambda>_. True) ant_sse_parser_init chunks =
      (q, [\<lparr>m_data = [0x61, 0x0A, 0x62], m_event = None, m_id = Some [0x37], m_retry = 0, m_has_retry = False\<rparr>], True))"
    using i by (auto simp: v)
  show ?thesis using o(1) spec [OF o(2), of "[out]"] by auto
qed

text \<open>C40. The line buffer of the event parser never overflows: from the initial state, after any chunks, the
  partial line and its terminator fit the buffer, however a failed allocation or a callback
  that stops cut the call short.\<close>

theorem sse_line_buffer_safe: "sse_inv (fst (sse_feed_all m cb ant_sse_parser_init chunks))"
  unfolding feed_all_concat by (rule feed_keeps_inv) (simp add: sse_inv_def ant_sse_parser_init_def)

end
